(* ===== verification/Arc_Prelude.thy ===== *)
theory Arc_Prelude
  imports Main "HOL-Library.Word" "HOL-Library.Product_Lexorder" "HOL-Library.Multiset"
begin

text \<open>
  Shared vocabulary of the development: machine integers at their Rust width, the checked and
  saturating operations of the Rust standard library, \<open>Result\<close> and its \<open>?\<close> operator,
  \<open>BTreeMap\<close>/\<open>DashMap\<close> as key-sorted association lists, first-match search and update of a
  \<open>Vec\<close>, and two generic interfaces (a keyed store and an invariant-preserving machine) that
  the component theories instantiate.

  Unchecked \<open>+\<close>, \<open>-\<close> and \<open>*\<close> on a Rust integer are the wrapping operations of \<open>'a word\<close>:
  the workspace's release profile (\<open>Cargo.toml\<close>) leaves overflow checks off.
\<close>

named_theorems result_simps \<open>inversion of fallible computations\<close>
named_theorems store_simps \<open>lookups after updates of a keyed store\<close>
named_theorems frame \<open>the fields an operation leaves alone\<close>

section \<open>Machine integers\<close>

type_synonym u8 = "8 word"
type_synonym u16 = "16 word"
type_synonym u32 = "32 word"
type_synonym u64 = "64 word"
type_synonym u128 = "128 word"

text \<open>A 32-byte hash or address, read as a big-endian number: the byte-wise lexicographic order
  of \<open>[u8; 32]\<close> is then the numeric order of the word.\<close>

type_synonym hash256 = "256 word"
type_synonym address = hash256

definition checked_add :: "'a::len word \<Rightarrow> 'a word \<Rightarrow> 'a word option" where
  "checked_add a b = (if unat a + unat b < 2 ^ LENGTH('a) then Some (a + b) else None)"

definition checked_sub :: "'a::len word \<Rightarrow> 'a word \<Rightarrow> 'a word option" where
  "checked_sub a b = (if b \<le> a then Some (a - b) else None)"

definition checked_mul :: "'a::len word \<Rightarrow> 'a word \<Rightarrow> 'a word option" where
  "checked_mul a b = (if unat a * unat b < 2 ^ LENGTH('a) then Some (a * b) else None)"

definition saturating_add :: "'a::len word \<Rightarrow> 'a word \<Rightarrow> 'a word" where
  "saturating_add a b = (if unat a + unat b < 2 ^ LENGTH('a) then a + b else - 1)"

definition saturating_sub :: "'a::len word \<Rightarrow> 'a word \<Rightarrow> 'a word" where
  "saturating_sub a b = (if b \<le> a then a - b else 0)"

lemma unat_add_no_wrap:
  fixes a b :: "'a::len word"
  assumes "unat a + unat b < 2 ^ LENGTH('a)"
  shows "unat (a + b) = unat a + unat b"
  using assms by (simp add: unat_word_ariths)

lemma unat_mult_no_wrap:
  fixes a b :: "'a::len word"
  assumes "unat a * unat b < 2 ^ LENGTH('a)"
  shows "unat (a * b) = unat a * unat b"
  using assms by (simp add: unat_word_ariths)

lemma checked_add_Some_iff [result_simps]:
  "checked_add a b = Some c \<longleftrightarrow> unat c = unat a + unat b"
proof
  assume "checked_add a b = Some c"
  then show "unat c = unat a + unat b"
    by (auto simp: checked_add_def unat_add_no_wrap split: if_splits)
next
  assume *: "unat c = unat a + unat b"
  then have "unat a + unat b < 2 ^ LENGTH('a)" by (metis unsigned_less)
  then show "checked_add a b = Some c"
    using * by (simp add: checked_add_def unat_add_no_wrap word_unat_eq_iff)
qed

lemma checked_add_None_iff [result_simps]:
  "checked_add (a :: 'a::len word) b = None \<longleftrightarrow> 2 ^ LENGTH('a) \<le> unat a + unat b"
  by (auto simp: checked_add_def)

lemma checked_sub_Some_iff [result_simps]:
  "checked_sub a b = Some c \<longleftrightarrow> unat a = unat b + unat c"
proof
  assume "checked_sub a b = Some c"
  then show "unat a = unat b + unat c"
    by (auto simp: checked_sub_def unat_sub word_le_nat_alt split: if_splits)
next
  assume *: "unat a = unat b + unat c"
  then have "b \<le> a" by (simp add: word_le_nat_alt)
  then show "checked_sub a b = Some c"
    using * by (simp add: checked_sub_def unat_sub word_unat_eq_iff)
qed

lemma checked_sub_None_iff [result_simps]: "checked_sub a b = None \<longleftrightarrow> a < b"
  by (auto simp: checked_sub_def not_le)

lemma checked_mul_Some_iff [result_simps]:
  "checked_mul a b = Some c \<longleftrightarrow> unat c = unat a * unat b"
proof
  assume "checked_mul a b = Some c"
  then show "unat c = unat a * unat b"
    by (auto simp: checked_mul_def unat_mult_no_wrap split: if_splits)
next
  assume *: "unat c = unat a * unat b"
  then have "unat a * unat b < 2 ^ LENGTH('a)" by (metis unsigned_less)
  then show "checked_mul a b = Some c"
    using * by (simp add: checked_mul_def unat_mult_no_wrap word_unat_eq_iff)
qed

lemma unat_saturating_sub: "unat (saturating_sub a b) = unat a - unat b"
  by (auto simp: saturating_sub_def unat_sub word_le_nat_alt)

lemma unat_saturating_add:
  "unat (saturating_add (a :: 'a::len word) b) = min (unat a + unat b) (2 ^ LENGTH('a) - 1)"
proof (cases "unat a + unat b < 2 ^ LENGTH('a)")
  case True
  then show ?thesis by (simp add: saturating_add_def unat_add_no_wrap)
next
  case False
  then show ?thesis by (simp add: saturating_add_def unsigned_minus_1_eq_mask mask_eq_exp_minus_1)
qed

lemma unat_surj: "n < 2 ^ LENGTH('a) \<Longrightarrow> \<exists>t :: 'a::len word. unat t = n"
  by (intro exI [of _ "word_of_nat n"]) (simp add: unat_of_nat take_bit_nat_eq_self)

lemma unat_less_64: "unat (t :: u64) < 2 ^ 64"
  using unsigned_less [of t] by simp

section \<open>Results\<close>

text \<open>\<open>Result<T, E>\<close> is \<open>'e + 't\<close> with \<open>Inl\<close> the error; \<open>and_then\<close> is the \<open>?\<close> operator.\<close>

definition and_then :: "'e + 'a \<Rightarrow> ('a \<Rightarrow> 'e + 'b) \<Rightarrow> 'e + 'b" where
  "and_then r f = (case r of Inl e \<Rightarrow> Inl e | Inr x \<Rightarrow> f x)"

definition ok_or :: "'e \<Rightarrow> 'a option \<Rightarrow> 'e + 'a" where
  "ok_or e x = (case x of None \<Rightarrow> Inl e | Some v \<Rightarrow> Inr v)"

definition guard :: "bool \<Rightarrow> 'e \<Rightarrow> 'e + unit" where
  "guard b e = (if b then Inr () else Inl e)"

lemma and_then_simps [simp]:
  "and_then (Inl e) f = Inl e"
  "and_then (Inr x) f = f x"
  by (simp_all add: and_then_def)

lemma and_then_Inr [result_simps]:
  "and_then r f = Inr y \<longleftrightarrow> (\<exists>x. r = Inr x \<and> f x = Inr y)"
  by (cases r) simp_all

lemma and_then_Inl [result_simps]:
  "and_then r f = Inl e \<longleftrightarrow> r = Inl e \<or> (\<exists>x. r = Inr x \<and> f x = Inl e)"
  by (cases r) simp_all

lemma ok_or_simps [simp]:
  "ok_or e None = Inl e"
  "ok_or e (Some v) = Inr v"
  by (simp_all add: ok_or_def)

lemma ok_or_Inr [result_simps]: "ok_or e x = Inr v \<longleftrightarrow> x = Some v"
  by (cases x) simp_all

lemma ok_or_Inl [result_simps]: "ok_or e x = Inl e' \<longleftrightarrow> x = None \<and> e' = e"
  by (cases x) auto

lemma guard_Inr [result_simps]: "guard b e = Inr u \<longleftrightarrow> b"
  by (simp add: guard_def)

lemma guard_Inl [result_simps]: "guard b e = Inl e' \<longleftrightarrow> \<not> b \<and> e' = e"
  by (auto simp: guard_def)

lemma guard_simps [simp]:
  "guard True e = Inr ()"
  "guard False e = Inl e"
  by (simp_all add: guard_def)

section \<open>Keyed stores\<close>

text \<open>
  \<open>BTreeMap<K, V>\<close> and \<open>DashMap<K, V>\<close> are association lists sorted by key, so that iteration
  is in key order and every operation computes. Lookup is \<open>map_of\<close>.
\<close>

type_synonym ('k, 'v) store = "('k \<times> 'v) list"

fun mput :: "'k::linorder \<Rightarrow> 'v \<Rightarrow> ('k, 'v) store \<Rightarrow> ('k, 'v) store" where
  "mput k v [] = [(k, v)]"
| "mput k v ((k', v') # m) =
     (if k < k' then (k, v) # (k', v') # m
      else if k = k' then (k, v) # m
      else (k', v') # mput k v m)"

definition mdel :: "'k \<Rightarrow> ('k, 'v) store \<Rightarrow> ('k, 'v) store" where
  "mdel k m = filter (\<lambda>(k', _). k' \<noteq> k) m"

definition mretain :: "('k \<Rightarrow> 'v \<Rightarrow> bool) \<Rightarrow> ('k, 'v) store \<Rightarrow> ('k, 'v) store" where
  "mretain P m = filter (\<lambda>(k, v). P k v) m"

definition mhas :: "('k, 'v) store \<Rightarrow> 'k \<Rightarrow> bool" where
  "mhas m k \<longleftrightarrow> map_of m k \<noteq> None"

definition mor_insert :: "'k::linorder \<Rightarrow> 'v \<Rightarrow> ('k, 'v) store \<Rightarrow> ('k, 'v) store" where
  "mor_insert k v m = (if mhas m k then m else mput k v m)"

text \<open>\<open>entry(k).or_insert(d)\<close> followed by an in-place change \<open>f\<close>.\<close>

definition mentry :: "'k::linorder \<Rightarrow> 'v \<Rightarrow> ('v \<Rightarrow> 'v) \<Rightarrow> ('k, 'v) store \<Rightarrow> ('k, 'v) store" where
  "mentry k d f m = mput k (f (case map_of m k of None \<Rightarrow> d | Some v \<Rightarrow> v)) m"

definition mwf :: "('k::linorder, 'v) store \<Rightarrow> bool" where
  "mwf m \<longleftrightarrow> sorted_wrt (<) (map fst m)"

lemma map_of_mput [store_simps]: "map_of (mput k v m) = (map_of m)(k \<mapsto> v)"
  by (induction k v m rule: mput.induct) (auto simp: fun_eq_iff)

lemma map_of_mdel [store_simps]: "map_of (mdel k m) = (map_of m)(k := None)"
  by (induction m) (auto simp: mdel_def fun_eq_iff)

lemma mhas_mput [store_simps]: "mhas (mput k v m) x \<longleftrightarrow> x = k \<or> mhas m x"
  by (auto simp: mhas_def map_of_mput)

lemma mhas_mdel [store_simps]: "mhas (mdel k m) x \<longleftrightarrow> x \<noteq> k \<and> mhas m x"
  by (auto simp: mhas_def map_of_mdel)

lemma mhas_iff: "mhas m k \<longleftrightarrow> k \<in> fst ` set m"
  by (simp add: mhas_def map_of_eq_None_iff)

lemma keys_mput: "set (map fst (mput k v m)) = insert k (set (map fst m))"
  by (induction k v m rule: mput.induct) auto

lemma keys_mdel: "set (map fst (mdel k m)) = set (map fst m) - {k}"
  by (auto simp: mdel_def)

lemma mwf_Nil [simp]: "mwf []"
  by (simp add: mwf_def)

lemma mwf_Cons: "mwf ((k, v) # m) \<longleftrightarrow> (\<forall>x \<in> fst ` set m. k < x) \<and> mwf m"
  by (simp add: mwf_def)

lemma mwf_mput [intro]: "mwf m \<Longrightarrow> mwf (mput k v m)"
proof (induction k v m rule: mput.induct)
  case (2 k v k' v' m)
  then show ?case using keys_mput [of k v m] by (auto simp: mwf_Cons)
qed (simp add: mwf_Cons)

lemma mwf_filter [intro]: "mwf m \<Longrightarrow> mwf (filter P m)"
  by (induction m) (auto simp: mwf_Cons)

lemma mwf_mdel [intro]: "mwf m \<Longrightarrow> mwf (mdel k m)"
  by (auto simp: mdel_def)

lemma mwf_mretain [intro]: "mwf m \<Longrightarrow> mwf (mretain P m)"
  by (auto simp: mretain_def)

lemma mwf_mor_insert [intro]: "mwf m \<Longrightarrow> mwf (mor_insert k v m)"
  by (auto simp: mor_insert_def)

lemma mwf_mentry [intro]: "mwf m \<Longrightarrow> mwf (mentry k d f m)"
  by (auto simp: mentry_def)

lemma map_of_mentry [store_simps]:
  "map_of (mentry k d f m) = (map_of m)(k \<mapsto> f (case map_of m k of None \<Rightarrow> d | Some v \<Rightarrow> v))"
  by (simp add: mentry_def map_of_mput)

lemma mwf_distinct: "mwf m \<Longrightarrow> distinct (map fst m)"
  by (simp add: mwf_def strict_sorted_iff)

lemma map_of_mretain:
  assumes "mwf m"
  shows "map_of (mretain P m) k =
    (case map_of m k of None \<Rightarrow> None | Some v \<Rightarrow> if P k v then Some v else None)"
  using assms
proof (induction m)
  case (Cons a m)
  obtain k' v' where a: "a = (k', v')" by (cases a)
  show ?case
  proof (cases "k = k'")
    case True
    have "map_of (mretain P m) k = None"
      using Cons.prems a True by (auto simp: mwf_Cons mretain_def map_of_eq_None_iff)
    then show ?thesis using a True by (auto simp: mretain_def)
  next
    case False
    then show ?thesis using Cons a by (auto simp: mwf_Cons mretain_def)
  qed
qed (simp add: mretain_def)

lemma map_of_mretain_key [store_simps]:
  "map_of (mretain (\<lambda>k _. P k) m) k = (if P k then map_of m k else None)"
  by (induction m) (auto simp: mretain_def)

lemma mput_fresh_length: "\<not> mhas m k \<Longrightarrow> length (mput k v m) = Suc (length m)"
  by (induction k v m rule: mput.induct) (auto simp: mhas_def split: if_splits)

lemma mput_present_length: "mwf m \<Longrightarrow> mhas m k \<Longrightarrow> length (mput k v m) = length m"
proof (induction k v m rule: mput.induct)
  case (2 k v k' v' m)
  then show ?case by (fastforce simp: mhas_iff mwf_Cons split: if_splits)
qed (simp add: mhas_def)

lemma mput_length_le: "length (mput k v m) \<le> Suc (length m)"
  by (induction k v m rule: mput.induct) auto

lemma mdel_absent: "\<not> mhas m k \<Longrightarrow> mdel k m = m"
  unfolding mdel_def mhas_iff by (rule filter_True) force

lemma set_mput: "mwf m \<Longrightarrow> set (mput k v m) = insert (k, v) {p \<in> set m. fst p \<noteq> k}"
proof (induction k v m rule: mput.induct)
  case (2 k v k' v' m)
  show ?case
  proof (cases "k < k' \<or> k = k'")
    case True
    then show ?thesis using 2 by (fastforce simp: mwf_Cons)
  next
    case False
    then show ?thesis using 2 by (auto simp: mwf_Cons)
  qed
qed simp

lemma map_of_in_set: "map_of m k = Some v \<Longrightarrow> (k, v) \<in> set m"
  by (rule map_of_SomeD)

lemma map_of_iff_set: "mwf m \<Longrightarrow> map_of m k = Some v \<longleftrightarrow> (k, v) \<in> set m"
  by (metis map_of_eq_Some_iff mwf_distinct)

text \<open>The laws a client of such a store relies on, and what follows from them alone.\<close>

locale keyed_store =
  fixes get :: "'m \<Rightarrow> 'k \<Rightarrow> 'v option"
    and put :: "'k \<Rightarrow> 'v \<Rightarrow> 'm \<Rightarrow> 'm"
    and del :: "'k \<Rightarrow> 'm \<Rightarrow> 'm"
    and wf :: "'m \<Rightarrow> bool"
  assumes get_put: "get (put k v m) = (get m)(k \<mapsto> v)"
    and get_del: "get (del k m) = (get m)(k := None)"
    and wf_put: "wf m \<Longrightarrow> wf (put k v m)"
    and wf_del: "wf m \<Longrightarrow> wf (del k m)"
begin

lemma get_put_del: "get (put k v (del k' m)) = (get m)(k' := None, k \<mapsto> v)"
  by (simp add: get_put get_del)

lemma move_keeps_others:
  assumes "x \<noteq> k" and "x \<noteq> k'"
  shows "get (put k v (del k' m)) x = get m x"
  using assms by (simp add: get_put_del)

lemma dom_move: "get m k' \<noteq> None \<Longrightarrow> dom (get (put k v (del k' m))) = insert k (dom (get m) - {k'})"
  by (auto simp: get_put_del)

lemma wf_move: "wf m \<Longrightarrow> wf (put k v (del k' m))"
  by (simp add: wf_put wf_del)

end

interpretation btree: keyed_store map_of mput mdel mwf
  by unfold_locales (auto simp: map_of_mput map_of_mdel)

section \<open>Vectors searched and updated by first match\<close>

text \<open>\<open>iter().find(p)\<close> is \<open>List.find\<close>; \<open>iter_mut().find(p)\<close> followed by a write is
  \<open>update_first\<close>.\<close>

fun update_first :: "('a \<Rightarrow> bool) \<Rightarrow> ('a \<Rightarrow> 'a) \<Rightarrow> 'a list \<Rightarrow> 'a list" where
  "update_first p f [] = []"
| "update_first p f (x # xs) = (if p x then f x # xs else x # update_first p f xs)"

lemma length_update_first [simp]: "length (update_first p f xs) = length xs"
  by (induction xs) auto

lemma find_update_first:
  assumes "\<And>x. p x \<Longrightarrow> p (f x)"
  shows "List.find p (update_first p f xs) = map_option f (List.find p xs)"
  using assms by (induction xs) auto

lemma update_first_none: "List.find p xs = None \<Longrightarrow> update_first p f xs = xs"
  by (induction xs) (auto split: if_splits)

lemma update_first_split:
  assumes "List.find p xs = Some x"
  shows "\<exists>us vs. xs = us @ x # vs \<and> (\<forall>u \<in> set us. \<not> p u) \<and> p x \<and>
    update_first p f xs = us @ f x # vs"
  using assms
proof (induction xs)
  case (Cons a xs)
  show ?case
  proof (cases "p a")
    case True
    then show ?thesis using Cons.prems by (intro exI [of _ "[]"] exI [of _ xs]) simp
  next
    case False
    then obtain us vs where "xs = us @ x # vs" "\<forall>u \<in> set us. \<not> p u" "p x"
      "update_first p f xs = us @ f x # vs"
      using Cons by auto
    then show ?thesis using False by (intro exI [of _ "a # us"] exI [of _ vs]) simp
  qed
qed simp

lemma find_update_first_other:
  assumes "\<And>x. p x \<Longrightarrow> \<not> q x \<and> \<not> q (f x)"
  shows "List.find q (update_first p f xs) = List.find q xs"
  using assms by (induction xs) auto

lemma set_update_first:
  "y \<in> set (update_first p f xs) \<Longrightarrow> y \<in> set xs \<or> (\<exists>x. List.find p xs = Some x \<and> y = f x)"
  by (induction xs) (auto split: if_splits)

lemma find_Some_in: "List.find p xs = Some x \<Longrightarrow> x \<in> set xs \<and> p x"
  by (auto simp: find_Some_iff)

lemma find_None_notin: "List.find p xs = None \<longleftrightarrow> (\<forall>x \<in> set xs. \<not> p x)"
  by (auto simp: find_None_iff)

section \<open>Invariant-preserving machines\<close>

text \<open>
  Most components are a state with a set of operations. The machine's operations are a datatype of
  calls; \<open>run\<close> folds a call sequence. A one-step invariant therefore holds after any
  interleaving of calls.
\<close>

locale machine =
  fixes step :: "'s \<Rightarrow> 'c \<Rightarrow> 's"
    and inv :: "'s \<Rightarrow> bool"
  assumes step_inv: "inv s \<Longrightarrow> inv (step s c)"
begin

lemma run_inv: "inv s \<Longrightarrow> inv (foldl step s cs)"
  by (induction cs arbitrary: s) (auto simp: step_inv)

lemma run_prefix_inv: "inv s \<Longrightarrow> inv (foldl step s (take n cs))"
  by (rule run_inv)

end

end
