(* ===== verification/Arc_Validators.thy ===== *)
theory Arc_Validators
  imports Arc_Prelude
begin

text \<open>
  The validator set of \<open>crates/arc-consensus/src/lib.rs\<close>: stake tiers, the checked total stake,
  the strict supermajority threshold of \<open>crates/arc-types/src/lib.rs\<close>, quorum queries, slashing,
  and the lifecycle operations of \<open>ConsensusEngine\<close> that change membership
  (\<open>join_validator\<close>, \<open>leave_validator\<close>, \<open>update_validator_stake\<close>, \<open>queue_validator\<close>,
  \<open>freeze_epoch\<close>, \<open>epoch_transition\<close>, \<open>update_validator_set\<close>, \<open>enforce_slash\<close>).

  An operation that can fail returns a pair of the Rust \<open>Result\<close> and the state it leaves behind.
  A Rust \<open>panic!\<close> or failed \<open>expect\<close> is the value \<open>None\<close>. Error strings keep the fixed
  text of the message; interpolated values are left out.
\<close>

section \<open>Data\<close>

definition STAKE_SPARK :: u64 where "STAKE_SPARK = 500000"
definition STAKE_ARC :: u64 where "STAKE_ARC = 5000000"
definition STAKE_CORE :: u64 where "STAKE_CORE = 50000000"

definition SLASH_RATE_SPARK :: u64 where "SLASH_RATE_SPARK = 10"
definition SLASH_RATE_ARC :: u64 where "SLASH_RATE_ARC = 20"
definition SLASH_RATE_CORE :: u64 where "SLASH_RATE_CORE = 30"

datatype consensus_error =
    InvalidBlock string
  | MissingParents hash256 nat
  | RoundTooFarAhead u64 u64
  | InsufficientParents
  | InvalidRound
  | NotValidator
  | DuplicateBlock
  | InvalidSignature
  | CrossShardLockNotFound hash256
  | CrossShardLockAlreadyExists hash256
  | CrossShardLockFailed string
  | SlashError string
  | MevOrderingViolation string
  | CrossShardLockExpired hash256
  | HistoryPersistence string

datatype stake_tier = Spark | Arc | Core

datatype slashable_offense = DoubleSigning | LivenessFault | InvalidBlockProposal | EquivocationDAG

record slash_record =
  sr_offense :: slashable_offense
  sr_offender :: address
  sr_evidence :: hash256
  sr_round :: u64
  sr_timestamp :: u64
  sr_slash_amount :: u64

record validator =
  v_address :: address
  v_stake :: u64
  v_tier :: stake_tier
  v_shard :: u16

record validator_set =
  vs_validators :: "validator list"
  vs_total_stake :: u64
  vs_epoch :: u64
  vs_quorum :: u64
  vs_slashed_total :: u64
  vs_slash_history :: "slash_record list"

section \<open>Tiers and thresholds\<close>

definition from_stake :: "u64 \<Rightarrow> stake_tier option" where
  "from_stake stake =
     (if STAKE_CORE \<le> stake then Some Core
      else if STAKE_ARC \<le> stake then Some Arc
      else if STAKE_SPARK \<le> stake then Some Spark
      else None)"

fun tier_can_produce_blocks :: "stake_tier \<Rightarrow> bool" where
  "tier_can_produce_blocks Spark = False"
| "tier_can_produce_blocks Arc = True"
| "tier_can_produce_blocks Core = True"

fun can_govern :: "stake_tier \<Rightarrow> bool" where
  "can_govern Core = True"
| "can_govern _ = False"

definition validator_new :: "address \<Rightarrow> u64 \<Rightarrow> u16 \<Rightarrow> validator option" where
  "validator_new addr stake shard =
     (case from_stake stake of
        None \<Rightarrow> None
      | Some tier \<Rightarrow> Some \<lparr>v_address = addr, v_stake = stake, v_tier = tier, v_shard = shard\<rparr>)"

definition strict_supermajority_threshold :: "u64 \<Rightarrow> u64" where
  "strict_supermajority_threshold total_power =
     (if total_power = 0 then 1 else total_power - (total_power - 1) div 3)"

text \<open>The loop of \<open>checked_validator_total_stake\<close>: \<open>seen\<close> and \<open>total\<close> are its two locals.\<close>

fun total_stake_loop :: "address list \<Rightarrow> u64 \<Rightarrow> validator list \<Rightarrow> consensus_error + u64" where
  "total_stake_loop seen tot [] = Inr tot"
| "total_stake_loop seen tot (v # vs) =
     (if from_stake (v_stake v) \<noteq> Some (v_tier v)
      then Inl (InvalidBlock ''validator has invalid stake/tier metadata'')
      else if v_address v \<in> set seen
      then Inl (InvalidBlock ''duplicate validator address in validator set'')
      else case checked_add tot (v_stake v) of
        None \<Rightarrow> Inl (InvalidBlock ''total validator stake exceeds u64::MAX'')
      | Some tot' \<Rightarrow> total_stake_loop (v_address v # seen) tot' vs)"

definition checked_validator_total_stake :: "validator list \<Rightarrow> consensus_error + u64" where
  "checked_validator_total_stake vs = total_stake_loop [] 0 vs"

section \<open>The validator set and its queries\<close>

definition validator_set_new :: "validator list \<Rightarrow> u64 \<Rightarrow> validator_set option" where
  "validator_set_new validators epoch =
     (case checked_validator_total_stake validators of
        Inl _ \<Rightarrow> None
      | Inr tot \<Rightarrow> Some
          \<lparr>vs_validators = validators, vs_total_stake = tot, vs_epoch = epoch,
           vs_quorum = strict_supermajority_threshold tot,
           vs_slashed_total = 0, vs_slash_history = []\<rparr>)"

definition get_validator :: "validator_set \<Rightarrow> address \<Rightarrow> validator option" where
  "get_validator vs a = List.find (\<lambda>v. v_address v = a) (vs_validators vs)"

definition is_validator :: "validator_set \<Rightarrow> address \<Rightarrow> bool" where
  "is_validator vs a \<longleftrightarrow> get_validator vs a \<noteq> None"

definition can_produce_blocks :: "validator_set \<Rightarrow> address \<Rightarrow> bool" where
  "can_produce_blocks vs a \<longleftrightarrow>
     (case get_validator vs a of None \<Rightarrow> False | Some v \<Rightarrow> tier_can_produce_blocks (v_tier v))"

definition fault_tolerance_stake :: "validator_set \<Rightarrow> u64" where
  "fault_tolerance_stake vs = saturating_sub (vs_total_stake vs) (vs_quorum vs)"

text \<open>\<open>filter(|a| seen.insert(a))\<close>: the first occurrence of every address.\<close>

fun first_occurrences :: "'a list \<Rightarrow> 'a list \<Rightarrow> 'a list" where
  "first_occurrences seen [] = []"
| "first_occurrences seen (a # as) =
     (if a \<in> set seen then first_occurrences seen as
      else a # first_occurrences (a # seen) as)"

fun try_sum :: "u64 \<Rightarrow> u64 list \<Rightarrow> u64 option" where
  "try_sum acc [] = Some acc"
| "try_sum acc (x # xs) =
     (case checked_add acc x of None \<Rightarrow> None | Some acc' \<Rightarrow> try_sum acc' xs)"

definition stake_for_addresses :: "validator_set \<Rightarrow> address list \<Rightarrow> u64 option" where
  "stake_for_addresses vs addresses =
     try_sum 0 (List.map_filter (\<lambda>a. map_option v_stake (get_validator vs a))
       (first_occurrences [] addresses))"

text \<open>The branch \<open>None\<close> is the \<open>expect\<close> of \<open>stake_for_addresses\<close>; on a valid set it is
  never taken (\<open>stake_for_addresses_total\<close>).\<close>

definition has_quorum :: "validator_set \<Rightarrow> address list \<Rightarrow> bool" where
  "has_quorum vs addresses \<longleftrightarrow>
     (case stake_for_addresses vs addresses of None \<Rightarrow> False | Some s \<Rightarrow> vs_quorum vs \<le> s)"

definition block_producers :: "validator_set \<Rightarrow> validator list" where
  "block_producers vs = filter (\<lambda>v. tier_can_produce_blocks (v_tier v)) (vs_validators vs)"

section \<open>Slashing\<close>

fun slash_rate :: "stake_tier \<Rightarrow> u64" where
  "slash_rate Spark = SLASH_RATE_SPARK"
| "slash_rate Arc = SLASH_RATE_ARC"
| "slash_rate Core = SLASH_RATE_CORE"

definition slash_amount_of :: "validator \<Rightarrow> u64" where
  "slash_amount_of v =
     ucast ((ucast (v_stake v) * ucast (slash_rate (v_tier v)) :: u128) div 100)"

definition report_offense ::
  "address \<Rightarrow> slashable_offense \<Rightarrow> hash256 \<Rightarrow> u64 \<Rightarrow> u64 \<Rightarrow> validator_set \<Rightarrow>
   consensus_error + (slash_record \<times> validator_set)" where
  "report_offense offender offense evidence round timestamp vs =
     and_then (ok_or (SlashError ''validator not found'')
       (List.find (\<lambda>v. v_address v = offender) (vs_validators vs))) (\<lambda>v.
     let slash_amount = slash_amount_of v in
     and_then (ok_or (SlashError ''cumulative slashed stake exceeds u64::MAX'')
       (checked_add (vs_slashed_total vs) slash_amount)) (\<lambda>new_slashed_total.
     let record = \<lparr>sr_offense = offense, sr_offender = offender, sr_evidence = evidence,
           sr_round = round, sr_timestamp = timestamp, sr_slash_amount = slash_amount\<rparr> in
     Inr (record, vs\<lparr>vs_slashed_total := new_slashed_total,
                     vs_slash_history := vs_slash_history vs @ [record]\<rparr>)))"

text \<open>The \<open>iter_mut().find\<close> write of \<open>apply_slash\<close>: the tier is recomputed only when the
  validator stays.\<close>

definition slash_validator :: "u64 \<Rightarrow> validator \<Rightarrow> validator" where
  "slash_validator slash_amount v =
     (let stake = saturating_sub (v_stake v) slash_amount in
      if stake < STAKE_SPARK then v\<lparr>v_stake := stake\<rparr>
      else v\<lparr>v_stake := stake,
             v_tier := (case from_stake stake of Some t \<Rightarrow> t | None \<Rightarrow> Spark)\<rparr>)"

definition recount :: "validator_set \<Rightarrow> validator list \<Rightarrow> validator_set option" where
  "recount vs validators =
     (case checked_validator_total_stake validators of
        Inl _ \<Rightarrow> None
      | Inr tot \<Rightarrow> Some (vs\<lparr>vs_validators := validators, vs_total_stake := tot,
          vs_quorum := strict_supermajority_threshold tot\<rparr>))"

definition apply_slash :: "address \<Rightarrow> u64 \<Rightarrow> validator_set \<Rightarrow> validator_set option" where
  "apply_slash offender slash_amount vs =
     (let removed = (case List.find (\<lambda>v. v_address v = offender) (vs_validators vs) of
            None \<Rightarrow> False
          | Some v \<Rightarrow> saturating_sub (v_stake v) slash_amount < STAKE_SPARK);
          slashed = update_first (\<lambda>v. v_address v = offender) (slash_validator slash_amount)
            (vs_validators vs);
          kept = (if removed then filter (\<lambda>v. v_address v \<noteq> offender) slashed else slashed)
      in recount vs kept)"

section \<open>Membership changes of the engine\<close>

text \<open>The fields of \<open>ConsensusEngine\<close> that hold membership; the engine's record extends this
  one.\<close>

record committee =
  ce_validator_set :: validator_set
  ce_frozen_validator_set :: validator_set
  ce_pending_validators :: "validator list"
  ce_validator_keys :: "(address, hash256) store"

definition register_validator_key ::
  "address \<Rightarrow> hash256 \<Rightarrow> 'z committee_scheme \<Rightarrow> 'z committee_scheme" where
  "register_validator_key a pubkey ce =
     ce\<lparr>ce_validator_keys := mput a pubkey (ce_validator_keys ce)\<rparr>"

definition queue_validator :: "validator \<Rightarrow> 'z committee_scheme \<Rightarrow> 'z committee_scheme" where
  "queue_validator v ce =
     (if \<exists>w \<in> set (ce_pending_validators ce). v_address w = v_address v then ce
      else ce\<lparr>ce_pending_validators := ce_pending_validators ce @ [v]\<rparr>)"

definition merge_pending :: "validator list \<Rightarrow> validator \<Rightarrow> validator list" where
  "merge_pending all pv =
     (if List.find (\<lambda>v. v_address v = v_address pv) all = None then all @ [pv]
      else update_first (\<lambda>v. v_address v = v_address pv) (\<lambda>_. pv) all)"

definition freeze_epoch :: "'z committee_scheme \<Rightarrow> 'z committee_scheme option" where
  "freeze_epoch ce =
     (let all = foldl merge_pending (vs_validators (ce_validator_set ce)) (ce_pending_validators ce)
      in case checked_add (vs_epoch (ce_validator_set ce)) 1 of
           None \<Rightarrow> None
         | Some new_epoch \<Rightarrow>
             (case validator_set_new all new_epoch of
                None \<Rightarrow> None
              | Some new_set \<Rightarrow> Some (ce\<lparr>ce_validator_set := new_set,
                  ce_frozen_validator_set := new_set, ce_pending_validators := []\<rparr>)))"

definition join_validator ::
  "address \<Rightarrow> u64 \<Rightarrow> hash256 \<Rightarrow> u16 \<Rightarrow> 'z committee_scheme \<Rightarrow>
   consensus_error + 'z committee_scheme" where
  "join_validator a stake pubkey shard ce =
     (let vs = ce_validator_set ce in
      and_then (guard (from_stake stake \<noteq> None)
        (InvalidBlock ''stake below minimum threshold'')) (\<lambda>_.
      and_then (guard (\<not> is_validator vs a)
        (InvalidBlock ''address already in validator set'')) (\<lambda>_.
      and_then (guard (length (vs_validators vs) < 100)
        (InvalidBlock ''validator set at capacity (100)'')) (\<lambda>_.
      and_then (ok_or (InvalidBlock ''invalid stake'') (validator_new a stake shard)) (\<lambda>v.
      and_then (ok_or (InvalidBlock ''total validator stake exceeds u64::MAX'')
        (checked_add (vs_total_stake vs) stake)) (\<lambda>new_total.
      Inr (register_validator_key a pubkey
        (ce\<lparr>ce_validator_set := vs\<lparr>vs_validators := vs_validators vs @ [v],
              vs_total_stake := new_total,
              vs_quorum := strict_supermajority_threshold new_total\<rparr>\<rparr>))))))))"

text \<open>\<open>leave_validator\<close> removes the validator before it recounts, so its second error leaves
  the shortened list behind.\<close>

definition leave_validator ::
  "address \<Rightarrow> 'z committee_scheme \<Rightarrow> (consensus_error + u64) \<times> 'z committee_scheme" where
  "leave_validator a ce =
     (let vs = ce_validator_set ce in
      case get_validator vs a of
        None \<Rightarrow> (Inl (InvalidBlock ''address not in validator set''), ce)
      | Some v \<Rightarrow>
          (let kept = filter (\<lambda>w. v_address w \<noteq> a) (vs_validators vs) in
           case checked_validator_total_stake kept of
             Inl e \<Rightarrow> (Inl e, ce\<lparr>ce_validator_set := vs\<lparr>vs_validators := kept\<rparr>\<rparr>)
           | Inr tot \<Rightarrow>
               (Inr (v_stake v),
                ce\<lparr>ce_validator_set := vs\<lparr>vs_validators := kept, vs_total_stake := tot,
                     vs_quorum := strict_supermajority_threshold tot\<rparr>,
                   ce_validator_keys := mdel a (ce_validator_keys ce)\<rparr>)))"

definition update_validator_stake ::
  "address \<Rightarrow> u64 \<Rightarrow> 'z committee_scheme \<Rightarrow> consensus_error + 'z committee_scheme" where
  "update_validator_stake a new_stake ce =
     (let vs = ce_validator_set ce in
      if from_stake new_stake = None
      then Inl (InvalidBlock ''new stake below minimum threshold'')
      else case List.find (\<lambda>v. v_address v = a) (vs_validators vs) of
        None \<Rightarrow> Inl (InvalidBlock ''address not in validator set'')
      | Some old \<Rightarrow>
          and_then (ok_or (InvalidBlock ''total validator stake exceeds u64::MAX'')
            (case checked_sub (vs_total_stake vs) (v_stake old) of
               None \<Rightarrow> None | Some remaining \<Rightarrow> checked_add remaining new_stake)) (\<lambda>new_total.
          Inr (ce\<lparr>ce_validator_set := vs\<lparr>vs_validators := update_first (\<lambda>v. v_address v = a)
                 (\<lambda>v. v\<lparr>v_stake := new_stake,
                        v_tier := (case from_stake new_stake of Some t \<Rightarrow> t | None \<Rightarrow> Spark)\<rparr>)
                 (vs_validators vs),
               vs_total_stake := new_total,
               vs_quorum := strict_supermajority_threshold new_total\<rparr>\<rparr>)))"

definition epoch_transition :: "'z committee_scheme \<Rightarrow> (u64 \<times> 'z committee_scheme) option" where
  "epoch_transition ce =
     (let vs = (ce_validator_set ce)\<lparr>vs_epoch := vs_epoch (ce_validator_set ce) + 1\<rparr> in
      case recount vs (vs_validators vs) of
        None \<Rightarrow> None
      | Some vs' \<Rightarrow> Some (vs_epoch vs', ce\<lparr>ce_validator_set := vs'\<rparr>))"

definition update_validator_set ::
  "validator_set \<Rightarrow> 'z committee_scheme \<Rightarrow> consensus_error + 'z committee_scheme" where
  "update_validator_set new_set ce =
     and_then (checked_validator_total_stake (vs_validators new_set)) (\<lambda>canonical_total.
     and_then (guard (vs_total_stake new_set = canonical_total \<and>
                      vs_quorum new_set = strict_supermajority_threshold canonical_total)
       (InvalidBlock ''validator set has non-canonical total stake or quorum'')) (\<lambda>_.
     Inr (ce\<lparr>ce_validator_set := new_set\<rparr>)))"

definition enforce_slash ::
  "address \<Rightarrow> u64 \<Rightarrow> 'z committee_scheme \<Rightarrow> (bool \<times> 'z committee_scheme) option" where
  "enforce_slash offender amount ce =
     (let vs = ce_validator_set ce in
      if get_validator vs offender = None then Some (False, ce)
      else case apply_slash offender amount vs of
        None \<Rightarrow> None
      | Some vs' \<Rightarrow> Some (get_validator vs' offender = None, ce\<lparr>ce_validator_set := vs'\<rparr>))"

section \<open>Validity of a set\<close>

text \<open>A set is valid when its cached total and quorum are the canonical ones of its validators.\<close>

definition valid_set :: "validator_set \<Rightarrow> bool" where
  "valid_set vs \<longleftrightarrow>
     checked_validator_total_stake (vs_validators vs) = Inr (vs_total_stake vs) \<and>
     vs_quorum vs = strict_supermajority_threshold (vs_total_stake vs)"

definition tier_ok :: "validator \<Rightarrow> bool" where
  "tier_ok v \<longleftrightarrow> from_stake (v_stake v) = Some (v_tier v)"

definition set_power :: "validator list \<Rightarrow> nat" where
  "set_power vs = (\<Sum>v\<leftarrow>vs. unat (v_stake v))"

definition weight :: "validator_set \<Rightarrow> address \<Rightarrow> nat" where
  "weight vs a = (case get_validator vs a of None \<Rightarrow> 0 | Some v \<Rightarrow> unat (v_stake v))"

definition members :: "validator_set \<Rightarrow> address set" where
  "members vs = v_address ` set (vs_validators vs)"

lemma total_stake_loop_iff:
  "total_stake_loop seen acc vs = Inr t \<longleftrightarrow>
     (\<forall>v \<in> set vs. tier_ok v) \<and> distinct (map v_address vs) \<and>
     set seen \<inter> v_address ` set vs = {} \<and> unat t = unat acc + set_power vs"
proof (induction seen acc vs rule: total_stake_loop.induct)
  case (1 seen acc)
  then show ?case by (auto simp: set_power_def word_unat_eq_iff)
next
  case (2 seen acc v vs)
  show ?case
  proof (cases "checked_add acc (v_stake v)")
    case None
    then have "2 ^ 64 \<le> unat acc + unat (v_stake v)" by (simp add: result_simps)
    moreover have "unat t < 2 ^ 64" by (rule unat_less_64)
    ultimately have "unat t \<noteq> unat acc + set_power (v # vs)" by (simp add: set_power_def)
    then show ?thesis using None by auto
  next
    case (Some acc')
    then have "unat acc' = unat acc + unat (v_stake v)" by (simp add: result_simps)
    then show ?thesis using 2 Some by (auto simp: tier_ok_def set_power_def)
  qed
qed

lemma checked_total_iff:
  "checked_validator_total_stake vs = Inr t \<longleftrightarrow>
     (\<forall>v \<in> set vs. tier_ok v) \<and> distinct (map v_address vs) \<and> unat t = set_power vs"
  by (simp add: checked_validator_total_stake_def total_stake_loop_iff)

lemma checked_total_exists:
  "(\<exists>t. checked_validator_total_stake vs = Inr t) \<longleftrightarrow>
     (\<forall>v \<in> set vs. tier_ok v) \<and> distinct (map v_address vs) \<and> set_power vs < 2 ^ 64"
proof
  assume "\<exists>t. checked_validator_total_stake vs = Inr t"
  then obtain t where t: "checked_validator_total_stake vs = Inr t" ..
  moreover have "unat t < 2 ^ 64" by (rule unat_less_64)
  ultimately show "(\<forall>v \<in> set vs. tier_ok v) \<and> distinct (map v_address vs) \<and> set_power vs < 2 ^ 64"
    by (auto simp: checked_total_iff)
next
  assume *: "(\<forall>v \<in> set vs. tier_ok v) \<and> distinct (map v_address vs) \<and> set_power vs < 2 ^ 64"
  then obtain t :: u64 where "unat t = set_power vs" 
    using unat_surj [of "set_power vs", where 'a = 64] by auto
  then show "\<exists>t. checked_validator_total_stake vs = Inr t" using * by (auto simp: checked_total_iff)
qed

lemma valid_set_iff:
  "valid_set vs \<longleftrightarrow>
     (\<forall>v \<in> set (vs_validators vs). tier_ok v) \<and> distinct (map v_address (vs_validators vs)) \<and>
     unat (vs_total_stake vs) = set_power (vs_validators vs) \<and>
     vs_quorum vs = strict_supermajority_threshold (vs_total_stake vs)"
  by (auto simp: valid_set_def checked_total_iff)

text \<open>Unsigned words below a sum need no wrap, so the threshold is the natural-number formula.\<close>

lemma unat_threshold:
  "unat (strict_supermajority_threshold t) = (if t = 0 then 1 else unat t - (unat t - 1) div 3)"
proof (cases "t = 0")
  case False
  then have pos: "0 < unat t" by (simp add: unat_gt_0)
  then have one: "(1 :: u64) \<le> t" by (simp add: word_le_nat_alt)
  have quot: "unat ((t - 1) div 3) = (unat t - 1) div 3"
    using one by (simp add: unat_div unat_sub)
  then have "(t - 1) div 3 \<le> t" by (simp add: word_le_nat_alt)
  then show ?thesis using False quot by (simp add: strict_supermajority_threshold_def unat_sub)
qed (simp add: strict_supermajority_threshold_def)

lemma threshold_two_thirds: "2 * unat t < 3 * unat (strict_supermajority_threshold t)"
proof (cases "t = 0")
  case False
  then have "0 < unat t" by (simp add: unat_gt_0)
  then show ?thesis using False unat_threshold [of t] by simp
qed (simp add: unat_threshold)

lemma threshold_minimal:
  assumes "t \<noteq> 0" and "2 * unat t < 3 * n"
  shows "unat (strict_supermajority_threshold t) \<le> n"
  using assms by (simp add: unat_threshold)

lemma threshold_le: "t \<noteq> 0 \<Longrightarrow> unat (strict_supermajority_threshold t) \<le> unat t"
  by (simp add: unat_threshold)

lemma get_validator_Some_iff:
  assumes "distinct (map v_address (vs_validators vs))"
  shows "get_validator vs a = Some v \<longleftrightarrow> v \<in> set (vs_validators vs) \<and> v_address v = a"
proof
  assume "get_validator vs a = Some v"
  then show "v \<in> set (vs_validators vs) \<and> v_address v = a"
    by (auto simp: get_validator_def dest: find_Some_in)
next
  assume *: "v \<in> set (vs_validators vs) \<and> v_address v = a"
  then obtain w where w: "get_validator vs a = Some w"
    by (cases "get_validator vs a") (auto simp: get_validator_def find_None_notin)
  then have "w \<in> set (vs_validators vs) \<and> v_address w = a"
    by (auto simp: get_validator_def dest: find_Some_in)
  then show "get_validator vs a = Some v"
    using w * assms by (auto simp: distinct_map inj_on_def)
qed

lemma is_validator_iff: "is_validator vs a \<longleftrightarrow> a \<in> members vs"
  by (auto simp: is_validator_def get_validator_def members_def find_None_notin)

lemma weight_nonmember: "a \<notin> members vs \<Longrightarrow> weight vs a = 0"
  using is_validator_iff [of vs a] by (simp add: weight_def is_validator_def)

lemma finite_members [simp]: "finite (members vs)"
  by (simp add: members_def)

lemma weight_member:
  "distinct (map v_address (vs_validators vs)) \<Longrightarrow> v \<in> set (vs_validators vs) \<Longrightarrow>
   weight vs (v_address v) = unat (v_stake v)"
  using get_validator_Some_iff [of vs "v_address v" v] by (simp add: weight_def)

lemma sum_weight_members:
  assumes "distinct (map v_address (vs_validators vs))"
  shows "(\<Sum>a \<in> members vs. weight vs a) = set_power (vs_validators vs)"
proof -
  have inj: "inj_on v_address (set (vs_validators vs))" and dist: "distinct (vs_validators vs)"
    using assms by (simp_all add: distinct_map)
  have "(\<Sum>a \<in> members vs. weight vs a) = (\<Sum>v \<in> set (vs_validators vs). weight vs (v_address v))"
    using inj by (simp add: members_def sum.reindex)
  also have "\<dots> = (\<Sum>v \<in> set (vs_validators vs). unat (v_stake v))"
    using weight_member [OF assms] by simp
  also have "\<dots> = set_power (vs_validators vs)"
    using dist by (simp add: set_power_def sum_list_distinct_conv_sum_set)
  finally show ?thesis .
qed

lemma sum_weight_le:
  assumes "distinct (map v_address (vs_validators vs))" and "finite A"
  shows "(\<Sum>a \<in> A. weight vs a) \<le> set_power (vs_validators vs)"
proof -
  have "(\<Sum>a \<in> A. weight vs a) = (\<Sum>a \<in> A \<inter> members vs. weight vs a)"
    using assms(2) by (intro sum.mono_neutral_right) (auto simp: weight_nonmember)
  also have "\<dots> \<le> (\<Sum>a \<in> members vs. weight vs a)"
    by (rule sum_mono2) auto
  finally show ?thesis using sum_weight_members [OF assms(1)] by simp
qed

lemma set_first_occurrences: "set (first_occurrences seen as) = set as - set seen"
  by (induction seen as rule: first_occurrences.induct) auto

lemma distinct_first_occurrences: "distinct (first_occurrences seen as)"
  by (induction seen as rule: first_occurrences.induct) (auto simp: set_first_occurrences)

lemma try_sum_iff: "try_sum acc xs = Some t \<longleftrightarrow> unat t = unat acc + (\<Sum>x\<leftarrow>xs. unat x)"
proof (induction acc xs rule: try_sum.induct)
  case (1 acc)
  then show ?case by (auto simp: word_unat_eq_iff)
next
  case (2 acc x xs)
  show ?case
  proof (cases "checked_add acc x")
    case None
    then have "2 ^ 64 \<le> unat acc + unat x" by (simp add: result_simps)
    moreover have "unat t < 2 ^ 64" by (rule unat_less_64)
    ultimately show ?thesis using None by simp
  next
    case (Some acc')
    then have "unat acc' = unat acc + unat x" by (simp add: result_simps)
    then show ?thesis using 2 Some by (simp add: add.assoc)
  qed
qed

lemma sum_list_map_filter_weight:
  "(\<Sum>x\<leftarrow>List.map_filter (\<lambda>a. map_option v_stake (get_validator vs a)) as. unat x) =
   (\<Sum>a\<leftarrow>as. weight vs a)"
  by (induction as) (auto simp: map_filter_simps weight_def split: option.splits)

lemma stake_for_addresses_iff:
  "stake_for_addresses vs as = Some t \<longleftrightarrow> unat t = (\<Sum>a \<in> set as. weight vs a)"
  using distinct_first_occurrences [of "[]" as]
  by (simp add: stake_for_addresses_def try_sum_iff sum_list_map_filter_weight
      sum_list_distinct_conv_sum_set set_first_occurrences)

lemma stake_for_addresses_Some:
  assumes "valid_set vs"
  shows "\<exists>t. stake_for_addresses vs as = Some t \<and> unat t = (\<Sum>a \<in> set as. weight vs a) \<and>
    t \<le> vs_total_stake vs"
proof -
  have bound: "(\<Sum>a \<in> set as. weight vs a) \<le> unat (vs_total_stake vs)"
    using assms sum_weight_le [of vs "set as"] by (simp add: valid_set_iff)
  then have "(\<Sum>a \<in> set as. weight vs a) < 2 ^ LENGTH(64)"
    using unat_less_64 [of "vs_total_stake vs"] by simp
  then obtain t :: u64 where "unat t = (\<Sum>a \<in> set as. weight vs a)" using unat_surj by blast
  then show ?thesis using bound by (auto simp: stake_for_addresses_iff word_le_nat_alt)
qed

lemma has_quorum_iff:
  assumes "valid_set vs"
  shows "has_quorum vs as \<longleftrightarrow> unat (vs_quorum vs) \<le> (\<Sum>a \<in> set as. weight vs a)"
proof -
  obtain t where "stake_for_addresses vs as = Some t" "unat t = (\<Sum>a \<in> set as. weight vs a)"
    using stake_for_addresses_Some [OF assms] by blast
  then show ?thesis by (simp add: has_quorum_def word_le_nat_alt)
qed

section \<open>Quorum systems\<close>

text \<open>
  What the rest of consensus uses of a validator set: weights, and a threshold above two thirds of
  the total weight. Any two quorums then share more weight than a third of the total, so they share
  a member outside every set of tolerated faults.
\<close>

locale weighted_quorum =
  fixes ok :: "'s \<Rightarrow> bool"
    and mem :: "'s \<Rightarrow> 'a set"
    and w :: "'s \<Rightarrow> 'a \<Rightarrow> nat"
    and thr :: "'s \<Rightarrow> nat"
  assumes fin: "ok s \<Longrightarrow> finite (mem s)"
    and outside: "ok s \<Longrightarrow> a \<notin> mem s \<Longrightarrow> w s a = 0"
    and two_thirds: "ok s \<Longrightarrow> 2 * sum (w s) (mem s) < 3 * thr s"
begin

lemma sum_inter_mem: "ok s \<Longrightarrow> finite A \<Longrightarrow> sum (w s) (A \<inter> mem s) = sum (w s) A"
  by (rule sum.mono_neutral_left) (auto simp: outside)

lemma overlap:
  assumes "ok s" and "finite A" and "finite B"
    and "thr s \<le> sum (w s) A" and "thr s \<le> sum (w s) B"
  shows "2 * thr s \<le> sum (w s) (mem s) + sum (w s) (A \<inter> B \<inter> mem s)"
proof -
  let ?A = "A \<inter> mem s" and ?B = "B \<inter> mem s"
  have "sum (w s) ?A + sum (w s) ?B = sum (w s) (?A \<union> ?B) + sum (w s) (?A \<inter> ?B)"
    using assms(2,3) by (intro sum.union_inter [symmetric]) auto
  moreover have "sum (w s) (?A \<union> ?B) \<le> sum (w s) (mem s)"
    using fin [OF assms(1)] by (intro sum_mono2) auto
  moreover have "?A \<inter> ?B = A \<inter> B \<inter> mem s" by auto
  ultimately show ?thesis
    using assms sum_inter_mem [OF assms(1,2)] sum_inter_mem [OF assms(1,3)] by simp
qed

lemma shared_member:
  assumes "ok s" and "finite A" and "finite B" and "finite F"
    and "thr s \<le> sum (w s) A" and "thr s \<le> sum (w s) B"
    and "sum (w s) F \<le> sum (w s) (mem s) - thr s"
  shows "\<exists>a \<in> A \<inter> B \<inter> mem s. a \<notin> F"
proof (rule ccontr)
  assume "\<not> ?thesis"
  then have sub: "A \<inter> B \<inter> mem s \<subseteq> F" by blast
  have "sum (w s) (A \<inter> B \<inter> mem s) \<le> sum (w s) F"
    using sub assms(4) by (intro sum_mono2) auto
  then show False
    using overlap [OF assms(1-3,5,6)] two_thirds [OF assms(1)] assms(7) by linarith
qed

lemma quorum_with_member:
  assumes "ok s" and "finite A" and "finite B"
    and "thr s \<le> sum (w s) A" and "sum (w s) (mem s) - thr s < sum (w s) B"
  shows "A \<inter> B \<inter> mem s \<noteq> {}"
proof
  assume *: "A \<inter> B \<inter> mem s = {}"
  let ?A = "A \<inter> mem s" and ?B = "B \<inter> mem s"
  have "sum (w s) ?A + sum (w s) ?B = sum (w s) (?A \<union> ?B)"
    using * assms(2,3) by (intro sum.union_disjoint [symmetric]) auto
  moreover have "sum (w s) (?A \<union> ?B) \<le> sum (w s) (mem s)"
    using fin [OF assms(1)] by (intro sum_mono2) auto
  ultimately show False
    using assms sum_inter_mem [OF assms(1,2)] sum_inter_mem [OF assms(1,3)] by simp
qed

end

interpretation stake: weighted_quorum valid_set members weight "\<lambda>vs. unat (vs_quorum vs)"
proof
  fix vs
  assume "valid_set vs"
  then show "2 * sum (weight vs) (members vs) < 3 * unat (vs_quorum vs)"
    using threshold_two_thirds [of "vs_total_stake vs"] sum_weight_members [of vs]
    by (simp add: valid_set_iff)
qed (auto simp: weight_nonmember)

lemma unat_fault_tolerance_stake:
  assumes "valid_set vs"
  shows "unat (fault_tolerance_stake vs) = sum (weight vs) (members vs) - unat (vs_quorum vs)"
  using assms sum_weight_members [of vs]
  by (simp add: valid_set_iff fault_tolerance_stake_def unat_saturating_sub)

lemma quorum_overlap:
  assumes "valid_set vs" and "has_quorum vs as" and "has_quorum vs bs"
    and "finite F" and "sum (weight vs) F \<le> unat (fault_tolerance_stake vs)"
  shows "\<exists>a \<in> set as \<inter> set bs \<inter> members vs. a \<notin> F"
  using assms stake.shared_member [of vs "set as" "set bs" F]
  by (simp add: has_quorum_iff unat_fault_tolerance_stake)

lemma quorum_meets_heavy:
  assumes "valid_set vs" and "has_quorum vs as"
    and "finite B" and "unat (fault_tolerance_stake vs) < sum (weight vs) B"
  shows "set as \<inter> B \<inter> members vs \<noteq> {}"
  using assms stake.quorum_with_member [of vs "set as" B]
  by (simp add: has_quorum_iff unat_fault_tolerance_stake)

lemma quorum_nonempty: "valid_set vs \<Longrightarrow> has_quorum vs as \<Longrightarrow> set as \<inter> members vs \<noteq> {}"
  using quorum_overlap [of vs as as "{}"] by auto

section \<open>Membership changes keep the set valid\<close>

lemma set_power_Nil [simp]: "set_power [] = 0"
  by (simp add: set_power_def)

lemma set_power_append [simp]: "set_power (xs @ ys) = set_power xs + set_power ys"
  by (simp add: set_power_def)

lemma set_power_Cons [simp]: "set_power (v # vs) = unat (v_stake v) + set_power vs"
  by (simp add: set_power_def)

lemma set_power_filter_le: "set_power (filter P vs) \<le> set_power vs"
  by (induction vs) (auto simp: set_power_def)

lemma recount_Some_iff:
  "recount vs l = Some vs' \<longleftrightarrow>
     (\<exists>t. checked_validator_total_stake l = Inr t \<and>
        vs' = vs\<lparr>vs_validators := l, vs_total_stake := t,
                 vs_quorum := strict_supermajority_threshold t\<rparr>)"
  by (auto simp: recount_def split: sum.splits)

lemma recount_valid: "recount vs l = Some vs' \<Longrightarrow> valid_set vs' \<and> vs_validators vs' = l"
  by (auto simp: recount_Some_iff valid_set_def)

lemma recount_exists:
  assumes "\<forall>v \<in> set l. tier_ok v" and "distinct (map v_address l)"
    and "set_power l \<le> unat (t :: u64)"
  shows "\<exists>vs'. recount vs l = Some vs'"
  using assms checked_total_exists [of l] unat_less_64 [of t] by (auto simp: recount_Some_iff)

lemma validator_set_new_valid:
  "validator_set_new l e = Some vs \<Longrightarrow> valid_set vs \<and> vs_validators vs = l \<and> vs_epoch vs = e"
  by (auto simp: validator_set_new_def valid_set_def split: sum.splits)

lemma map_address_update_first:
  assumes "\<And>v. v_address (f v) = v_address v"
  shows "map v_address (update_first p f l) = map v_address l"
  using assms by (induction l) auto

lemma set_update_first_subset: "set (update_first p f l) \<subseteq> set l \<union> f ` {v \<in> set l. p v}"
  by (induction l) auto

lemma from_stake_None_iff: "from_stake s = None \<longleftrightarrow> s < STAKE_SPARK"
  by (auto simp: from_stake_def STAKE_CORE_def STAKE_ARC_def STAKE_SPARK_def word_le_nat_alt
      word_less_nat_alt)

lemma slash_validator_address [simp]: "v_address (slash_validator n v) = v_address v"
  by (simp add: slash_validator_def Let_def)

lemma slash_validator_stake: "v_stake (slash_validator n v) = saturating_sub (v_stake v) n"
  by (simp add: slash_validator_def Let_def)

lemma slash_validator_tier_ok:
  "\<not> saturating_sub (v_stake v) n < STAKE_SPARK \<Longrightarrow> tier_ok (slash_validator n v)"
  using from_stake_None_iff [of "saturating_sub (v_stake v) n"]
  by (auto simp: slash_validator_def Let_def tier_ok_def split: option.splits)

lemma set_power_slash_le: "set_power (update_first p (slash_validator n) l) \<le> set_power l"
  by (induction l) (auto simp: slash_validator_stake unat_saturating_sub)

text \<open>The list \<open>apply_slash\<close> recounts, as a function of the offender's position.\<close>

lemma slashed_list_cases:
  assumes "distinct (map v_address l)"
    and "List.find (\<lambda>v. v_address v = a) l = Some v"
  obtains us ws where "l = us @ v # ws" "v_address v = a"
    "update_first (\<lambda>v. v_address v = a) f l = us @ f v # ws"
    "\<forall>x \<in> set us \<union> set ws. v_address x \<noteq> a"
proof -
  obtain us ws where *: "l = us @ v # ws" "\<forall>u \<in> set us. v_address u \<noteq> a" "v_address v = a"
    "update_first (\<lambda>v. v_address v = a) f l = us @ f v # ws"
    using update_first_split [OF assms(2), of f] by blast
  have "v_address v \<notin> v_address ` set ws" using assms(1) unfolding *(1) by simp
  then have "\<forall>x \<in> set us \<union> set ws. v_address x \<noteq> a" using *(2,3) by (metis UnE imageI)
  then show thesis using *(1,3,4) that by blast
qed

text \<open>
  Slashing a member reduces its weight by exactly the amount, or removes it when the rest is below
  the Spark minimum; nobody else's weight changes, and the recount never fails.
\<close>

lemma find_stake_eq_filter:
  assumes "distinct (map v_address l)"
  shows "(case List.find (\<lambda>v. v_address v = a) l of None \<Rightarrow> 0 | Some v \<Rightarrow> unat (v_stake v)) =
    set_power (filter (\<lambda>v. v_address v = a) l)"
  using assms
proof (induction l)
  case (Cons v l)
  have "v_address v \<notin> v_address ` set l" using Cons.prems by simp
  then have "filter (\<lambda>x. v_address x = a) l = []" if "v_address v = a"
    using that unfolding filter_empty_conv by (metis imageI)
  then show ?case using Cons by simp
qed simp

lemma weight_eq_from_list:
  assumes "distinct (map v_address (vs_validators vs))"
  shows "weight vs a = set_power (filter (\<lambda>v. v_address v = a) (vs_validators vs))"
  using find_stake_eq_filter [OF assms] by (simp add: weight_def get_validator_def)

lemma filter_none: "\<forall>x \<in> set xs. \<not> P x \<Longrightarrow> filter P xs = []"
  by simp

lemma apply_slash_member:
  assumes "valid_set vs" and "get_validator vs a = Some v"
  shows "\<exists>vs'. apply_slash a n vs = Some vs' \<and> valid_set vs' \<and>
    (\<forall>b. weight vs' b = (if b = a then
       (if unat (v_stake v) - unat n < unat STAKE_SPARK then 0 else unat (v_stake v) - unat n)
       else weight vs b))"
proof -
  let ?l = "vs_validators vs"
  let ?removed = "saturating_sub (v_stake v) n < STAKE_SPARK"
  have dist: "distinct (map v_address ?l)" and tiers: "\<forall>v \<in> set ?l. tier_ok v"
    and tot: "set_power ?l = unat (vs_total_stake vs)"
    using assms(1) by (auto simp: valid_set_iff)
  have found: "List.find (\<lambda>v. v_address v = a) ?l = Some v"
    using assms(2) by (simp add: get_validator_def)
  obtain us ws where l: "?l = us @ v # ws" and va: "v_address v = a"
    and upd: "update_first (\<lambda>v. v_address v = a) (slash_validator n) ?l =
      us @ slash_validator n v # ws"
    and others: "\<forall>x \<in> set us \<union> set ws. v_address x \<noteq> a"
    using slashed_list_cases [OF dist found] by blast
  define kept where "kept = (if ?removed then us @ ws else us @ slash_validator n v # ws)"
  have flt: "filter (\<lambda>v. v_address v \<noteq> a) us = us" "filter (\<lambda>v. v_address v \<noteq> a) ws = ws"
    using others by simp_all
  then have eq: "apply_slash a n vs = recount vs kept"
    using va by (simp add: apply_slash_def found upd kept_def)
  have tiers': "\<forall>v \<in> set kept. tier_ok v"
    using tiers l by (auto simp: kept_def slash_validator_tier_ok)
  have dist': "distinct (map v_address kept)"
    using dist l by (auto simp: kept_def)
  have "set_power kept \<le> set_power ?l"
    by (simp add: l kept_def slash_validator_stake unat_saturating_sub)
  then obtain vs' where vs': "recount vs kept = Some vs'"
    using recount_exists [OF tiers' dist'] tot by auto
  then have val: "valid_set vs'" and kept: "vs_validators vs' = kept"
    by (auto dest: recount_valid)
  have "weight vs' b = (if b = a then
       (if unat (v_stake v) - unat n < unat STAKE_SPARK then 0 else unat (v_stake v) - unat n)
       else weight vs b)" for b
    using weight_eq_from_list [of vs' b] weight_eq_from_list [of vs b] dist dist' kept l va others
    by (auto simp: kept_def slash_validator_stake unat_saturating_sub word_less_nat_alt
        filter_none split: if_splits)
  then show ?thesis using eq vs' val by auto
qed

lemma apply_slash_absent:
  assumes "valid_set vs" and "get_validator vs a = None"
  shows "apply_slash a n vs = Some vs"
  using assms
  by (simp add: apply_slash_def get_validator_def update_first_none recount_def valid_set_def)

lemma join_valid:
  assumes "valid_set (ce_validator_set ce)" and "join_validator a s k sh ce = Inr ce'"
  shows "valid_set (ce_validator_set ce')"
proof -
  let ?vs = "ce_validator_set ce"
  obtain v t where v: "validator_new a s sh = Some v" and t: "checked_add (vs_total_stake ?vs) s = Some t"
    and new: "a \<notin> members ?vs"
    and ce': "ce_validator_set ce' = ?vs\<lparr>vs_validators := vs_validators ?vs @ [v],
      vs_total_stake := t, vs_quorum := strict_supermajority_threshold t\<rparr>"
    using assms(2)
    by (auto simp: join_validator_def Let_def result_simps register_validator_key_def is_validator_iff)
  have "v_address v = a" "v_stake v = s" "tier_ok v"
    using v by (auto simp: validator_new_def tier_ok_def split: option.splits)
  then show ?thesis
    using assms(1) t new ce' by (auto simp: valid_set_iff result_simps members_def)
qed

lemma leave_valid:
  assumes "valid_set (ce_validator_set ce)"
  shows "valid_set (ce_validator_set (snd (leave_validator a ce)))"
    and "fst (leave_validator a ce) =
      (case get_validator (ce_validator_set ce) a of
         None \<Rightarrow> Inl (InvalidBlock ''address not in validator set'')
       | Some v \<Rightarrow> Inr (v_stake v))"
proof -
  let ?vs = "ce_validator_set ce"
  let ?kept = "filter (\<lambda>w. v_address w \<noteq> a) (vs_validators ?vs)"
  have "distinct (map v_address ?kept)" "\<forall>v \<in> set ?kept. tier_ok v"
    using assms by (auto simp: valid_set_iff distinct_map inj_on_def)
  moreover have "set_power ?kept < 2 ^ 64"
    using set_power_filter_le [of "\<lambda>w. v_address w \<noteq> a" "vs_validators ?vs"] assms
      unat_less_64 [of "vs_total_stake ?vs"] by (simp add: valid_set_iff)
  ultimately obtain t where "checked_validator_total_stake ?kept = Inr t"
    using checked_total_exists [of ?kept] by blast
  then show "valid_set (ce_validator_set (snd (leave_validator a ce)))"
    and "fst (leave_validator a ce) =
      (case get_validator (ce_validator_set ce) a of
         None \<Rightarrow> Inl (InvalidBlock ''address not in validator set'')
       | Some v \<Rightarrow> Inr (v_stake v))"
    using assms by (auto simp: leave_validator_def Let_def valid_set_def split: option.splits)
qed

lemma update_stake_valid:
  assumes "valid_set (ce_validator_set ce)" and "update_validator_stake a s ce = Inr ce'"
  shows "valid_set (ce_validator_set ce')"
proof -
  let ?vs = "ce_validator_set ce"
  let ?f = "\<lambda>v. v\<lparr>v_stake := s, v_tier := (case from_stake s of Some t \<Rightarrow> t | None \<Rightarrow> Spark)\<rparr>"
  obtain old r t where some: "from_stake s \<noteq> None"
    and old: "List.find (\<lambda>v. v_address v = a) (vs_validators ?vs) = Some old"
    and r: "checked_sub (vs_total_stake ?vs) (v_stake old) = Some r"
    and t: "checked_add r s = Some t"
    and ce': "ce_validator_set ce' = ?vs\<lparr>vs_validators := update_first (\<lambda>v. v_address v = a) ?f
        (vs_validators ?vs), vs_total_stake := t, vs_quorum := strict_supermajority_threshold t\<rparr>"
    using assms(2)
    by (auto simp: update_validator_stake_def Let_def result_simps split: option.splits if_splits)
  have dist: "distinct (map v_address (vs_validators ?vs))" using assms(1) by (simp add: valid_set_iff)
  obtain us ws where l: "vs_validators ?vs = us @ old # ws"
    and upd: "update_first (\<lambda>v. v_address v = a) ?f (vs_validators ?vs) = us @ ?f old # ws"
    using slashed_list_cases [OF dist old, of ?f] by blast
  have "tier_ok (?f old)" using some by (auto simp: tier_ok_def)
  then show ?thesis
    using assms(1) r t l unfolding ce' upd by (auto simp: valid_set_iff result_simps)
qed

lemma epoch_transition_valid:
  assumes "valid_set (ce_validator_set ce)"
  shows "\<exists>ce'. epoch_transition ce = Some (vs_epoch (ce_validator_set ce) + 1, ce') \<and>
    ce' = ce\<lparr>ce_validator_set := (ce_validator_set ce)
      \<lparr>vs_epoch := vs_epoch (ce_validator_set ce) + 1\<rparr>\<rparr> \<and>
    valid_set (ce_validator_set ce')"
  using assms by (simp add: epoch_transition_def recount_def valid_set_def)

lemma freeze_epoch_valid:
  "freeze_epoch ce = Some ce' \<Longrightarrow>
   valid_set (ce_validator_set ce') \<and> ce_frozen_validator_set ce' = ce_validator_set ce' \<and>
   ce_pending_validators ce' = [] \<and>
   unat (vs_epoch (ce_validator_set ce')) = Suc (unat (vs_epoch (ce_validator_set ce)))"
  by (auto simp: freeze_epoch_def Let_def result_simps dest: validator_set_new_valid
      split: option.splits)

lemma update_validator_set_valid:
  "update_validator_set ns ce = Inr ce' \<Longrightarrow> valid_set (ce_validator_set ce')"
  by (auto simp: update_validator_set_def result_simps valid_set_def)

lemma enforce_slash_valid:
  assumes "valid_set (ce_validator_set ce)"
  shows "\<exists>b ce'. enforce_slash a n ce = Some (b, ce') \<and> valid_set (ce_validator_set ce') \<and>
    ce_frozen_validator_set ce' = ce_frozen_validator_set ce"
proof (cases "get_validator (ce_validator_set ce) a")
  case None
  then show ?thesis using assms by (auto simp: enforce_slash_def)
next
  case (Some v)
  then obtain vs' where "apply_slash a n (ce_validator_set ce) = Some vs'" "valid_set vs'"
    using apply_slash_member [OF assms Some] by blast
  then show ?thesis using Some by (simp add: enforce_slash_def)
qed

section \<open>The membership machine\<close>

text \<open>Every public membership operation as a call; a refused or panicking call leaves the
  committee as the code leaves it (a panic unwinds before the write).\<close>

datatype committee_call =
    Join address u64 hash256 u16
  | Leave address
  | Update_Stake address u64
  | Queue validator
  | Freeze
  | Epoch
  | Update_Set validator_set
  | Slash address u64

fun committee_step :: "committee \<Rightarrow> committee_call \<Rightarrow> committee" where
  "committee_step ce (Join a s k sh) =
     (case join_validator a s k sh ce of Inl _ \<Rightarrow> ce | Inr ce' \<Rightarrow> ce')"
| "committee_step ce (Leave a) = snd (leave_validator a ce)"
| "committee_step ce (Update_Stake a s) =
     (case update_validator_stake a s ce of Inl _ \<Rightarrow> ce | Inr ce' \<Rightarrow> ce')"
| "committee_step ce (Queue v) = queue_validator v ce"
| "committee_step ce Freeze = (case freeze_epoch ce of None \<Rightarrow> ce | Some ce' \<Rightarrow> ce')"
| "committee_step ce Epoch = (case epoch_transition ce of None \<Rightarrow> ce | Some (_, ce') \<Rightarrow> ce')"
| "committee_step ce (Update_Set ns) =
     (case update_validator_set ns ce of Inl _ \<Rightarrow> ce | Inr ce' \<Rightarrow> ce')"
| "committee_step ce (Slash a n) =
     (case enforce_slash a n ce of None \<Rightarrow> ce | Some (_, ce') \<Rightarrow> ce')"

definition committee_ok :: "committee \<Rightarrow> bool" where
  "committee_ok ce \<longleftrightarrow> valid_set (ce_validator_set ce) \<and> valid_set (ce_frozen_validator_set ce)"

lemmas membership_frames =
  join_validator_def leave_validator_def update_validator_stake_def queue_validator_def
  epoch_transition_def update_validator_set_def register_validator_key_def

lemma frozen_unchanged:
  "join_validator a s k sh ce = Inr ce1 \<Longrightarrow> ce_frozen_validator_set ce1 = ce_frozen_validator_set ce"
  "ce_frozen_validator_set (snd (leave_validator a ce)) = ce_frozen_validator_set ce"
  "update_validator_stake a s ce = Inr ce1 \<Longrightarrow>
     ce_frozen_validator_set ce1 = ce_frozen_validator_set ce"
  "ce_frozen_validator_set (queue_validator v ce) = ce_frozen_validator_set ce"
  "ce_validator_set (queue_validator v ce) = ce_validator_set ce"
  "update_validator_set ns ce = Inr ce1 \<Longrightarrow>
     ce_frozen_validator_set ce1 = ce_frozen_validator_set ce"
  by (auto simp: membership_frames Let_def result_simps split: option.splits sum.splits if_splits)

lemma committee_step_ok: "committee_ok ce \<Longrightarrow> committee_ok (committee_step ce c)"
proof (cases c)
  case (Slash a n)
  assume "committee_ok ce"
  then show ?thesis using enforce_slash_valid [of ce a n] Slash by (auto simp: committee_ok_def)
next
  case Epoch
  assume "committee_ok ce"
  then show ?thesis using epoch_transition_valid [of ce] Epoch by (auto simp: committee_ok_def)
qed (auto simp: committee_ok_def frozen_unchanged leave_valid(1)
    dest: join_valid update_stake_valid freeze_epoch_valid update_validator_set_valid
    split: sum.splits option.splits)

interpretation membership: machine committee_step committee_ok
  by unfold_locales (rule committee_step_ok)

section \<open>A concrete committee\<close>

text \<open>A heavy validator at address 32 and a light one at address 7, on which statements about
  committees are evaluated.\<close>

definition sample_set :: validator_set where
  "sample_set = \<lparr>vs_validators =
       [\<lparr>v_address = 32, v_stake = 50000000, v_tier = Core, v_shard = 0\<rparr>,
        \<lparr>v_address = 7, v_stake = 500000, v_tier = Spark, v_shard = 0\<rparr>],
     vs_total_stake = 50500000, vs_epoch = 0, vs_quorum = 33666667, vs_slashed_total = 0,
     vs_slash_history = []\<rparr>"

lemma sample_set_valid: "valid_set sample_set"
  by (simp add: sample_set_def valid_set_def checked_validator_total_stake_def from_stake_def checked_add_def
      STAKE_CORE_def STAKE_ARC_def STAKE_SPARK_def strict_supermajority_threshold_def)

lemma sample_set_members: "members sample_set = {32, 7}"
  by (auto simp: sample_set_def members_def)

lemma sample_set_weight: "weight sample_set 32 = 50000000" "weight sample_set 7 = 500000"
  by (simp_all add: sample_set_def weight_def get_validator_def)

lemma sample_set_quorum: "has_quorum sample_set [32]" "has_quorum sample_set [7, 32]"
  by (simp_all add: has_quorum_iff [OF sample_set_valid] sample_set_weight)
    (simp_all add: sample_set_def)

lemma sample_set_tolerance: "unat (fault_tolerance_stake sample_set) = 16833333"
  by (simp add: sample_set_def fault_tolerance_stake_def saturating_sub_def)

definition solo_set :: validator_set where
  "solo_set = \<lparr>vs_validators = [\<lparr>v_address = 32, v_stake = 50000000, v_tier = Core, v_shard = 0\<rparr>],
     vs_total_stake = 50000000, vs_epoch = 0, vs_quorum = 33333334, vs_slashed_total = 0,
     vs_slash_history = []\<rparr>"

lemma solo_set_valid: "valid_set solo_set"
  by (simp add: solo_set_def valid_set_def checked_validator_total_stake_def from_stake_def checked_add_def
      STAKE_CORE_def strict_supermajority_threshold_def)

section \<open>Properties\<close>

text \<open>C8: any two quorums of a validator set that passed its admission check share a member outside
  every set of faulty validators whose stake is within the fault tolerance of the set.\<close>

theorem quorums_share_honest_member:
  assumes "valid_set vs" and "has_quorum vs as" and "has_quorum vs bs"
    and "finite F" and "sum (weight vs) F \<le> unat (fault_tolerance_stake vs)"
  shows "\<exists>a \<in> set as \<inter> set bs \<inter> members vs. a \<notin> F"
  using assms by (rule quorum_overlap)

theorem quorums_share_honest_member_witness:
  "\<exists>a \<in> set [32] \<inter> set [7, 32] \<inter> members sample_set. a \<notin> {7}"
  by (rule quorums_share_honest_member [OF sample_set_valid sample_set_quorum])
    (simp_all add: sample_set_weight sample_set_tolerance)

text \<open>C9: on a valid set with stake, a list of addresses is a quorum exactly when the distinct
  members it names hold strictly more than two thirds of the total stake, duplicates and
  non-members counting nothing.\<close>

theorem has_quorum_exact:
  assumes "valid_set vs" and "vs_total_stake vs \<noteq> 0"
  shows "has_quorum vs as \<longleftrightarrow>
    2 * sum (weight vs) (members vs) < 3 * sum (weight vs) (set as \<inter> members vs)"
proof -
  have q: "unat (vs_quorum vs) = unat (vs_total_stake vs) - (unat (vs_total_stake vs) - 1) div 3"
    using assms by (simp add: valid_set_iff unat_threshold)
  have "sum (weight vs) (set as \<inter> members vs) = sum (weight vs) (set as)"
    by (rule sum.mono_neutral_left) (auto simp: weight_nonmember)
  moreover have "sum (weight vs) (members vs) = unat (vs_total_stake vs)"
    using assms(1) by (simp add: sum_weight_members valid_set_iff)
  moreover have "t - (t - 1) div 3 \<le> s \<longleftrightarrow> 2 * t < 3 * s" if "0 < t" for s t :: nat
    using that by arith
  moreover have "0 < unat (vs_total_stake vs)" using assms(2) by (simp add: unat_gt_0)
  ultimately show ?thesis using assms(1) q by (simp add: has_quorum_iff)
qed

theorem has_quorum_exact_witness:
  "has_quorum sample_set [7, 32] \<longleftrightarrow>
     2 * sum (weight sample_set) (members sample_set) <
     3 * sum (weight sample_set) (set [7, 32] \<inter> members sample_set)"
  by (rule has_quorum_exact [OF sample_set_valid]) (simp add: sample_set_def)

text \<open>C10: whatever sequence of joins, leaves, stake changes, queued validators, epoch freezes, epoch
  transitions, set replacements and slashes the engine runs, the live and the frozen validator set
  stay valid: distinct members with the tier of their stake, an exact total that fits in 64 bits and
  the strict two-thirds quorum of that total.\<close>

theorem committee_calls_keep_sets_valid:
  assumes "valid_set (ce_validator_set ce)" and "valid_set (ce_frozen_validator_set ce)"
  shows "valid_set (ce_validator_set (foldl committee_step ce calls)) \<and>
    valid_set (ce_frozen_validator_set (foldl committee_step ce calls))"
  using membership.run_inv [of ce calls] assms by (simp add: committee_ok_def)

theorem committee_calls_keep_sets_valid_witness:
  "let ce = \<lparr>ce_validator_set = sample_set, ce_frozen_validator_set = sample_set,
             ce_pending_validators = [], ce_validator_keys = []\<rparr>;
       ce' = foldl committee_step ce [Join 9 5000000 1 0, Freeze, Slash 32 20000000, Epoch]
   in valid_set (ce_validator_set ce') \<and> valid_set (ce_frozen_validator_set ce')"
  unfolding Let_def by (rule committee_calls_keep_sets_valid) (simp_all add: sample_set_valid)

text \<open>C11: slashing a member of a valid set succeeds, leaves a valid set, takes exactly the slashed
  amount from that member (the whole stake when the rest is below the minimum) and leaves every
  other weight alone.\<close>

theorem slash_is_exact:
  assumes "valid_set vs" and "get_validator vs a = Some v"
  shows "\<exists>vs'. apply_slash a n vs = Some vs' \<and> valid_set vs' \<and>
    (\<forall>b. weight vs' b = (if b = a then
       (if unat (v_stake v) - unat n < unat STAKE_SPARK then 0 else unat (v_stake v) - unat n)
       else weight vs b))"
  using assms by (rule apply_slash_member)

theorem slash_is_exact_witness:
  "\<exists>vs'. apply_slash 32 20000000 sample_set = Some vs' \<and> valid_set vs' \<and>
    weight vs' 32 = 30000000 \<and> weight vs' 7 = 500000"
proof -
  have "get_validator sample_set 32 = Some \<lparr>v_address = 32, v_stake = 50000000, v_tier = Core, v_shard = 0\<rparr>"
    by (simp add: sample_set_def get_validator_def)
  then obtain vs' where vs': "apply_slash 32 20000000 sample_set = Some vs'" "valid_set vs'"
    "\<forall>b. weight vs' b = (if b = 32 then
       (if unat (50000000 :: u64) - unat (20000000 :: u64) < unat STAKE_SPARK then 0
        else unat (50000000 :: u64) - unat (20000000 :: u64)) else weight sample_set b)"
    using slash_is_exact [OF sample_set_valid, of 32 _ 20000000] by fastforce
  have "weight vs' 32 = 30000000" "weight vs' 7 = 500000"
    using vs'(3) by (simp_all add: STAKE_SPARK_def sample_set_weight)
  then show ?thesis using vs'(1,2) by blast
qed

end
