(* ===== verification/Arc_Crypto.thy ===== *)
theory Arc_Crypto
  imports Arc_Prelude
begin

text \<open>
  Byte encodings, hashing and signature verification of \<open>crates/arc-crypto\<close>
  (\<open>hash.rs\<close>, \<open>signature.rs\<close>). The hash function and the curve and lattice primitives are
  third-party code (\<open>blake3\<close>, \<open>ed25519_dalek\<close>, \<open>k256\<close>, \<open>fips204\<close>, \<open>pqcrypto_falcon\<close>,
  \<open>bincode\<close>): they are the fields of the record \<open>crypto\<close>, an argument of every definition
  that uses them.
\<close>

section \<open>Byte strings\<close>

text \<open>\<open>to_le_bytes\<close> and \<open>to_be_bytes\<close>, with the number of bytes first.\<close>

definition to_le_bytes :: "nat \<Rightarrow> 'a::len word \<Rightarrow> u8 list" where
  "to_le_bytes n w = map (\<lambda>i. ucast (drop_bit (8 * i) w)) [0..<n]"

definition to_be_bytes :: "nat \<Rightarrow> 'a::len word \<Rightarrow> u8 list" where
  "to_be_bytes n w = rev (to_le_bytes n w)"

definition u64_le :: "u64 \<Rightarrow> u8 list" where "u64_le = to_le_bytes 8"
definition u64_be :: "u64 \<Rightarrow> u8 list" where "u64_be = to_be_bytes 8"

text \<open>The 32 bytes of a hash, most significant first.\<close>

definition hash_as_bytes :: "hash256 \<Rightarrow> u8 list" where "hash_as_bytes = to_be_bytes 32"

section \<open>Primitives\<close>

datatype signature =
    Ed25519 (ed_public_key: hash256) (ed_signature: "u8 list")
  | Secp256k1 "u8 list"
  | MlDsa65 "u8 list" "u8 list"
  | Falcon512 "u8 list" "u8 list"

text \<open>The two strings of \<open>AddressMismatch\<close> are printed addresses; the model keeps the addresses.\<close>

datatype signature_error =
    SigInvalidSignature
  | SigInvalidPublicKey
  | SigKeyGeneration
  | SigSigningFailed string
  | SigBatchVerifyFailed
  | SigAddressMismatch address address
  | SigHashMismatch
  | SigInvalidLength nat nat

record crypto =
  blake3 :: "u8 list \<Rightarrow> hash256"
  blake3_derive_key :: "string \<Rightarrow> u8 list \<Rightarrow> hash256"
  ed25519_check :: "hash256 \<Rightarrow> u8 list \<Rightarrow> hash256 \<Rightarrow> signature_error + unit"
  secp256k1_recover :: "u8 list \<Rightarrow> hash256 \<Rightarrow> signature_error + u8 list"
  ml_dsa_check :: "u8 list \<Rightarrow> u8 list \<Rightarrow> hash256 \<Rightarrow> signature_error + unit"
  falcon_check :: "u8 list \<Rightarrow> u8 list \<Rightarrow> hash256 \<Rightarrow> signature_error + unit"
  signature_decode :: "u8 list \<Rightarrow> signature option"

definition hash_bytes :: "'z crypto_scheme \<Rightarrow> u8 list \<Rightarrow> hash256" where
  "hash_bytes cr bs = blake3 cr bs"

definition hash_pair :: "'z crypto_scheme \<Rightarrow> hash256 \<Rightarrow> hash256 \<Rightarrow> hash256" where
  "hash_pair cr l r = blake3 cr (hash_as_bytes l @ hash_as_bytes r)"

section \<open>Signature verification\<close>

definition ML_DSA_PK_LEN :: nat where "ML_DSA_PK_LEN = 1952"
definition ML_DSA_SIG_LEN :: nat where "ML_DSA_SIG_LEN = 3309"
definition FALCON_PK_LEN :: nat where "FALCON_PK_LEN = 897"
definition FALCON_SIG_MAX_LEN :: nat where "FALCON_SIG_MAX_LEN = 752"

text \<open>\<open>secp256k1_recover\<close> takes the whole 65-byte blob and gives the bytes of the uncompressed
  point, whose first byte is the \<open>0x04\<close> prefix.\<close>

fun sig_verify ::
  "'z crypto_scheme \<Rightarrow> signature \<Rightarrow> hash256 \<Rightarrow> address \<Rightarrow> signature_error + unit" where
  "sig_verify cr (Ed25519 pk sg) msg addr =
     (if length sg \<noteq> 64 then Inl (SigInvalidLength 64 (length sg))
      else if hash_bytes cr (hash_as_bytes pk) \<noteq> addr then Inl (SigAddressMismatch addr (hash_bytes cr (hash_as_bytes pk)))
      else ed25519_check cr pk sg msg)"
| "sig_verify cr (Secp256k1 sg) msg addr =
     (if length sg \<noteq> 65 then Inl (SigInvalidLength 65 (length sg))
      else case secp256k1_recover cr sg msg of
        Inl e \<Rightarrow> Inl e
      | Inr point \<Rightarrow>
          if length point < 65 then Inl SigInvalidPublicKey
          else if hash_bytes cr (take 64 (drop 1 point)) \<noteq> addr then Inl (SigAddressMismatch addr (hash_bytes cr (take 64 (drop 1 point))))
          else Inr ())"
| "sig_verify cr (MlDsa65 pk sg) msg addr =
     (if length sg \<noteq> ML_DSA_SIG_LEN then Inl (SigInvalidLength ML_DSA_SIG_LEN (length sg))
      else if length pk \<noteq> ML_DSA_PK_LEN then Inl SigInvalidPublicKey
      else if hash_bytes cr pk \<noteq> addr then Inl (SigAddressMismatch addr (hash_bytes cr pk))
      else ml_dsa_check cr pk sg msg)"
| "sig_verify cr (Falcon512 pk sg) msg addr =
     (if sg = [] \<or> length sg > FALCON_SIG_MAX_LEN
      then Inl (SigInvalidLength FALCON_SIG_MAX_LEN (length sg))
      else if length pk \<noteq> FALCON_PK_LEN then Inl SigInvalidPublicKey
      else if hash_bytes cr pk \<noteq> addr then Inl (SigAddressMismatch addr (hash_bytes cr pk))
      else falcon_check cr pk sg msg)"

section \<open>Encodings are injective\<close>

lemma length_to_le_bytes [simp]: "length (to_le_bytes n w) = n"
  by (simp add: to_le_bytes_def)

lemma length_to_be_bytes [simp]: "length (to_be_bytes n w) = n"
  by (simp add: to_be_bytes_def)

lemma length_encodings [simp]:
  "length (u64_le x) = 8" "length (u64_be x) = 8" "length (hash_as_bytes h) = 32"
  by (simp_all add: u64_le_def u64_be_def hash_as_bytes_def)

lemma bit_le_bytes:
  fixes w :: "'a::len word"
  assumes "k < 8 * n"
  shows "bit (to_le_bytes n w ! (k div 8)) (k mod 8) \<longleftrightarrow> bit w k"
proof -
  have "k div 8 < n" using assms by (simp add: div_less_iff_less_mult)
  moreover have "8 * (k div 8) + k mod 8 = k" by simp
  ultimately show ?thesis
    by (simp add: to_le_bytes_def bit_ucast_iff bit_drop_bit_eq)
qed

lemma to_le_bytes_inj:
  fixes w v :: "'a::len word"
  assumes "LENGTH('a) \<le> 8 * n" and "to_le_bytes n w = to_le_bytes n v"
  shows "w = v"
proof (rule bit_word_eqI)
  fix k
  assume "k < LENGTH('a)"
  then have "k < 8 * n" using assms(1) by simp
  then show "bit w k = bit v k" using bit_le_bytes [of k n w] bit_le_bytes [of k n v] assms(2) by simp
qed

lemma u64_le_inj [simp]: "u64_le x = u64_le y \<longleftrightarrow> x = y"
  using to_le_bytes_inj [of 8 x y] by (auto simp: u64_le_def)

lemma u64_be_inj [simp]: "u64_be x = u64_be y \<longleftrightarrow> x = y"
  using to_le_bytes_inj [of 8 x y] by (auto simp: u64_be_def to_be_bytes_def)

lemma hash_as_bytes_inj [simp]: "hash_as_bytes h = hash_as_bytes h' \<longleftrightarrow> h = h'"
  using to_le_bytes_inj [of 32 h h'] by (auto simp: hash_as_bytes_def to_be_bytes_def)

lemma concat_map_fixed_inj:
  assumes "\<And>x. length (f x) = n" and "\<And>x y. f x = f y \<Longrightarrow> x = y"
    and "length xs = length ys" and "concat (map f xs) = concat (map f ys)"
  shows "xs = ys"
  using assms(3,4)
proof (induction xs ys rule: list_induct2)
  case (Cons x xs y ys)
  have "length (f x) = length (f y)" by (simp add: assms(1))
  then have "f x = f y" "concat (map f xs) = concat (map f ys)" using Cons.prems by simp_all
  then show ?case using Cons.IH assms(2) by simp
qed simp

lemma length_concat_hashes [simp]:
  "length (concat (map hash_as_bytes hs)) = 32 * length hs"
  by (induction hs) simp_all

lemma concat_hashes_inj:
  assumes "concat (map hash_as_bytes xs) = concat (map hash_as_bytes ys)"
  shows "xs = ys"
proof (rule concat_map_fixed_inj [of hash_as_bytes 32, OF _ _ _ assms])
  have "32 * length xs = 32 * length ys" using assms by (metis length_concat_hashes)
  then show "length xs = length ys" by simp
qed simp_all

text \<open>A signature that verifies for an address carries a key that hashes to that address, so the
  same Ed25519 signature never verifies for two addresses.\<close>

lemma sig_verify_ed25519:
  "sig_verify cr (Ed25519 pk sg) msg addr = Inr u \<longleftrightarrow>
     length sg = 64 \<and> hash_bytes cr (hash_as_bytes pk) = addr \<and> ed25519_check cr pk sg msg = Inr ()"
  by auto

section \<open>A concrete instance\<close>

text \<open>A total instance of the primitives, on which statements with hypotheses about \<open>crypto\<close> are
  evaluated: the hash is the length of its input, and every Ed25519 check succeeds.\<close>

definition toy_crypto :: crypto where
  "toy_crypto = \<lparr>blake3 = (\<lambda>bs. word_of_nat (length bs)), blake3_derive_key = (\<lambda>_ bs. word_of_nat (length bs)),
     ed25519_check = (\<lambda>_ _ _. Inr ()), secp256k1_recover = (\<lambda>_ _. Inl SigInvalidSignature),
     ml_dsa_check = (\<lambda>_ _ _. Inl SigInvalidSignature), falcon_check = (\<lambda>_ _ _. Inl SigInvalidSignature),
     signature_decode = (\<lambda>_. None)\<rparr>"

end
