(* ===== verification/Arc_Security.thy ===== *)
theory Arc_Security
  imports Arc_Validators Arc_Crypto
begin

text \<open>
  The security detectors of \<open>crates/arc-consensus/src/security.rs\<close>: block withholding,
  checkpoints certified by a trusted validator set, and double voting. A \<open>HashMap\<close> is a keyed
  store and a \<open>HashSet\<close> a list without repetition, so the results of a scan come in key order;
  the source leaves that order open.
\<close>

section \<open>Block withholding\<close>

record withholding_detector =
  wd_expected :: "(hash256, u64 list) store"
  wd_received :: "(hash256, u64 list) store"

text \<open>The \<open>f64\<close> score of a report is left out: after the comparison below it is only logged.\<close>

record withholding_report =
  wr_validator :: hash256
  wr_missing_rounds :: "u64 list"
  wr_total_expected :: nat

definition detector_new :: withholding_detector where
  "detector_new = \<lparr>wd_expected = [], wd_received = []\<rparr>"

definition report_expected :: "hash256 \<Rightarrow> u64 \<Rightarrow> withholding_detector \<Rightarrow> withholding_detector" where
  "report_expected v r wd = wd\<lparr>wd_expected := mentry v [] (List.insert r) (wd_expected wd)\<rparr>"

definition report_received :: "hash256 \<Rightarrow> u64 \<Rightarrow> withholding_detector \<Rightarrow> withholding_detector" where
  "report_received v r wd = wd\<lparr>wd_received := mentry v [] (List.insert r) (wd_received wd)\<rparr>"

definition highest_expected :: "withholding_detector \<Rightarrow> u64" where
  "highest_expected wd = fold max (concat (map snd (wd_expected wd))) 0"

definition expected_in_window :: "u64 \<Rightarrow> withholding_detector \<Rightarrow> u64 list \<Rightarrow> u64 list" where
  "expected_in_window window wd rounds =
     filter (\<lambda>r. saturating_sub (highest_expected wd) window < r \<and> r \<le> highest_expected wd) rounds"

definition missing_rounds :: "withholding_detector \<Rightarrow> hash256 \<Rightarrow> u64 list \<Rightarrow> u64 list" where
  "missing_rounds wd v rounds =
     filter (\<lambda>r. case map_of (wd_received wd) v of None \<Rightarrow> True | Some s \<Rightarrow> r \<notin> set s) rounds"

text \<open>The score \<open>missing / expected\<close> is an \<open>f64\<close> quotient of two counts; it exceeds \<open>0.5\<close>
  exactly when twice the first count exceeds the second (counts below \<open>2^52\<close> are exact in
  \<open>f64\<close> and the quotient is at least \<open>1 / (2 * expected)\<close> away from one half otherwise).\<close>

definition detect_withholding :: "u64 \<Rightarrow> withholding_detector \<Rightarrow> withholding_report list" where
  "detect_withholding window wd =
     List.map_filter (\<lambda>(v, rounds).
       let expected = expected_in_window window wd rounds;
           missing = missing_rounds wd v expected
       in if length expected = 0 then None
          else if 2 * length missing > length expected
          then Some \<lparr>wr_validator = v, wr_missing_rounds = missing,
                     wr_total_expected = length expected\<rparr>
          else None) (wd_expected wd)"

definition prune_rounds :: "u64 \<Rightarrow> (hash256, u64 list) store \<Rightarrow> (hash256, u64 list) store" where
  "prune_rounds before m =
     mretain (\<lambda>_ rs. rs \<noteq> []) (map (\<lambda>(v, rs). (v, filter (\<lambda>r. before \<le> r) rs)) m)"

definition detector_prune :: "u64 \<Rightarrow> withholding_detector \<Rightarrow> withholding_detector" where
  "detector_prune before wd =
     \<lparr>wd_expected = prune_rounds before (wd_expected wd),
      wd_received = prune_rounds before (wd_received wd)\<rparr>"

definition entry_count :: "withholding_detector \<Rightarrow> nat" where
  "entry_count wd = (\<Sum>(v, rs)\<leftarrow>wd_expected wd. length rs) + (\<Sum>(v, rs)\<leftarrow>wd_received wd. length rs)"

section \<open>Checkpoints\<close>

record validator_signature =
  vsig_validator :: hash256
  vsig_public_key :: hash256
  vsig_halves :: "hash256 \<times> hash256"

record checkpoint =
  cp_block_hash :: hash256
  cp_round :: u64
  cp_height :: u64
  cp_state_root :: hash256
  cp_timestamp :: u64
  cp_signatures :: "validator_signature list"

record block_ref =
  br_hash :: hash256
  br_round :: u64
  br_height :: u64

datatype checkpoint_error =
    EmptyTrustedValidatorSet
  | InvalidTrustedValidatorSet string
  | StaleRound u64 u64
  | ZeroRound
  | EmptySignatures
  | TooManySignatures nat nat
  | DuplicateSigner hash256
  | UnknownSigner hash256
  | CpInvalidSignature hash256
  | InsufficientIdentities nat nat
  | InsufficientStake u64 u64

definition as_signature :: "validator_signature \<Rightarrow> signature" where
  "as_signature s = Ed25519 (vsig_public_key s)
     (hash_as_bytes (fst (vsig_halves s)) @ hash_as_bytes (snd (vsig_halves s)))"

definition checkpoint_preimage :: "checkpoint \<Rightarrow> u8 list" where
  "checkpoint_preimage cp =
     hash_as_bytes (cp_block_hash cp) @ u64_le (cp_round cp) @ u64_le (cp_height cp) @
     hash_as_bytes (cp_state_root cp) @ u64_le (cp_timestamp cp)"

definition signing_hash :: "'z crypto_scheme \<Rightarrow> checkpoint \<Rightarrow> hash256" where
  "signing_hash cr cp =
     blake3_derive_key cr ''ARC-consensus-finalized-checkpoint-v1'' (checkpoint_preimage cp)"

fun trusted_stakes_loop ::
  "(hash256, u64) store \<Rightarrow> u64 \<Rightarrow> validator list \<Rightarrow> checkpoint_error + ((hash256, u64) store \<times> u64)" where
  "trusted_stakes_loop stakes tot [] = Inr (stakes, tot)"
| "trusted_stakes_loop stakes tot (v # vs) =
     (if from_stake (v_stake v) \<noteq> Some (v_tier v)
      then Inl (InvalidTrustedValidatorSet ''validator has inactive stake or inconsistent tier'')
      else if mhas stakes (v_address v)
      then Inl (InvalidTrustedValidatorSet ''duplicate validator'')
      else case checked_add tot (v_stake v) of
        None \<Rightarrow> Inl (InvalidTrustedValidatorSet ''total validator stake exceeds u64::MAX'')
      | Some tot' \<Rightarrow> trusted_stakes_loop (mput (v_address v) (v_stake v) stakes) tot' vs)"

definition trusted_validator_stakes ::
  "validator_set \<Rightarrow> checkpoint_error + ((hash256, u64) store \<times> u64)" where
  "trusted_validator_stakes trusted =
     (if vs_validators trusted = [] then Inl EmptyTrustedValidatorSet
      else and_then (trusted_stakes_loop [] 0 (vs_validators trusted)) (\<lambda>(stakes, tot).
        if vs_total_stake trusted \<noteq> tot
        then Inl (InvalidTrustedValidatorSet ''cached total stake does not match recomputed'')
        else if vs_quorum trusted \<noteq> strict_supermajority_threshold tot
        then Inl (InvalidTrustedValidatorSet ''cached quorum does not match strict threshold'')
        else Inr (stakes, tot)))"

fun approvals_loop ::
  "'z crypto_scheme \<Rightarrow> hash256 \<Rightarrow> (hash256, u64) store \<Rightarrow> hash256 list \<Rightarrow> u64 \<Rightarrow>
   validator_signature list \<Rightarrow> checkpoint_error + (hash256 list \<times> u64)" where
  "approvals_loop cr msg stakes seen approved [] = Inr (seen, approved)"
| "approvals_loop cr msg stakes seen approved (a # as) =
     (if vsig_validator a \<in> set seen then Inl (DuplicateSigner (vsig_validator a))
      else case map_of stakes (vsig_validator a) of
        None \<Rightarrow> Inl (UnknownSigner (vsig_validator a))
      | Some stake \<Rightarrow>
          (case sig_verify cr (as_signature a) msg (vsig_validator a) of
             Inl _ \<Rightarrow> Inl (CpInvalidSignature (vsig_validator a))
           | Inr _ \<Rightarrow>
               (case checked_add approved stake of
                  None \<Rightarrow> Inl (InvalidTrustedValidatorSet ''approved validator stake exceeds u64::MAX'')
                | Some approved' \<Rightarrow>
                    approvals_loop cr msg stakes (vsig_validator a # seen) approved' as)))"

text \<open>The conversions between \<open>usize\<close> and \<open>u64\<close> cannot fail on a 64-bit target: a vector has
  fewer than \<open>2^63\<close> elements.\<close>

definition verify_against_trusted_validator_set ::
  "'z crypto_scheme \<Rightarrow> validator_set \<Rightarrow> checkpoint \<Rightarrow> checkpoint_error + unit" where
  "verify_against_trusted_validator_set cr trusted cp =
     and_then (trusted_validator_stakes trusted) (\<lambda>(active_stakes, total_stake).
     if cp_signatures cp = [] then Inl EmptySignatures
     else if length (cp_signatures cp) > length active_stakes
     then Inl (TooManySignatures (length (cp_signatures cp)) (length active_stakes))
     else
       let required_identities =
             unat (strict_supermajority_threshold (word_of_nat (length active_stakes)))
       in and_then (approvals_loop cr (signing_hash cr cp) active_stakes [] 0 (cp_signatures cp))
            (\<lambda>(seen, approved_stake).
          if length seen < required_identities
          then Inl (InsufficientIdentities (length seen) required_identities)
          else if approved_stake < strict_supermajority_threshold total_stake
          then Inl (InsufficientStake approved_stake (strict_supermajority_threshold total_stake))
          else Inr ()))"

record checkpoint_registry =
  cr_checkpoints :: "(u64, checkpoint) store"
  cr_latest_round :: u64

definition registry_new :: checkpoint_registry where
  "registry_new = \<lparr>cr_checkpoints = [], cr_latest_round = 0\<rparr>"

definition add_checkpoint ::
  "'z crypto_scheme \<Rightarrow> validator_set \<Rightarrow> checkpoint \<Rightarrow> checkpoint_registry \<Rightarrow>
   checkpoint_error + checkpoint_registry" where
  "add_checkpoint cr trusted cp reg =
     (if cp_round cp = 0 then Inl ZeroRound
      else if cp_round cp \<le> cr_latest_round reg \<and> cr_latest_round reg > 0
      then Inl (StaleRound (cp_round cp) (cr_latest_round reg))
      else and_then (verify_against_trusted_validator_set cr trusted cp) (\<lambda>_.
        Inr (reg\<lparr>cr_checkpoints := mput (cp_round cp) cp (cr_checkpoints reg),
                 cr_latest_round := cp_round cp\<rparr>)))"

definition latest_checkpoint :: "checkpoint_registry \<Rightarrow> checkpoint option" where
  "latest_checkpoint reg = map_of (cr_checkpoints reg) (cr_latest_round reg)"

fun index_chain :: "(u64, block_ref) store \<Rightarrow> block_ref list \<Rightarrow> (u64, block_ref) store option" where
  "index_chain by_round [] = Some by_round"
| "index_chain by_round (b # bs) =
     (case map_of by_round (br_round b) of
        Some previous \<Rightarrow>
          if br_hash previous \<noteq> br_hash b \<or> br_height previous \<noteq> br_height b then None
          else index_chain (mput (br_round b) b by_round) bs
      | None \<Rightarrow> index_chain (mput (br_round b) b by_round) bs)"

definition verify_chain_against_checkpoints :: "checkpoint_registry \<Rightarrow> block_ref list \<Rightarrow> bool" where
  "verify_chain_against_checkpoints reg chain =
     (case latest_checkpoint reg of
        None \<Rightarrow> False
      | Some latest \<Rightarrow>
          chain \<noteq> [] \<and>
          (case index_chain [] chain of
             None \<Rightarrow> False
           | Some by_round \<Rightarrow>
               list_all (\<lambda>(round, cp).
                 case map_of by_round round of
                   Some b \<Rightarrow> br_hash b = cp_block_hash cp \<and> br_height b = cp_height cp
                 | None \<Rightarrow> False) (cr_checkpoints reg)))"

definition is_valid_fork_point :: "checkpoint_registry \<Rightarrow> u64 \<Rightarrow> bool" where
  "is_valid_fork_point reg round \<longleftrightarrow> cr_latest_round reg \<noteq> 0 \<and> round > cr_latest_round reg"

section \<open>Double voting\<close>

datatype offense_kind = DoubleVote | WithholdingBlock | InvalidBlockOffense | Equivocation

record double_vote_evidence =
  dv_validator :: hash256
  dv_round :: u64
  dv_vote1 :: hash256
  dv_vote2 :: hash256

record penalty_record =
  pr_validator :: hash256
  pr_offense :: offense_kind
  pr_slash_amount :: u64
  pr_round :: u64
  pr_timestamp :: u64

record stake_tracker =
  st_votes :: "(hash256 \<times> u64, hash256 list) store"
  st_penalties :: "penalty_record list"

fun calculate_slash_amount :: "offense_kind \<Rightarrow> u64 \<Rightarrow> u64" where
  "calculate_slash_amount DoubleVote stake = stake"
| "calculate_slash_amount Equivocation stake = stake"
| "calculate_slash_amount InvalidBlockOffense stake = stake div 2"
| "calculate_slash_amount WithholdingBlock stake = stake div 10"

definition tracker_new :: stake_tracker where
  "tracker_new = \<lparr>st_votes = [], st_penalties = []\<rparr>"

definition report_vote :: "hash256 \<Rightarrow> u64 \<Rightarrow> hash256 \<Rightarrow> stake_tracker \<Rightarrow> stake_tracker" where
  "report_vote v r h st = st\<lparr>st_votes := mentry (v, r) [] (List.insert h) (st_votes st)\<rparr>"

definition detect_double_voting :: "u64 \<Rightarrow> stake_tracker \<Rightarrow> double_vote_evidence list" where
  "detect_double_voting round st =
     List.map_filter (\<lambda>((v, r), hashes).
       if r \<noteq> round then None
       else case hashes of
         h1 # h2 # _ \<Rightarrow> Some \<lparr>dv_validator = v, dv_round = round, dv_vote1 = h1, dv_vote2 = h2\<rparr>
       | _ \<Rightarrow> None) (st_votes st)"

definition record_penalty :: "penalty_record \<Rightarrow> stake_tracker \<Rightarrow> stake_tracker" where
  "record_penalty p st = st\<lparr>st_penalties := st_penalties st @ [p]\<rparr>"

definition penalties_for :: "hash256 \<Rightarrow> stake_tracker \<Rightarrow> penalty_record list" where
  "penalties_for v st = filter (\<lambda>p. pr_validator p = v) (st_penalties st)"

definition total_slashed :: "hash256 \<Rightarrow> stake_tracker \<Rightarrow> u64" where
  "total_slashed v st = sum_list (map pr_slash_amount (penalties_for v st))"

definition prune_votes :: "u64 \<Rightarrow> stake_tracker \<Rightarrow> stake_tracker" where
  "prune_votes before st = st\<lparr>st_votes := mretain (\<lambda>(_, r) _. before \<le> r) (st_votes st)\<rparr>"

section \<open>What an accepted checkpoint certifies\<close>

lemma trusted_stakes_loop_Inr:
  assumes "trusted_stakes_loop m t vs = Inr (m', t')"
  shows "(\<forall>v \<in> set vs. tier_ok v) \<and> distinct (map v_address vs) \<and>
    (\<forall>v \<in> set vs. \<not> mhas m (v_address v)) \<and> unat t' = unat t + set_power vs \<and>
    length m' = length m + length vs \<and>
    (\<forall>a. map_of m' a = (case List.find (\<lambda>v. v_address v = a) vs of
       None \<Rightarrow> map_of m a | Some v \<Rightarrow> Some (v_stake v)))"
  using assms
proof (induction m t vs rule: trusted_stakes_loop.induct)
  case (2 m t v vs)
  then obtain t1 where ok: "tier_ok v" "\<not> mhas m (v_address v)"
    and add: "checked_add t (v_stake v) = Some t1"
    and rest: "trusted_stakes_loop (mput (v_address v) (v_stake v) m) t1 vs = Inr (m', t')"
    by (auto simp: tier_ok_def split: if_splits option.splits)
  have IH: "(\<forall>v \<in> set vs. tier_ok v) \<and> distinct (map v_address vs) \<and>
    (\<forall>w \<in> set vs. \<not> mhas (mput (v_address v) (v_stake v) m) (v_address w)) \<and>
    unat t' = unat t1 + set_power vs \<and>
    length m' = length (mput (v_address v) (v_stake v) m) + length vs \<and>
    (\<forall>a. map_of m' a = (case List.find (\<lambda>v. v_address v = a) vs of
       None \<Rightarrow> map_of (mput (v_address v) (v_stake v) m) a | Some v \<Rightarrow> Some (v_stake v)))"
    using 2 ok add rest by (simp add: tier_ok_def)
  have fresh: "\<forall>w \<in> set vs. v_address w \<noteq> v_address v \<and> \<not> mhas m (v_address w)"
    using IH by (auto simp: mhas_mput)
  then have none: "List.find (\<lambda>w. v_address w = v_address v) vs = None"
    by (simp add: find_None_notin)
  have "unat t1 = unat t + unat (v_stake v)" using add by (simp add: result_simps)
  then show ?case
    using IH ok fresh none mput_fresh_length [OF ok(2), of "v_stake v"]
    by (auto simp: map_of_mput split: option.splits)
qed simp

lemma trusted_validator_stakes_Inr:
  assumes "trusted_validator_stakes vs = Inr (m, t)"
  shows "valid_set vs" and "vs_validators vs \<noteq> []" and "t = vs_total_stake vs"
    and "map_of m a = map_option v_stake (get_validator vs a)"
    and "length m = length (vs_validators vs)"
proof -
  have loop: "trusted_stakes_loop [] 0 (vs_validators vs) = Inr (m, t)"
    and "vs_total_stake vs = t" "vs_quorum vs = strict_supermajority_threshold t"
    and "vs_validators vs \<noteq> []"
    using assms by (auto simp: trusted_validator_stakes_def result_simps split: if_splits)
  then show "valid_set vs" "vs_validators vs \<noteq> []" "t = vs_total_stake vs"
    "map_of m a = map_option v_stake (get_validator vs a)" "length m = length (vs_validators vs)"
    using trusted_stakes_loop_Inr [OF loop]
    by (auto simp: valid_set_iff get_validator_def split: option.splits)
qed

lemma approvals_loop_Inr:
  assumes "approvals_loop cr msg m seen acc as = Inr (seen', acc')" and "distinct seen"
  shows "seen' = rev (map vsig_validator as) @ seen \<and> distinct seen' \<and>
    (\<forall>a \<in> set as. mhas m (vsig_validator a) \<and>
       sig_verify cr (as_signature a) msg (vsig_validator a) = Inr ()) \<and>
    unat acc' = unat acc + (\<Sum>a\<leftarrow>as. case map_of m (vsig_validator a) of None \<Rightarrow> 0 | Some s \<Rightarrow> unat s)"
  using assms
proof (induction as arbitrary: seen acc)
  case (Cons a as)
  then obtain s acc1 where new: "vsig_validator a \<notin> set seen"
    and s: "map_of m (vsig_validator a) = Some s"
    and sig: "sig_verify cr (as_signature a) msg (vsig_validator a) = Inr ()"
    and add: "checked_add acc s = Some acc1"
    and rest: "approvals_loop cr msg m (vsig_validator a # seen) acc1 as = Inr (seen', acc')"
    by (auto split: if_splits option.splits sum.splits)
  have acc1: "unat acc1 = unat acc + unat s" using add by (simp add: result_simps)
  have pre: "distinct (vsig_validator a # seen)" using Cons.prems(2) new by simp
  have IH: "seen' = rev (map vsig_validator as) @ vsig_validator a # seen" "distinct seen'"
    "\<forall>a \<in> set as. mhas m (vsig_validator a) \<and>
       sig_verify cr (as_signature a) msg (vsig_validator a) = Inr ()"
    "unat acc' = unat acc1 +
       (\<Sum>a\<leftarrow>as. case map_of m (vsig_validator a) of None \<Rightarrow> 0 | Some s \<Rightarrow> unat s)"
    using Cons.IH [OF rest pre] by blast+
  show ?case
  proof (intro conjI)
    show "distinct seen'" by (fact IH(2))
  qed (use IH(1,3,4) acc1 s sig in \<open>auto simp: mhas_def\<close>)
qed simp

lemma verified_checkpoint:
  assumes "verify_against_trusted_validator_set cr vs cp = Inr ()"
  shows "valid_set vs" and "has_quorum vs (map vsig_validator (cp_signatures cp))"
    and "distinct (map vsig_validator (cp_signatures cp))"
    and "\<And>a. a \<in> set (cp_signatures cp) \<Longrightarrow> vsig_validator a \<in> members vs \<and>
      sig_verify cr (as_signature a) (signing_hash cr cp) (vsig_validator a) = Inr ()"
proof -
  obtain m t seen acc where m: "trusted_validator_stakes vs = Inr (m, t)"
    and loop: "approvals_loop cr (signing_hash cr cp) m [] 0 (cp_signatures cp) = Inr (seen, acc)"
    and q: "\<not> acc < strict_supermajority_threshold t"
    using assms
    by (auto simp: verify_against_trusted_validator_set_def result_simps Let_def split: if_splits)
  note tv = trusted_validator_stakes_Inr [OF m]
  have lookup: "(case map_of m a of None \<Rightarrow> 0 | Some s \<Rightarrow> unat s) = weight vs a" for a
    by (simp add: tv(4) weight_def split: option.splits)
  have ap: "distinct (map vsig_validator (cp_signatures cp))"
    "\<forall>a \<in> set (cp_signatures cp). mhas m (vsig_validator a) \<and>
       sig_verify cr (as_signature a) (signing_hash cr cp) (vsig_validator a) = Inr ()"
    "unat acc = (\<Sum>a\<leftarrow>cp_signatures cp. weight vs (vsig_validator a))"
    using approvals_loop_Inr [OF loop] by (auto simp: lookup distinct_rev)
  have "(\<Sum>a \<in> set (map vsig_validator (cp_signatures cp)). weight vs a) = unat acc"
    using ap(1) ap(3)
    by (simp add: sum_list_distinct_conv_sum_set [OF ap(1), symmetric] comp_def del: set_map)
  moreover have "vs_quorum vs = strict_supermajority_threshold t"
    using tv(1,3) by (simp add: valid_set_def)
  ultimately show "has_quorum vs (map vsig_validator (cp_signatures cp))"
    using q tv(1) by (simp add: has_quorum_iff word_less_nat_alt)
  show "valid_set vs" "distinct (map vsig_validator (cp_signatures cp))" by (fact tv ap)+
  fix a assume "a \<in> set (cp_signatures cp)"
  then show "vsig_validator a \<in> members vs \<and>
      sig_verify cr (as_signature a) (signing_hash cr cp) (vsig_validator a) = Inr ()"
    using ap(2) by (auto simp: mhas_def tv(4) is_validator_def simp flip: is_validator_iff)
qed

section \<open>The registry\<close>

definition registry_ok :: "checkpoint_registry \<Rightarrow> bool" where
  "registry_ok reg \<longleftrightarrow> mwf (cr_checkpoints reg) \<and>
     (\<forall>(r, cp) \<in> set (cr_checkpoints reg). cp_round cp = r \<and> 0 < r \<and> r \<le> cr_latest_round reg) \<and>
     (0 < cr_latest_round reg \<longrightarrow> mhas (cr_checkpoints reg) (cr_latest_round reg))"

lemma registry_ok_new: "registry_ok registry_new"
  by (simp add: registry_ok_def registry_new_def)

lemma add_checkpoint_Inr:
  "add_checkpoint cr vs cp reg = Inr reg' \<longleftrightarrow>
     0 < cp_round cp \<and> cr_latest_round reg < cp_round cp \<and>
     verify_against_trusted_validator_set cr vs cp = Inr () \<and>
     reg' = reg\<lparr>cr_checkpoints := mput (cp_round cp) cp (cr_checkpoints reg),
                cr_latest_round := cp_round cp\<rparr>"
  by (auto simp: add_checkpoint_def result_simps word_neq_0_conv not_le)

lemma add_checkpoint_ok:
  assumes "registry_ok reg" and "add_checkpoint cr vs cp reg = Inr reg'"
  shows "registry_ok reg'"
proof -
  have new: "0 < cp_round cp" "cr_latest_round reg < cp_round cp"
    and reg': "reg' = reg\<lparr>cr_checkpoints := mput (cp_round cp) cp (cr_checkpoints reg),
                cr_latest_round := cp_round cp\<rparr>"
    using assms(2) by (auto simp: add_checkpoint_Inr)
  have "\<forall>(r, c) \<in> set (cr_checkpoints reg). cp_round c = r \<and> 0 < r \<and> r \<le> cp_round cp"
    using assms(1) new by (force simp: registry_ok_def)
  then show ?thesis
    using assms(1) new unfolding reg' by (auto simp: registry_ok_def set_mput mhas_mput)
qed

lemma add_checkpoint_keeps:
  assumes "registry_ok reg" and "add_checkpoint cr vs cp reg = Inr reg'"
    and "map_of (cr_checkpoints reg) r = Some c"
  shows "map_of (cr_checkpoints reg') r = Some c" and "r < cp_round cp"
proof -
  have "r \<le> cr_latest_round reg" using assms(1,3) by (auto simp: registry_ok_def dest!: map_of_SomeD)
  then show lt: "r < cp_round cp" using assms(2) by (auto simp: add_checkpoint_Inr)
  show "map_of (cr_checkpoints reg') r = Some c"
    using assms(2,3) lt by (auto simp: add_checkpoint_Inr map_of_mput)
qed

definition same_ref :: "block_ref \<Rightarrow> block_ref \<Rightarrow> bool" where
  "same_ref b c \<longleftrightarrow> br_hash b = br_hash c \<and> br_height b = br_height c"

lemma index_chain_Some:
  assumes "index_chain m chain = Some m'"
  shows "\<forall>r p. map_of m r = Some p \<longrightarrow> (\<exists>b. map_of m' r = Some b \<and> same_ref b p)"
    and "\<forall>c \<in> set chain. \<exists>b. map_of m' (br_round c) = Some b \<and> same_ref b c"
    and "\<forall>r b. map_of m' r = Some b \<longrightarrow> map_of m r = Some b \<or> b \<in> set chain \<and> br_round b = r"
  using assms
proof (induction m chain rule: index_chain.induct)
  case (1 m)
  {
    case 1 then show ?case by (simp add: same_ref_def)
  next
    case 2 then show ?case by simp
  next
    case 3 then show ?case by simp
  }
next
  case (2 m c cs)
  have step: "index_chain (mput (br_round c) c m) cs = Some m'"
    and agree: "\<forall>p. map_of m (br_round c) = Some p \<longrightarrow> same_ref c p"
    if "index_chain m (c # cs) = Some m'"
    using that by (auto simp: same_ref_def split: option.splits if_splits)
  have IH: "\<forall>r p. map_of (mput (br_round c) c m) r = Some p \<longrightarrow>
        (\<exists>b. map_of m' r = Some b \<and> same_ref b p)"
    "\<forall>c \<in> set cs. \<exists>b. map_of m' (br_round c) = Some b \<and> same_ref b c"
    "\<forall>r b. map_of m' r = Some b \<longrightarrow> map_of (mput (br_round c) c m) r = Some b \<or>
        b \<in> set cs \<and> br_round b = r"
    if "index_chain m (c # cs) = Some m'"
    using 2 step [OF that] that by (auto split: option.splits if_splits)
  {
    case 1
    show ?case
    proof (intro allI impI)
      fix r p assume p: "map_of m r = Some p"
      show "\<exists>b. map_of m' r = Some b \<and> same_ref b p"
      proof (cases "r = br_round c")
        case True
        then have "map_of (mput (br_round c) c m) r = Some c" by (simp add: map_of_mput)
        then obtain b where "map_of m' r = Some b" "same_ref b c" using IH(1) [OF 1] by blast
        then show ?thesis using agree [OF 1] p True by (auto simp: same_ref_def)
      next
        case False
        then show ?thesis using IH(1) [OF 1] p by (auto simp: map_of_mput)
      qed
    qed
  next
    case 2
    then show ?case using IH(1,2) [OF 2] by (auto simp: map_of_mput)
  next
    case 3
    then show ?case using IH(3) [OF 3] by (auto simp: map_of_mput split: if_splits)
  }
qed

section \<open>Votes\<close>

definition tracker_ok :: "stake_tracker \<Rightarrow> bool" where
  "tracker_ok st \<longleftrightarrow> mwf (st_votes st) \<and> (\<forall>(k, hs) \<in> set (st_votes st). distinct hs)"

definition votes_of :: "stake_tracker \<Rightarrow> hash256 \<Rightarrow> u64 \<Rightarrow> hash256 set" where
  "votes_of st v r = (case map_of (st_votes st) (v, r) of None \<Rightarrow> {} | Some hs \<Rightarrow> set hs)"

definition track_votes :: "(hash256 \<times> u64 \<times> hash256) list \<Rightarrow> stake_tracker \<Rightarrow> stake_tracker" where
  "track_votes hist st = fold (\<lambda>(v, r, h). report_vote v r h) hist st"

lemma tracker_ok_new: "tracker_ok tracker_new"
  by (simp add: tracker_ok_def tracker_new_def)

lemma report_vote_ok: "tracker_ok st \<Longrightarrow> tracker_ok (report_vote v r h st)"
proof -
  assume ok: "tracker_ok st"
  let ?hs = "case map_of (st_votes st) (v, r) of None \<Rightarrow> [] | Some hs \<Rightarrow> hs"
  have "distinct (List.insert h ?hs)"
    using ok by (auto simp: tracker_ok_def split: option.splits dest!: map_of_SomeD)
  then show ?thesis
    using ok by (auto simp: tracker_ok_def report_vote_def mentry_def set_mput)
qed

lemma votes_of_report:
  "votes_of (report_vote v r h st) v' r' =
     (if (v', r') = (v, r) then insert h (votes_of st v r) else votes_of st v' r')"
  by (auto simp: votes_of_def report_vote_def map_of_mentry split: option.splits)

lemma track_votes_spec:
  "tracker_ok st \<Longrightarrow> tracker_ok (track_votes hist st) \<and>
   votes_of (track_votes hist st) v r = votes_of st v r \<union> {h. (v, r, h) \<in> set hist}"
proof (induction hist arbitrary: st)
  case (Cons x hist)
  obtain v' r' h' where x: "x = (v', r', h')" by (cases x) auto
  have "track_votes (x # hist) st = track_votes hist (report_vote v' r' h' st)"
    by (simp add: track_votes_def x)
  then show ?case
    using Cons.IH [OF report_vote_ok [OF Cons.prems]] by (auto simp: votes_of_report x)
qed (simp add: track_votes_def)

lemma detect_double_voting_iff:
  assumes "tracker_ok st"
  shows "(\<exists>e \<in> set (detect_double_voting r st). dv_validator e = v) \<longleftrightarrow>
    (\<exists>h1 h2. h1 \<noteq> h2 \<and> h1 \<in> votes_of st v r \<and> h2 \<in> votes_of st v r)" (is "?L \<longleftrightarrow> ?R")
proof
  assume ?L
  then obtain h1 h2 hs where "((v, r), h1 # h2 # hs) \<in> set (st_votes st)"
    by (auto simp: detect_double_voting_def List.map_filter_def split: if_splits list.splits)
  then have "map_of (st_votes st) (v, r) = Some (h1 # h2 # hs)" "distinct (h1 # h2 # hs)"
    using assms by (auto simp: tracker_ok_def map_of_iff_set)
  then show ?R by (intro exI [of _ h1] exI [of _ h2]) (auto simp: votes_of_def)
next
  assume ?R
  then obtain h1 h2 hs where "map_of (st_votes st) (v, r) = Some hs" "h1 \<noteq> h2" "h1 \<in> set hs" "h2 \<in> set hs"
    by (auto simp: votes_of_def split: option.splits)
  moreover then obtain x y zs where "hs = x # y # zs" by (cases hs; cases "tl hs") auto
  ultimately have "((v, r), x # y # zs) \<in> set (st_votes st)" by (auto dest: map_of_SomeD)
  then show ?L by (force simp: detect_double_voting_def List.map_filter_def)
qed

lemma detect_double_voting_evidence:
  assumes "tracker_ok st" and "e \<in> set (detect_double_voting r st)"
  shows "dv_round e = r \<and> dv_vote1 e \<noteq> dv_vote2 e \<and>
    dv_vote1 e \<in> votes_of st (dv_validator e) r \<and> dv_vote2 e \<in> votes_of st (dv_validator e) r"
proof -
  obtain v h1 h2 hs where in_set: "((v, r), h1 # h2 # hs) \<in> set (st_votes st)"
    and e: "e = \<lparr>dv_validator = v, dv_round = r, dv_vote1 = h1, dv_vote2 = h2\<rparr>"
    using assms(2)
    by (auto simp: detect_double_voting_def List.map_filter_def split: if_splits list.splits)
  then have "map_of (st_votes st) (v, r) = Some (h1 # h2 # hs)" "distinct (h1 # h2 # hs)"
    using assms(1) by (auto simp: tracker_ok_def map_of_iff_set)
  then show ?thesis by (simp add: e votes_of_def)
qed

section \<open>Registries built by calls\<close>

definition registry_step ::
  "'z crypto_scheme \<Rightarrow> checkpoint_registry \<Rightarrow> validator_set \<times> checkpoint \<Rightarrow> checkpoint_registry" where
  "registry_step cr reg c = (case add_checkpoint cr (fst c) (snd c) reg of Inl _ \<Rightarrow> reg | Inr reg' \<Rightarrow> reg')"

definition registry_verified :: "'z crypto_scheme \<Rightarrow> checkpoint_registry \<Rightarrow> bool" where
  "registry_verified cr reg \<longleftrightarrow> registry_ok reg \<and>
     (\<forall>(r, cp) \<in> set (cr_checkpoints reg). \<exists>vs. verify_against_trusted_validator_set cr vs cp = Inr ())"

lemma registry_step_verified:
  assumes "registry_verified cr reg"
  shows "registry_verified cr (registry_step cr reg c)"
proof (cases "add_checkpoint cr (fst c) (snd c) reg")
  case (Inr reg')
  have ok: "registry_ok reg" using assms by (simp add: registry_verified_def)
  have "mwf (cr_checkpoints reg)" using ok by (simp add: registry_ok_def)
  moreover have "verify_against_trusted_validator_set cr (fst c) (snd c) = Inr ()"
    "cr_checkpoints reg' = mput (cp_round (snd c)) (snd c) (cr_checkpoints reg)"
    using Inr by (simp_all add: add_checkpoint_Inr)
  ultimately have "\<forall>(r, cp) \<in> set (cr_checkpoints reg'). \<exists>vs. verify_against_trusted_validator_set cr vs cp = Inr ()"
    using assms by (auto simp: registry_verified_def set_mput)
  then show ?thesis using add_checkpoint_ok [OF ok Inr] Inr by (simp add: registry_verified_def registry_step_def)
qed (simp add: registry_step_def assms)

interpretation registry: machine "registry_step cr" "registry_verified cr" for cr
  by unfold_locales (rule registry_step_verified)

lemma verify_chain_matches:
  assumes "verify_chain_against_checkpoints reg chain" and "(r, cp) \<in> set (cr_checkpoints reg)"
  shows "\<exists>b \<in> set chain. br_round b = r" and
    "b \<in> set chain \<Longrightarrow> br_round b = r \<Longrightarrow> br_hash b = cp_block_hash cp \<and> br_height b = cp_height cp"
proof -
  obtain m where m: "index_chain [] chain = Some m"
    and all: "list_all (\<lambda>(round, cp). case map_of m round of
        Some b \<Rightarrow> br_hash b = cp_block_hash cp \<and> br_height b = cp_height cp | None \<Rightarrow> False) (cr_checkpoints reg)"
    using assms(1) by (auto simp: verify_chain_against_checkpoints_def split: option.splits)
  obtain b0 where b0: "map_of m r = Some b0" "br_hash b0 = cp_block_hash cp" "br_height b0 = cp_height cp"
    using all assms(2) by (auto simp: list_all_iff split: option.splits)
  show "\<exists>b \<in> set chain. br_round b = r" using index_chain_Some(3) [OF m] b0(1) by auto
  assume "b \<in> set chain" "br_round b = r"
  then show "br_hash b = cp_block_hash cp \<and> br_height b = cp_height cp"
    using index_chain_Some(2) [OF m] b0 by (auto simp: same_ref_def)
qed

section \<open>Properties\<close>

text \<open>C15: two checkpoints that verify against the same trusted set share a signer outside every set of
  faulty validators within the fault tolerance, and that validator's signatures verify over both.
  Two conflicting finalised checkpoints are therefore a provable double signature.\<close>

theorem checkpoints_share_honest_signer:
  assumes "verify_against_trusted_validator_set cr vs cp1 = Inr ()"
    and "verify_against_trusted_validator_set cr vs cp2 = Inr ()"
    and "finite F" and "sum (weight vs) F \<le> unat (fault_tolerance_stake vs)"
  shows "\<exists>s1 \<in> set (cp_signatures cp1). \<exists>s2 \<in> set (cp_signatures cp2).
    vsig_validator s1 = vsig_validator s2 \<and> vsig_validator s1 \<in> members vs \<and> vsig_validator s1 \<notin> F \<and>
    sig_verify cr (as_signature s1) (signing_hash cr cp1) (vsig_validator s1) = Inr () \<and>
    sig_verify cr (as_signature s2) (signing_hash cr cp2) (vsig_validator s2) = Inr ()"
proof -
  note v1 = verified_checkpoint [OF assms(1)] and v2 = verified_checkpoint [OF assms(2)]
  obtain a where "a \<in> vsig_validator ` set (cp_signatures cp1)" "a \<in> vsig_validator ` set (cp_signatures cp2)"
    "a \<in> members vs" "a \<notin> F"
    using quorum_overlap [OF v1(1,2) v2(2) assms(3,4)] by auto
  then obtain s1 s2 where s: "s1 \<in> set (cp_signatures cp1)" "vsig_validator s1 = a"
    "s2 \<in> set (cp_signatures cp2)" "vsig_validator s2 = a" "a \<in> members vs" "a \<notin> F"
    by auto
  show ?thesis
    using s v1(4) [OF s(1)] v2(4) [OF s(3)] by (intro bexI [of _ s1] bexI [of _ s2]) simp_all
qed

definition sample_checkpoint :: "u64 \<Rightarrow> checkpoint" where
  "sample_checkpoint r = \<lparr>cp_block_hash = 5, cp_round = r, cp_height = 1, cp_state_root = 0, cp_timestamp = 0,
     cp_signatures = [\<lparr>vsig_validator = 32, vsig_public_key = 1, vsig_halves = (0, 0)\<rparr>]\<rparr>"

lemma sample_checkpoint_verifies:
  "verify_against_trusted_validator_set toy_crypto solo_set (sample_checkpoint r) = Inr ()"
  by (simp add: verify_against_trusted_validator_set_def trusted_validator_stakes_def solo_set_def
      from_stake_def STAKE_CORE_def checked_add_def sample_checkpoint_def mhas_def as_signature_def
      hash_bytes_def toy_crypto_def strict_supermajority_threshold_def)

theorem checkpoints_share_honest_signer_witness:
  "\<exists>s1 \<in> set (cp_signatures (sample_checkpoint 3)). \<exists>s2 \<in> set (cp_signatures (sample_checkpoint 4)).
    vsig_validator s1 = vsig_validator s2 \<and> vsig_validator s1 \<in> members solo_set \<and> vsig_validator s1 \<notin> {} \<and>
    sig_verify toy_crypto (as_signature s1) (signing_hash toy_crypto (sample_checkpoint 3)) (vsig_validator s1) = Inr () \<and>
    sig_verify toy_crypto (as_signature s2) (signing_hash toy_crypto (sample_checkpoint 4)) (vsig_validator s2) = Inr ()"
  by (rule checkpoints_share_honest_signer [OF sample_checkpoint_verifies sample_checkpoint_verifies]) simp_all

text \<open>C16: in a registry built by any sequence of checkpoint submissions, every stored checkpoint
  verified against a trusted set; a chain the registry accepts has a block at the round of each of
  them, and every block of the chain at such a round has the checkpoint's hash and height.\<close>

theorem accepted_chain_contains_checkpoints:
  assumes "reg = foldl (registry_step cr) registry_new adds"
    and "verify_chain_against_checkpoints reg chain" and "map_of (cr_checkpoints reg) r = Some cp"
  shows "(\<exists>vs. verify_against_trusted_validator_set cr vs cp = Inr ()) \<and> cp_round cp = r \<and>
    (\<exists>b \<in> set chain. br_round b = r) \<and>
    (\<forall>b \<in> set chain. br_round b = r \<longrightarrow> br_hash b = cp_block_hash cp \<and> br_height b = cp_height cp)"
proof -
  have "registry_verified cr registry_new"
    using registry_ok_new by (simp add: registry_verified_def registry_new_def)
  then have "registry_verified cr reg" using assms(1) by (simp add: registry.run_inv)
  moreover have mem: "(r, cp) \<in> set (cr_checkpoints reg)" using assms(3) by (rule map_of_SomeD)
  ultimately have "(\<exists>vs. verify_against_trusted_validator_set cr vs cp = Inr ()) \<and> cp_round cp = r"
    by (auto simp: registry_verified_def registry_ok_def)
  then show ?thesis using verify_chain_matches [OF assms(2) mem] by blast
qed

theorem accepted_chain_contains_checkpoints_witness:
  "let reg = foldl (registry_step toy_crypto) registry_new [(solo_set, sample_checkpoint 3)];
       chain = [\<lparr>br_hash = 5, br_round = 3, br_height = 1\<rparr>]
   in verify_chain_against_checkpoints reg chain \<and> (\<exists>b \<in> set chain. br_round b = 3)"
proof -
  let ?reg = "foldl (registry_step toy_crypto) registry_new [(solo_set, sample_checkpoint 3)]"
  let ?chain = "[\<lparr>br_hash = 5, br_round = 3, br_height = 1\<rparr>]"
  have "?reg = \<lparr>cr_checkpoints = [(3, sample_checkpoint 3)], cr_latest_round = 3\<rparr>"
    by (simp add: registry_step_def add_checkpoint_def registry_new_def sample_checkpoint_verifies)
      (simp add: sample_checkpoint_def)
  then have "verify_chain_against_checkpoints ?reg ?chain"
    and "map_of (cr_checkpoints ?reg) 3 = Some (sample_checkpoint 3)"
    by (simp_all add: verify_chain_against_checkpoints_def latest_checkpoint_def sample_checkpoint_def)
  then show ?thesis
    using accepted_chain_contains_checkpoints [OF refl, of toy_crypto "[(solo_set, sample_checkpoint 3)]" ?chain 3]
    by (simp add: Let_def)
qed

text \<open>Over any history of reported votes, double voting is detected for a validator in a round
  exactly when two different block hashes were reported for that validator and round.\<close>

lemma double_voting_detected_exactly:
  "(\<exists>e \<in> set (detect_double_voting r (track_votes hist tracker_new)). dv_validator e = v) \<longleftrightarrow>
     (\<exists>h1 h2. h1 \<noteq> h2 \<and> (v, r, h1) \<in> set hist \<and> (v, r, h2) \<in> set hist)"
proof -
  have "tracker_ok (track_votes hist tracker_new)"
    and "votes_of (track_votes hist tracker_new) v r = {h. (v, r, h) \<in> set hist}"
    using track_votes_spec [OF tracker_ok_new, of hist v r] by (auto simp: votes_of_def tracker_new_def)
  then show ?thesis by (simp add: detect_double_voting_iff)
qed

end
