(* ===== verification/Arc_Merkle.thy ===== *)
theory Arc_Merkle
  imports Arc_Prelude
begin

text \<open>
  The Merkle trees of \<open>crates/arc-crypto/src/merkle.rs\<close>: \<open>MerkleTree\<close> with its inclusion proofs
  and \<open>IncrementalMerkle\<close> with its path recomputation. The pair hash is the parameter \<open>hp\<close> and
  the empty root the parameter \<open>zero\<close>, over an arbitrary type of hashes, so that collision
  freedom can be stated as injectivity of \<open>hp\<close>. Rayon's parallel map is an ordinary map.
\<close>

section \<open>The tree\<close>

definition pad_even :: "'h list \<Rightarrow> 'h list" where
  "pad_even xs = (if odd (length xs) then xs @ [last xs] else xs)"

text \<open>\<open>chunks(2)\<close> mapped with the pair hash; a trailing single element is paired with itself.\<close>

fun pair_up :: "('h \<Rightarrow> 'h \<Rightarrow> 'h) \<Rightarrow> 'h list \<Rightarrow> 'h list" where
  "pair_up hp [] = []"
| "pair_up hp [a] = [hp a a]"
| "pair_up hp (a # b # xs) = hp a b # pair_up hp xs"

definition next_level :: "('h \<Rightarrow> 'h \<Rightarrow> 'h) \<Rightarrow> 'h list \<Rightarrow> 'h list" where
  "next_level hp cur =
     (let nxt = pair_up hp cur in
      if length nxt > 1 \<and> odd (length nxt) then nxt @ [last nxt] else nxt)"

lemma length_pair_up: "length (pair_up hp xs) = (length xs + 1) div 2"
  by (induction hp xs rule: pair_up.induct) auto

lemma length_next_level:
  "length (next_level hp cur) =
     (let n = (length cur + 1) div 2 in if n > 1 \<and> odd n then n + 1 else n)"
  by (simp add: next_level_def Let_def length_pair_up)

lemma length_next_level_less: "length cur > 1 \<Longrightarrow> length (next_level hp cur) < length cur"
  unfolding length_next_level Let_def by presburger

text \<open>The \<open>while current.len() > 1\<close> loop: the levels it pushes.\<close>

function level_loop :: "('h \<Rightarrow> 'h \<Rightarrow> 'h) \<Rightarrow> 'h list \<Rightarrow> 'h list list" where
  "level_loop hp cur =
     (if length cur > 1 then next_level hp cur # level_loop hp (next_level hp cur) else [])"
  by auto
termination
  by (relation "measure (\<lambda>(hp, cur). length cur)") (auto simp: length_next_level_less)

declare level_loop.simps [simp del]

definition from_leaves :: "('h \<Rightarrow> 'h \<Rightarrow> 'h) \<Rightarrow> 'h \<Rightarrow> 'h list \<Rightarrow> 'h list list" where
  "from_leaves hp zero leaves =
     (if leaves = [] then [[zero]] else pad_even leaves # level_loop hp (pad_even leaves))"

definition tree_root :: "'h \<Rightarrow> 'h list list \<Rightarrow> 'h" where
  "tree_root zero levels =
     (if levels = [] then zero else case last levels of [] \<Rightarrow> zero | h # _ \<Rightarrow> h)"

record 'h merkle_proof =
  mp_leaf :: 'h
  mp_index :: nat
  mp_siblings :: "('h \<times> bool) list"
  mp_root :: 'h

fun sibling_path :: "nat \<Rightarrow> 'h list list \<Rightarrow> ('h \<times> bool) list" where
  "sibling_path idx [] = []"
| "sibling_path idx (level # levels) =
     (let sibling_idx = (if even idx then idx + 1 else idx - 1);
          sibling = (if sibling_idx < length level then level ! sibling_idx else level ! idx)
      in (sibling, odd idx) # sibling_path (idx div 2) levels)"

definition merkle_proof_of :: "'h \<Rightarrow> 'h list list \<Rightarrow> nat \<Rightarrow> 'h merkle_proof option" where
  "merkle_proof_of zero levels index =
     (if index \<ge> length (hd levels) then None
      else Some \<lparr>mp_leaf = hd levels ! index, mp_index = index,
                 mp_siblings = sibling_path index (butlast levels),
                 mp_root = tree_root zero levels\<rparr>)"

definition climb :: "('h \<Rightarrow> 'h \<Rightarrow> 'h) \<Rightarrow> 'h \<Rightarrow> ('h \<times> bool) list \<Rightarrow> 'h" where
  "climb hp leaf siblings =
     foldl (\<lambda>cur (sibling, is_left). if is_left then hp sibling cur else hp cur sibling) leaf siblings"

definition verify_proof :: "('h \<Rightarrow> 'h \<Rightarrow> 'h) \<Rightarrow> 'h merkle_proof \<Rightarrow> bool" where
  "verify_proof hp p \<longleftrightarrow> climb hp (mp_leaf p) (mp_siblings p) = mp_root p"

section \<open>The incremental tree\<close>

record ('k, 'h) incremental =
  im_keys :: "'k list"
  im_leaves :: "'h list"
  im_levels :: "'h list list"
  im_real_lengths :: "nat list"
  im_key_index :: "('k, nat) store"

definition incremental_new :: "'h \<Rightarrow> ('k, 'h) incremental" where
  "incremental_new zero =
     \<lparr>im_keys = [], im_leaves = [], im_levels = [[zero]], im_real_lengths = [1], im_key_index = []\<rparr>"

definition reindex :: "'k::linorder list \<Rightarrow> ('k, nat) store" where
  "reindex keys = fold (\<lambda>(i, k). mput k i) (enumerate 0 keys) []"

text \<open>\<open>real_lengths\<close> of the levels pushed by the rebuild loop: the length before padding.\<close>

function real_loop :: "('h \<Rightarrow> 'h \<Rightarrow> 'h) \<Rightarrow> 'h list \<Rightarrow> nat list" where
  "real_loop hp cur =
     (if length cur > 1 then length (pair_up hp cur) # real_loop hp (next_level hp cur) else [])"
  by auto
termination
  by (relation "measure (\<lambda>(hp, cur). length cur)") (auto simp: length_next_level_less)

declare real_loop.simps [simp del]

definition rebuild ::
  "('h \<Rightarrow> 'h \<Rightarrow> 'h) \<Rightarrow> 'h \<Rightarrow> ('k, 'h) incremental \<Rightarrow> ('k, 'h) incremental" where
  "rebuild hp zero t =
     (if im_leaves t = [] then t\<lparr>im_levels := [[zero]], im_real_lengths := [1]\<rparr>
      else t\<lparr>im_levels := pad_even (im_leaves t) # level_loop hp (pad_even (im_leaves t)),
             im_real_lengths := length (im_leaves t) # real_loop hp (pad_even (im_leaves t))\<rparr>)"

text \<open>\<open>None\<close> is the assertion on duplicate keys.\<close>

definition from_keyed_leaves ::
  "('h \<Rightarrow> 'h \<Rightarrow> 'h) \<Rightarrow> 'h \<Rightarrow> ('k::linorder \<times> 'h) list \<Rightarrow> ('k, 'h) incremental option" where
  "from_keyed_leaves hp zero entries =
     (let sorted_entries = sort_key fst entries in
      if distinct_adj (map fst sorted_entries)
      then Some (rebuild hp zero
        \<lparr>im_keys = map fst sorted_entries, im_leaves = map snd sorted_entries, im_levels = [],
         im_real_lengths = [], im_key_index = reindex (map fst sorted_entries)\<rparr>)
      else None)"

definition insert_at :: "nat \<Rightarrow> 'a \<Rightarrow> 'a list \<Rightarrow> 'a list" where
  "insert_at i x xs = take i xs @ x # drop i xs"

definition remove_at :: "nat \<Rightarrow> 'a list \<Rightarrow> 'a list" where
  "remove_at i xs = take i xs @ drop (Suc i) xs"

text \<open>\<open>binary_search\<close> of an absent key in a sorted vector: the number of smaller keys.\<close>

definition insertion_point :: "'k::linorder \<Rightarrow> 'k list \<Rightarrow> nat" where
  "insertion_point k keys = length (takeWhile (\<lambda>x. x < k) keys)"

definition im_update ::
  "'k::linorder \<Rightarrow> 'h \<Rightarrow> ('k, 'h) incremental \<Rightarrow> (nat \<times> bool) \<times> ('k, 'h) incremental" where
  "im_update key hash t =
     (case map_of (im_key_index t) key of
        Some idx \<Rightarrow> ((idx, False), t\<lparr>im_leaves := (im_leaves t)[idx := hash]\<rparr>)
      | None \<Rightarrow>
          (let idx = insertion_point key (im_keys t);
               keys = insert_at idx key (im_keys t)
           in ((idx, True), t\<lparr>im_keys := keys, im_leaves := insert_at idx hash (im_leaves t),
                              im_key_index := reindex keys\<rparr>)))"

definition im_remove :: "'k::linorder \<Rightarrow> ('k, 'h) incremental \<Rightarrow> bool \<times> ('k, 'h) incremental" where
  "im_remove key t =
     (case map_of (im_key_index t) key of
        None \<Rightarrow> (False, t)
      | Some idx \<Rightarrow>
          (let keys = remove_at idx (im_keys t)
           in (True, t\<lparr>im_keys := keys, im_leaves := remove_at idx (im_leaves t),
                       im_key_index := reindex keys\<rparr>)))"

text \<open>One write into a level whose first \<open>real\<close> entries are not padding: writing the last real
  entry also writes the padding entry, when there is one.\<close>

definition write_real :: "nat \<Rightarrow> nat \<Rightarrow> 'h \<Rightarrow> 'h list \<Rightarrow> 'h list" where
  "write_real real i v level =
     (let level' = level[i := v] in
      if i = real - 1 \<and> length level' > real then level'[real := v] else level')"

definition with_twin :: "nat \<Rightarrow> 'h list \<Rightarrow> nat list \<Rightarrow> nat list" where
  "with_twin real level dirty =
     (if real > 0 \<and> length level > real \<and> real - 1 \<in> set dirty then List.insert real dirty else dirty)"

definition parent_hash :: "('h \<Rightarrow> 'h \<Rightarrow> 'h) \<Rightarrow> 'h list \<Rightarrow> nat \<Rightarrow> 'h" where
  "parent_hash hp level p =
     hp (level ! (2 * p)) (if 2 * p + 1 < length level then level ! (2 * p + 1) else level ! (2 * p))"

fun propagate ::
  "('h \<Rightarrow> 'h \<Rightarrow> 'h) \<Rightarrow> 'h list \<Rightarrow> nat list \<Rightarrow> ('h list \<times> nat) list \<Rightarrow> 'h list list" where
  "propagate hp cur dirty [] = []"
| "propagate hp cur dirty ((nxt, next_real) # rest) =
     (let dirty_parents = remdups (map (\<lambda>i. i div 2) dirty);
          nxt' = fold (\<lambda>p level. write_real next_real p (parent_hash hp cur p) level) dirty_parents nxt
      in nxt' # propagate hp nxt' (with_twin next_real nxt' dirty_parents) rest)"

text \<open>\<open>None\<close> is one of two out-of-bounds panics: of \<open>self.levels[lv][left]\<close>, when there is a level above
  the first and a dirty index is beyond the first (whose length is even then), and of \<open>self.leaves[idx]\<close>,
  when leaves were removed since the last rebuild.\<close>

definition recompute_paths ::
  "('h \<Rightarrow> 'h \<Rightarrow> 'h) \<Rightarrow> nat list \<Rightarrow> ('k, 'h) incremental \<Rightarrow> ('k, 'h) incremental option" where
  "recompute_paths hp dirty t =
     (if im_levels t = [] \<or> dirty = [] \<or> im_leaves t = [] then Some t
      else if \<exists>i \<in> set dirty. tl (im_levels t) \<noteq> [] \<and> length (hd (im_levels t)) \<le> i
              \<or> i < hd (im_real_lengths t) \<and> length (im_leaves t) \<le> i then None
      else
        let n_real = hd (im_real_lengths t);
            level0 = fold (\<lambda>i level. if i < n_real then write_real n_real i (im_leaves t ! i) level
                                     else level) dirty (hd (im_levels t));
            dirty0 = with_twin n_real level0 (remdups dirty)
        in Some (t\<lparr>im_levels :=
             level0 # propagate hp level0 dirty0 (zip (tl (im_levels t)) (tl (im_real_lengths t)))\<rparr>))"

definition im_root :: "'h \<Rightarrow> ('k, 'h) incremental \<Rightarrow> 'h" where
  "im_root zero t = tree_root zero (im_levels t)"

definition im_proof :: "'h \<Rightarrow> ('k, 'h) incremental \<Rightarrow> nat \<Rightarrow> 'h merkle_proof option" where
  "im_proof zero t index =
     (if im_levels t = [] \<or> im_real_lengths t = [] \<or> index \<ge> hd (im_real_lengths t) then None
      else merkle_proof_of zero (im_levels t) index)"

section \<open>Inclusion proofs\<close>

lemma nth_pair_up: "p < length (pair_up hp xs) \<Longrightarrow> pair_up hp xs ! p = parent_hash hp xs p"
proof (induction hp xs arbitrary: p rule: pair_up.induct)
  case (3 hp a b xs)
  then show ?case by (cases p) (auto simp: parent_hash_def)
qed (auto simp: parent_hash_def)

lemma nth_next_level:
  assumes "p < length (next_level hp cur)"
  shows "next_level hp cur ! p = parent_hash hp cur (min p (length (pair_up hp cur) - 1))"
proof (cases "p < length (pair_up hp cur)")
  case True
  then have "min p (length (pair_up hp cur) - 1) = p" by simp
  then show ?thesis using True by (auto simp: next_level_def Let_def nth_append nth_pair_up)
next
  case False
  then have "pair_up hp cur \<noteq> []" "p = length (pair_up hp cur)"
    using assms by (auto simp: next_level_def Let_def split: if_splits)
  then show ?thesis using assms
    by (auto simp: next_level_def Let_def nth_append last_conv_nth nth_pair_up split: if_splits)
qed

definition balanced :: "'h list \<Rightarrow> bool" where
  "balanced cur \<longleftrightarrow> even (length cur) \<or> length cur = 1"

lemma balanced_next_level: "length cur > 1 \<Longrightarrow> balanced (next_level hp cur)"
  by (auto simp: balanced_def length_next_level Let_def)

lemma balanced_pad_even: "balanced (pad_even xs)"
  by (auto simp: balanced_def pad_even_def)

lemma tree_root_Cons: "ls \<noteq> [] \<Longrightarrow> tree_root zero (l # ls) = tree_root zero ls"
  by (simp add: tree_root_def)

lemma climb_Cons:
  "climb hp leaf ((s, b) # ss) = climb hp (if b then hp s leaf else hp leaf s) ss"
  by (simp add: climb_def)

lemma sibling_step:
  assumes "even (length cur)" and "i < length cur"
  shows "(if odd i then hp (cur ! (i - 1)) (cur ! i) else hp (cur ! i) (cur ! (i + 1))) =
    parent_hash hp cur (i div 2)"
    and "(if even i then i + 1 else i - 1) < length cur"
proof -
  have "2 * (i div 2) + 1 < length cur" using assms by presburger
  moreover have "even i \<Longrightarrow> 2 * (i div 2) = i" "odd i \<Longrightarrow> 2 * (i div 2) = i - 1"
    by presburger+
  moreover have "odd i \<Longrightarrow> i - 1 + 1 = i" by (simp add: odd_pos)
  ultimately show "(if odd i then hp (cur ! (i - 1)) (cur ! i) else hp (cur ! i) (cur ! (i + 1))) =
    parent_hash hp cur (i div 2)"
    by (auto simp: parent_hash_def)
  show "(if even i then i + 1 else i - 1) < length cur" using assms by presburger
qed

lemma climb_path:
  assumes "balanced cur" and "i < length cur"
  shows "climb hp (cur ! i) (sibling_path i (butlast (cur # level_loop hp cur))) =
    tree_root zero (cur # level_loop hp cur)"
  using assms
proof (induction hp cur arbitrary: i rule: level_loop.induct)
  case (1 hp cur)
  show ?case
  proof (cases "length cur > 1")
    case True
    let ?nx = "next_level hp cur"
    have ev: "even (length cur)" using 1(2) True by (auto simp: balanced_def)
    have lt: "i div 2 < length (pair_up hp cur)" using 1(3) ev by (simp add: length_pair_up) presburger
    then have ltn: "i div 2 < length ?nx" by (auto simp: next_level_def Let_def)
    have up: "?nx ! (i div 2) = parent_hash hp cur (i div 2)"
      using nth_next_level [OF ltn] lt by (simp add: min_def)
    have loop: "level_loop hp cur = ?nx # level_loop hp ?nx" using True by (subst level_loop.simps) simp
    have "climb hp (cur ! i) (sibling_path i (butlast (cur # level_loop hp cur))) =
        climb hp (parent_hash hp cur (i div 2)) (sibling_path (i div 2) (butlast (?nx # level_loop hp ?nx)))"
      using sibling_step(1) [OF ev 1(3), of hp] sibling_step(2) [OF ev 1(3)]
      by (auto simp: loop climb_Cons Let_def split: if_splits)
    also have "\<dots> = tree_root zero (?nx # level_loop hp ?nx)"
      using 1(1) [OF True balanced_next_level [OF True] ltn] up by simp
    finally show ?thesis by (simp add: loop tree_root_Cons)
  next
    case False
    then have "level_loop hp cur = []" by (subst level_loop.simps) simp
    moreover obtain h where "cur = [h]" using False 1(3) by (cases cur) auto
    ultimately show ?thesis using 1(3) by (simp add: climb_def tree_root_def)
  qed
qed

lemma climb_inj:
  assumes inj: "\<And>a b c d. hp a b = hp c d \<Longrightarrow> a = c \<and> b = d"
    and "map snd s1 = map snd s2" and "climb hp a s1 = climb hp b s2"
  shows "a = b \<and> s1 = s2"
proof -
  have "length s1 = length s2" using assms(2) by (metis length_map)
  then show ?thesis using assms(2,3)
  proof (induction s1 s2 arbitrary: a b rule: list_induct2)
    case (Cons x s1 y s2)
    obtain s f t where x: "x = (s, f)" and y: "y = (t, f)" using Cons.prems(1) by (cases x; cases y) auto
    have "(if f then hp s a else hp a s) = (if f then hp t b else hp b t) \<and> s1 = s2"
      using Cons by (simp add: x y climb_Cons)
    then show ?case using inj [of s a t b] inj [of a s b t] by (cases f) (simp_all add: x y)
  qed (simp add: climb_def)
qed

section \<open>Path recomputation equals a rebuild\<close>

lemma nth_write_real:
  assumes "p < m" and "length level \<le> Suc m" and "i < length level"
  shows "write_real m p v level ! i = (if min i (m - 1) = p then v else level ! i)"
  using assms by (auto simp: write_real_def Let_def nth_list_update)

lemma length_write_real [simp]: "length (write_real m p v level) = length level"
  by (simp add: write_real_def Let_def)

lemma fold_write_real:
  assumes "\<forall>p \<in> set ps. p < m" and "length level \<le> Suc m"
  shows "length (fold (\<lambda>p l. write_real m p (f p) l) ps level) = length level \<and>
    (\<forall>i < length level. fold (\<lambda>p l. write_real m p (f p) l) ps level ! i =
       (if min i (m - 1) \<in> set ps then f (min i (m - 1)) else level ! i))"
  using assms
proof (induction ps arbitrary: level)
  case (Cons p ps)
  have "length (write_real m p (f p) level) \<le> Suc m" using Cons.prems by simp
  then have IH: "length (fold (\<lambda>p l. write_real m p (f p) l) ps (write_real m p (f p) level)) =
      length level"
    "\<forall>i < length level. fold (\<lambda>p l. write_real m p (f p) l) ps (write_real m p (f p) level) ! i =
       (if min i (m - 1) \<in> set ps then f (min i (m - 1)) else write_real m p (f p) level ! i)"
    using Cons.IH [of "write_real m p (f p) level"] Cons.prems by auto
  moreover have "\<forall>i < length level. write_real m p (f p) level ! i =
      (if min i (m - 1) = p then f p else level ! i)"
    using nth_write_real Cons.prems by fastforce
  ultimately show ?case by auto
qed simp

lemma length_next_level_bounds:
  "length (next_level hp cur) \<le> Suc (length (pair_up hp cur))"
  "length (pair_up hp cur) \<le> length (next_level hp cur)"
  by (auto simp: next_level_def Let_def)

lemma length_next_level_cong:
  "length cur' = length cur \<Longrightarrow> length (next_level hp cur') = length (next_level hp cur)"
  by (simp add: length_next_level)

lemma parent_hash_cong:
  assumes "length cur' = length cur" and "j < length (pair_up hp cur)"
    and "\<And>i. i < length cur \<Longrightarrow> i div 2 = j \<Longrightarrow> cur' ! i = cur ! i"
  shows "parent_hash hp cur' j = parent_hash hp cur j"
proof -
  have "2 * j < length cur" using assms(2) by (simp add: length_pair_up)
  then have "cur' ! (2 * j) = cur ! (2 * j)" using assms(3) [of "2 * j"] by simp
  moreover have "2 * j + 1 < length cur \<Longrightarrow> cur' ! (2 * j + 1) = cur ! (2 * j + 1)"
    using assms(3) [of "2 * j + 1"] by simp
  ultimately show ?thesis using assms(1) by (auto simp: parent_hash_def)
qed

lemma half_less: "i < n \<Longrightarrow> i div 2 < (n + 1) div (2 :: nat)"
  by presburger

lemma min_pred_less: "0 < n \<Longrightarrow> min i (n - 1) < (n :: nat)"
  by linarith

lemma twin_notin:
  assumes "0 < m" and "i < length level" and "length level \<le> Suc m"
    and "i \<notin> set (with_twin m level ps)"
  shows "min i (m - 1) \<notin> set ps"
proof (cases "i < m")
  case True
  then have "min i (m - 1) = i" by simp
  then show ?thesis using assms(4) by (auto simp: with_twin_def split: if_splits)
next
  case False
  then have "min i (m - 1) = m - 1" "i = m" using assms(2,3) by simp_all
  then show ?thesis using assms(1,2,4) by (auto simp: with_twin_def split: if_splits)
qed

text \<open>The level above, after the writes, is the level above of the changed level.\<close>

lemma propagate_level:
  assumes len: "length cur' = length cur" and ne: "cur \<noteq> []"
    and same: "\<And>i. i < length cur \<Longrightarrow> i \<notin> set dirty \<Longrightarrow> cur' ! i = cur ! i"
    and bound: "\<And>i. i \<in> set dirty \<Longrightarrow> i < length cur"
    and m_def: "m = length (pair_up hp cur)"
    and ps_def: "ps = remdups (map (\<lambda>i. i div 2) dirty)"
  shows "fold (\<lambda>p l. write_real m p (parent_hash hp cur' p) l) ps (next_level hp cur) =
    next_level hp cur'" (is "?new = _")
proof (rule nth_equalityI)
  have "\<forall>p \<in> set ps. p < m"
    using bound half_less by (auto simp: ps_def m_def length_pair_up simp del: One_nat_def add_Suc_right)
  then have new: "length ?new = length (next_level hp cur)"
    "\<forall>i < length (next_level hp cur). ?new ! i = (if min i (m - 1) \<in> set ps
       then parent_hash hp cur' (min i (m - 1)) else next_level hp cur ! i)"
    using fold_write_real [of ps m "next_level hp cur" "parent_hash hp cur'"]
      length_next_level_bounds(1) [of hp cur] by (auto simp: m_def)
  then show eq: "length ?new = length (next_level hp cur')"
    using length_next_level_cong [OF len] by metis
  fix i assume "i < length ?new"
  then have i: "i < length (next_level hp cur)" "i < length (next_level hp cur')" using new(1) eq by auto
  let ?j = "min i (m - 1)"
  have m: "length (pair_up hp cur') = m" "0 < m" using len ne by (auto simp: m_def length_pair_up)
  have "parent_hash hp cur' ?j = parent_hash hp cur ?j" if "?j \<notin> set ps"
  proof (rule parent_hash_cong [OF len])
    show "?j < length (pair_up hp cur)" using min_pred_less [OF m(2)] by (simp add: m_def)
    fix k assume k: "k < length cur" "k div 2 = ?j"
    then have "k \<notin> set dirty" using that unfolding ps_def set_remdups set_map by (metis imageI)
    then show "cur' ! k = cur ! k" using same k(1) by blast
  qed
  then show "?new ! i = next_level hp cur' ! i"
    using new(2) i nth_next_level [OF i(1)] nth_next_level [OF i(2)] m by (auto simp: m_def)
qed

lemma propagate_correct:
  assumes "length cur' = length cur" and "cur \<noteq> []"
    and "\<And>i. i < length cur \<Longrightarrow> i \<notin> set dirty \<Longrightarrow> cur' ! i = cur ! i"
    and "\<And>i. i \<in> set dirty \<Longrightarrow> i < length cur"
  shows "propagate hp cur' dirty (zip (level_loop hp cur) (real_loop hp cur)) = level_loop hp cur'"
  using assms
proof (induction hp cur arbitrary: cur' dirty rule: level_loop.induct)
  case (1 hp cur)
  show ?case
  proof (cases "length cur > 1")
    case False
    then have "level_loop hp cur = []" "level_loop hp cur' = []"
      using 1(2) by (simp_all add: level_loop.simps [of hp cur] level_loop.simps [of hp cur'])
    then show ?thesis by simp
  next
    case True
    let ?nx = "next_level hp cur" and ?nx' = "next_level hp cur'"
    let ?m = "length (pair_up hp cur)"
    let ?ps = "remdups (map (\<lambda>i. i div 2) dirty)"
    let ?dirty' = "with_twin ?m ?nx' ?ps"
    have level: "fold (\<lambda>p l. write_real ?m p (parent_hash hp cur' p) l) ?ps ?nx = ?nx'"
      using propagate_level [OF 1(2,3,4,5) refl refl] by blast
    have m: "0 < ?m" using True by (simp add: length_pair_up)
    have ps: "\<forall>p \<in> set ?ps. p < ?m"
      using 1(5) half_less by (auto simp: length_pair_up simp del: One_nat_def add_Suc_right)
    have len: "length ?nx' = length ?nx" by (rule length_next_level_cong [OF 1(2)])
    have "?nx \<noteq> []" using m length_next_level_bounds(2) [of hp cur] by auto
    have bound: "i < length ?nx" if "i \<in> set ?dirty'" for i
      using that ps len length_next_level_bounds(2) [of hp cur]
      by (auto simp: with_twin_def split: if_splits)
    have same: "?nx' ! i = ?nx ! i" if i: "i < length ?nx" "i \<notin> set ?dirty'" for i
    proof -
      have clean: "min i (?m - 1) \<notin> set ?ps"
        using twin_notin [OF m, of i ?nx' ?ps] i len length_next_level_bounds(1) [of hp cur] by simp
      have "?nx' ! i = (if min i (?m - 1) \<in> set ?ps then parent_hash hp cur' (min i (?m - 1))
          else ?nx ! i)"
        using fold_write_real [OF ps length_next_level_bounds(1), of "parent_hash hp cur'"] i(1)
        unfolding level by blast
      then show ?thesis using clean by (simp only: if_False)
    qed
    have loops: "level_loop hp cur = ?nx # level_loop hp ?nx" "real_loop hp cur = ?m # real_loop hp ?nx"
      "level_loop hp cur' = ?nx' # level_loop hp ?nx'"
      using True 1(2) by (simp_all add: level_loop.simps [of hp cur] level_loop.simps [of hp cur']
          real_loop.simps [of hp cur])
    show ?thesis
      using 1(1) [OF True len \<open>?nx \<noteq> []\<close> same bound] level by (simp add: loops Let_def)
  qed
qed

lemma real_loop_cong: "length cur' = length cur \<Longrightarrow> real_loop hp cur' = real_loop hp cur"
proof (induction hp cur arbitrary: cur' rule: level_loop.induct)
  case (1 hp cur)
  show ?case
  proof (cases "length cur > 1")
    case True
    then show ?thesis
      using 1(1) [OF True length_next_level_cong [OF 1(2)]] 1(2)
      by (simp add: real_loop.simps [of hp cur] real_loop.simps [of hp cur'] length_pair_up)
  next
    case False
    then show ?thesis using 1(2) by (simp add: real_loop.simps [of hp cur] real_loop.simps [of hp cur'])
  qed
qed

lemma nth_pad_even: "xs \<noteq> [] \<Longrightarrow> i < length (pad_even xs) \<Longrightarrow> pad_even xs ! i = xs ! min i (length xs - 1)"
proof (cases "i < length xs")
  case True
  then have "min i (length xs - 1) = i" by simp
  then show ?thesis using True by (simp add: pad_even_def nth_append)
next
  case False
  assume "xs \<noteq> []" and "i < length (pad_even xs)"
  then have "min i (length xs - 1) = length xs - 1" "odd (length xs)" "i = length xs"
    using False by (auto simp: pad_even_def split: if_splits)
  then show ?thesis using \<open>xs \<noteq> []\<close> by (simp add: pad_even_def nth_append last_conv_nth)
qed

lemma length_pad_even: "length xs \<le> length (pad_even xs)" "length (pad_even xs) \<le> Suc (length xs)"
  by (auto simp: pad_even_def)

lemma fold_guard:
  "\<forall>i \<in> set ps. i < n \<Longrightarrow> fold (\<lambda>i l. if i < n then g i l else l) ps level = fold g ps level"
  by (induction ps arbitrary: level) auto

lemma recompute_level0:
  assumes len: "length new = length old" and "old \<noteq> []"
    and same: "\<And>i. i < length old \<Longrightarrow> i \<notin> set dirty \<Longrightarrow> new ! i = old ! i"
    and bound: "\<forall>i \<in> set dirty. i < length old"
  shows "fold (\<lambda>i l. if i < length old then write_real (length old) i (new ! i) l else l) dirty
    (pad_even old) = pad_even new"
proof -
  let ?n = "length old"
  define r where "r = fold (\<lambda>i l. if i < length old then write_real (length old) i (new ! i) l else l)
    dirty (pad_even old)"
  have r: "length r = length (pad_even old)"
    "\<And>i. i < length (pad_even old) \<Longrightarrow> r ! i =
       (if min i (?n - 1) \<in> set dirty then new ! min i (?n - 1) else pad_even old ! i)"
    using fold_write_real [OF bound length_pad_even(2), of "\<lambda>i. new ! i"]
    by (simp_all add: r_def fold_guard [OF bound])
  have eq: "length r = length (pad_even new)" using r(1) len by (simp add: pad_even_def)
  have "r = pad_even new"
  proof (rule nth_equalityI [OF eq])
    fix i assume "i < length r"
    then have i: "i < length (pad_even old)" "i < length (pad_even new)" using r(1) eq by auto
    define k where "k = min i (?n - 1)"
    have "new \<noteq> []" and k: "k < ?n" using len assms(2) min_pred_less [of ?n i] by (auto simp: k_def)
    then have "pad_even new ! i = new ! k" "pad_even old ! i = old ! k"
      using nth_pad_even [OF _ i(2)] nth_pad_even [OF assms(2) i(1)] len by (simp_all add: k_def)
    moreover have "r ! i = (if k \<in> set dirty then new ! k else pad_even old ! i)"
      unfolding k_def by (rule r(2) [OF i(1)])
    ultimately show "r ! i = pad_even new ! i"
      using same [OF k] by (cases "k \<in> set dirty") simp_all
  qed
  then show ?thesis by (simp add: r_def)
qed

lemma recompute_rebuild:
  assumes len: "length new = length (im_leaves t)"
    and same: "\<And>i. i < length (im_leaves t) \<Longrightarrow> i \<notin> set dirty \<Longrightarrow> new ! i = im_leaves t ! i"
    and bound: "\<And>i. i \<in> set dirty \<Longrightarrow> i < length (im_leaves t)"
  shows "recompute_paths hp dirty ((rebuild hp zero t)\<lparr>im_leaves := new\<rparr>) =
    Some (rebuild hp zero (t\<lparr>im_leaves := new\<rparr>))"
proof (cases "im_leaves t = [] \<or> dirty = []")
  case True
  then have "new = im_leaves t" using len same bound by (auto intro: nth_equalityI)
  then show ?thesis using True by (auto simp: recompute_paths_def rebuild_def)
next
  case False
  let ?old = "im_leaves t"
  have ne: "?old \<noteq> []" "new \<noteq> []" "dirty \<noteq> []" using False len by auto
  let ?cur = "pad_even ?old" and ?cur' = "pad_even new"
  let ?d = "with_twin (length ?old) ?cur' (remdups dirty)"
  have in_range: "\<forall>i \<in> set dirty. i < length ?cur" using bound length_pad_even(1) [of ?old] by fastforce
  have lev0: "fold (\<lambda>i l. if i < length ?old then write_real (length ?old) i (new ! i) l else l) dirty
    ?cur = ?cur'"
    using recompute_level0 [OF len ne(1) same] bound by blast
  have len': "length ?cur' = length ?cur" using len by (simp add: pad_even_def)
  have same': "?cur' ! i = ?cur ! i" if i: "i < length ?cur" "i \<notin> set ?d" for i
  proof -
    have "min i (length ?old - 1) \<notin> set dirty"
      using twin_notin [of "length ?old" i ?cur' "remdups dirty"] i ne len'
        length_pad_even(2) [of ?old] by simp
    moreover have "min i (length ?old - 1) < length ?old" using ne(1) by (intro min_pred_less) simp
    ultimately show ?thesis
      using same nth_pad_even [OF ne(1) i(1)] nth_pad_even [OF ne(2), of i] i(1) len len' by simp
  qed
  have bound': "i < length ?cur" if "i \<in> set ?d" for i
    using that in_range len' by (auto simp: with_twin_def split: if_splits)
  have "?cur \<noteq> []" using ne(1) by (auto simp: pad_even_def)
  then have above: "propagate hp ?cur' ?d (zip (level_loop hp ?cur) (real_loop hp ?cur)) =
      level_loop hp ?cur'"
    using propagate_correct [OF len' _ same' bound'] by blast
  show ?thesis
    using ne in_range lev0 above real_loop_cong [OF len', of hp] len
    by (auto simp: recompute_paths_def rebuild_def Let_def not_le cong: if_cong)
qed

section \<open>The incremental tree refines a keyed store\<close>

text \<open>\<open>entries\<close> is the abstraction: the keys with their leaves, in key order.\<close>

definition entries :: "('k, 'h) incremental \<Rightarrow> ('k, 'h) store" where
  "entries t = zip (im_keys t) (im_leaves t)"

definition im_ok :: "('k::linorder, 'h) incremental \<Rightarrow> bool" where
  "im_ok t \<longleftrightarrow> sorted_wrt (<) (im_keys t) \<and> length (im_leaves t) = length (im_keys t) \<and>
     im_key_index t = reindex (im_keys t)"

lemma reindex_fold:
  assumes "distinct ks"
  shows "map_of (fold (\<lambda>(i, k). mput k i) (enumerate n ks) m) k =
    (if k \<in> set ks then Some (n + length (takeWhile (\<lambda>x. x \<noteq> k) ks)) else map_of m k)"
  using assms
proof (induction ks arbitrary: n m)
  case (Cons a ks)
  then show ?case by (auto simp: map_of_mput)
qed simp

lemma map_of_reindex:
  "distinct ks \<Longrightarrow> map_of (reindex ks) k =
     (if k \<in> set ks then Some (length (takeWhile (\<lambda>x. x \<noteq> k) ks)) else None)"
  by (simp add: reindex_def reindex_fold)

lemma zip_insert_at_mput:
  assumes "length hs = length ks" and "k \<notin> set ks"
  shows "zip (insert_at (insertion_point k ks) k ks) (insert_at (insertion_point k ks) h hs) =
    mput k h (zip ks hs)"
  using assms
proof (induction hs ks rule: list_induct2)
  case (Cons y ys a ks)
  then show ?case by (auto simp: insert_at_def insertion_point_def)
qed (simp add: insert_at_def insertion_point_def)

lemma zip_update_mput:
  assumes "length hs = length ks" and "sorted_wrt (<) ks" and "k \<in> set ks"
  shows "zip ks (hs[length (takeWhile (\<lambda>x. x \<noteq> k) ks) := h]) = mput k h (zip ks hs)"
  using assms
proof (induction hs ks rule: list_induct2)
  case (Cons y ys a ks)
  then show ?case by (cases "a = k") auto
qed simp

lemma zip_remove_at_mdel:
  assumes "length hs = length ks" and "distinct ks" and "k \<in> set ks"
  shows "zip (remove_at (length (takeWhile (\<lambda>x. x \<noteq> k) ks)) ks)
      (remove_at (length (takeWhile (\<lambda>x. x \<noteq> k) ks)) hs) = mdel k (zip ks hs)"
  using assms
proof (induction hs ks rule: list_induct2)
  case (Cons y ys a ks)
  show ?case
  proof (cases "a = k")
    case True
    then have "\<not> mhas (zip ks ys) k" using Cons.hyps Cons.prems by (auto simp: mhas_iff dest: set_zip_leftD)
    then have "mdel k (zip ks ys) = zip ks ys" by (rule mdel_absent)
    then show ?thesis using True by (simp add: remove_at_def mdel_def)
  next
    case False
    then show ?thesis using Cons by (simp add: remove_at_def mdel_def)
  qed
qed simp

lemma keys_of_entries: "im_ok t \<Longrightarrow> map fst (entries t) = im_keys t"
  by (simp add: im_ok_def entries_def)

lemma leaves_of_entries: "im_ok t \<Longrightarrow> map snd (entries t) = im_leaves t"
  by (simp add: im_ok_def entries_def)

lemma im_ok_index:
  assumes "im_ok t"
  shows "map_of (im_key_index t) k = (if k \<in> set (im_keys t)
    then Some (length (takeWhile (\<lambda>x. x \<noteq> k) (im_keys t))) else None)"
  using assms by (simp add: im_ok_def map_of_reindex strict_sorted_iff)

lemma im_update_refines:
  assumes "im_ok t"
  shows "entries (snd (im_update k h t)) = mput k h (entries t)" and "im_ok (snd (im_update k h t))"
proof -
  have lens: "length (im_leaves t) = length (im_keys t)" "sorted_wrt (<) (im_keys t)"
    "im_key_index t = reindex (im_keys t)"
    using assms by (simp_all add: im_ok_def)
  show ref: "entries (snd (im_update k h t)) = mput k h (entries t)"
    using zip_insert_at_mput [OF lens(1), of k h] zip_update_mput [OF lens(1,2), of k h]
      im_ok_index [OF assms, of k]
    by (auto simp: im_update_def entries_def Let_def)
  have "length (im_leaves (snd (im_update k h t))) = length (im_keys (snd (im_update k h t)))"
    using lens(1) by (auto simp: im_update_def Let_def insert_at_def split: option.splits)
  then have "map fst (entries (snd (im_update k h t))) = im_keys (snd (im_update k h t))"
    "length (im_leaves (snd (im_update k h t))) = length (im_keys (snd (im_update k h t)))"
    by (simp_all add: entries_def)
  moreover have "sorted_wrt (<) (map fst (mput k h (entries t)))"
    using mwf_mput [of "entries t" k h] lens(2) keys_of_entries [OF assms] by (simp add: mwf_def)
  ultimately show "im_ok (snd (im_update k h t))"
    using ref lens(3)
    by (auto simp: im_ok_def im_update_def Let_def split: option.splits)
qed

lemma im_remove_refines:
  assumes "im_ok t"
  shows "entries (snd (im_remove k t)) = mdel k (entries t)" and "im_ok (snd (im_remove k t))"
proof -
  have lens: "length (im_leaves t) = length (im_keys t)" "sorted_wrt (<) (im_keys t)"
    "im_key_index t = reindex (im_keys t)"
    using assms by (simp_all add: im_ok_def)
  have "k \<notin> set (im_keys t) \<Longrightarrow> mdel k (entries t) = entries t"
    using keys_of_entries [OF assms] by (intro mdel_absent) (metis mhas_iff set_map)
  then show ref: "entries (snd (im_remove k t)) = mdel k (entries t)"
    using zip_remove_at_mdel [OF lens(1), of k] im_ok_index [OF assms, of k] lens(2)
    by (auto simp: im_remove_def entries_def Let_def strict_sorted_iff)
  have len: "length (im_leaves (snd (im_remove k t))) = length (im_keys (snd (im_remove k t)))"
    using lens(1) by (auto simp: im_remove_def Let_def remove_at_def split: option.splits)
  then have "map fst (entries (snd (im_remove k t))) = im_keys (snd (im_remove k t))"
    by (simp add: entries_def)
  moreover have "sorted_wrt (<) (map fst (mdel k (entries t)))"
    using mwf_mdel [of "entries t" k] lens(2) keys_of_entries [OF assms] by (simp add: mwf_def)
  ultimately show "im_ok (snd (im_remove k t))"
    using ref lens(3) len
    by (auto simp: im_ok_def im_remove_def Let_def split: option.splits)
qed

lemma rebuild_levels: "im_levels (rebuild hp zero t) = from_leaves hp zero (im_leaves t)"
  by (simp add: rebuild_def from_leaves_def)

lemma rebuild_entries: "entries (rebuild hp zero t) = entries t" "im_ok (rebuild hp zero t) = im_ok t"
  by (simp_all add: rebuild_def entries_def im_ok_def)

text \<open>A tree driven by any sequence of updates and removals.\<close>

datatype ('k, 'h) tree_call = Put 'k 'h | Remove 'k

fun tree_step :: "('k::linorder, 'h) incremental \<Rightarrow> ('k, 'h) tree_call \<Rightarrow> ('k, 'h) incremental" where
  "tree_step t (Put k h) = snd (im_update k h t)"
| "tree_step t (Remove k) = snd (im_remove k t)"

fun store_step :: "('k::linorder, 'h) store \<Rightarrow> ('k, 'h) tree_call \<Rightarrow> ('k, 'h) store" where
  "store_step m (Put k h) = mput k h m"
| "store_step m (Remove k) = mdel k m"

lemma tree_step_refines:
  "im_ok t \<Longrightarrow> entries (tree_step t c) = store_step (entries t) c \<and> im_ok (tree_step t c)"
  by (cases c) (simp_all add: im_update_refines im_remove_refines)

interpretation tree: machine tree_step im_ok
  by unfold_locales (simp add: tree_step_refines)

lemma tree_run_refines:
  "im_ok t \<Longrightarrow> entries (foldl tree_step t cs) = foldl store_step (entries t) cs"
proof (induction cs arbitrary: t)
  case (Cons c cs)
  then show ?case using tree_step_refines [OF Cons.prems, of c] by simp
qed simp

lemma im_ok_new: "im_ok (incremental_new zero)"
  by (simp add: im_ok_def incremental_new_def reindex_def)

section \<open>Properties\<close>

text \<open>C17: every inclusion proof a Merkle tree hands out for a leaf position (padding included)
  names the leaf at that position and passes verification against the tree's root.\<close>

theorem merkle_proofs_verify:
  assumes "leaves \<noteq> []" and "merkle_proof_of zero (from_leaves hp zero leaves) i = Some p"
  shows "verify_proof hp p \<and> mp_root p = tree_root zero (from_leaves hp zero leaves) \<and>
    mp_leaf p = leaves ! min i (length leaves - 1)"
proof -
  have levels: "from_leaves hp zero leaves = pad_even leaves # level_loop hp (pad_even leaves)"
    using assms(1) by (simp add: from_leaves_def)
  have i: "i < length (pad_even leaves)"
    and p: "p = \<lparr>mp_leaf = pad_even leaves ! i, mp_index = i,
      mp_siblings = sibling_path i (butlast (pad_even leaves # level_loop hp (pad_even leaves))),
      mp_root = tree_root zero (pad_even leaves # level_loop hp (pad_even leaves))\<rparr>"
    using assms(2) by (auto simp: merkle_proof_of_def levels split: if_splits)
  show ?thesis
    using climb_path [OF balanced_pad_even i] nth_pad_even [OF assms(1) i]
    by (simp add: p levels verify_proof_def)
qed

theorem merkle_proofs_verify_witness:
  "\<exists>p. merkle_proof_of 0 (from_leaves (\<lambda>a b. 2 * a + 3 * b + 1) 0 [5, 7, 9 :: nat]) 2 = Some p \<and>
     verify_proof (\<lambda>a b. 2 * a + 3 * b + 1) p \<and> mp_leaf p = 9"
  using merkle_proofs_verify [of "[5, 7, 9 :: nat]" 0 "\<lambda>a b. 2 * a + 3 * b + 1" 2]
  by (simp add: merkle_proof_of_def from_leaves_def pad_even_def)

text \<open>C18: two proofs with the same left/right path that verify against the same root prove the
  same leaf with the same siblings, when the pair hash has no collisions.\<close>

theorem merkle_proofs_sound:
  assumes "\<And>a b c d. hp a b = hp c d \<Longrightarrow> a = c \<and> b = d"
    and "verify_proof hp p" and "verify_proof hp q" and "mp_root p = mp_root q"
    and "map snd (mp_siblings p) = map snd (mp_siblings q)"
  shows "mp_leaf p = mp_leaf q \<and> mp_siblings p = mp_siblings q"
proof -
  have "climb hp (mp_leaf p) (mp_siblings p) = climb hp (mp_leaf q) (mp_siblings q)"
    using assms(2-4) by (simp add: verify_proof_def)
  then show ?thesis by (intro climb_inj [of hp, OF _ assms(5)]) (erule assms(1))
qed

datatype symbolic_hash = Atom nat | Node symbolic_hash symbolic_hash

theorem merkle_proofs_sound_witness:
  "let p = \<lparr>mp_leaf = Atom 1, mp_index = 0, mp_siblings = [(Atom 2, False)],
            mp_root = Node (Atom 1) (Atom 2)\<rparr>;
       q = p\<lparr>mp_index := 7\<rparr>
   in verify_proof Node p \<and> verify_proof Node q \<and> mp_leaf p = mp_leaf q"
  using merkle_proofs_sound [of Node
      "\<lparr>mp_leaf = Atom 1, mp_index = 0, mp_siblings = [(Atom 2, False)], mp_root = Node (Atom 1) (Atom 2)\<rparr>"
      "\<lparr>mp_leaf = Atom 1, mp_index = 7, mp_siblings = [(Atom 2, False)], mp_root = Node (Atom 1) (Atom 2)\<rparr>"]
  by (simp add: verify_proof_def climb_def)

text \<open>C19: recomputing only the paths of the changed leaves gives exactly the levels a full rebuild
  gives, for every set of changed leaves inside the tree.\<close>

theorem recompute_paths_is_rebuild:
  assumes "length new = length (im_leaves t)"
    and "\<forall>i < length (im_leaves t). i \<notin> set dirty \<longrightarrow> new ! i = im_leaves t ! i"
    and "\<forall>i \<in> set dirty. i < length (im_leaves t)"
  shows "recompute_paths hp dirty ((rebuild hp zero t)\<lparr>im_leaves := new\<rparr>) =
    Some (rebuild hp zero (t\<lparr>im_leaves := new\<rparr>))"
  using recompute_rebuild [of new t dirty] assms by blast

theorem recompute_paths_is_rebuild_witness:
  "recompute_paths (\<lambda>a b. 2 * a + 3 * b + 1) [2]
     ((rebuild (\<lambda>a b. 2 * a + 3 * b + 1) 0
        \<lparr>im_keys = [1, 2, 3 :: nat], im_leaves = [5, 7, 9 :: nat], im_levels = [],
         im_real_lengths = [], im_key_index = reindex [1, 2, 3]\<rparr>)\<lparr>im_leaves := [5, 7, 8]\<rparr>) =
   Some (rebuild (\<lambda>a b. 2 * a + 3 * b + 1) 0
        \<lparr>im_keys = [1, 2, 3 :: nat], im_leaves = [5, 7, 8 :: nat], im_levels = [],
         im_real_lengths = [], im_key_index = reindex [1, 2, 3]\<rparr>)"
  using recompute_paths_is_rebuild [of "[5, 7, 8 :: nat]"
      "\<lparr>im_keys = [1, 2, 3 :: nat], im_leaves = [5, 7, 9 :: nat], im_levels = [],
         im_real_lengths = [], im_key_index = reindex [1, 2, 3]\<rparr>" "[2]"
      "\<lambda>a b. 2 * a + 3 * b + 1" 0]
  by (simp add: less_Suc_eq numeral_2_eq_2 numeral_3_eq_3)

text \<open>C20: after any sequence of updates and removals, the rebuilt incremental tree has the root of
  \<open>from_leaves\<close> over the leaves in key order of the store the same calls produce.\<close>

theorem incremental_refines_store:
  "im_root zero (rebuild hp zero (foldl tree_step (incremental_new zero) cs)) =
   tree_root zero (from_leaves hp zero (map snd (foldl store_step [] cs)))"
proof -
  let ?t = "foldl tree_step (incremental_new zero) cs"
  have ok: "im_ok ?t" by (rule tree.run_inv [OF im_ok_new])
  have "entries ?t = foldl store_step [] cs"
    using tree_run_refines [OF im_ok_new] by (simp add: entries_def incremental_new_def)
  then show ?thesis
    using leaves_of_entries [OF ok] by (simp add: im_root_def rebuild_levels)
qed

end
