(* ===== verification/Arc_Availability.thy ===== *)
theory Arc_Availability
  imports Arc_Crypto Arc_Merkle
begin

unbundle bit_operations_syntax

text \<open>
  Erasure coding and data-availability commitments of
  \<open>crates/arc-consensus/src/data_availability.rs\<close>: \<open>encode_block_data\<close>, \<open>decode_block_data\<close>
  with its parity recovery loop, \<open>create_da_commitment\<close> and \<open>verify_da_commitment\<close>. A failed
  assertion is \<open>None\<close>. The random sampler is not modelled.
\<close>

section \<open>Chunks\<close>

record data_chunk =
  ch_index :: u16
  ch_data :: "u8 list"
  ch_proof :: hash256

record erasure_encoding =
  ee_original_size :: nat
  ee_chunk_count :: u16
  ee_data_chunks :: u16
  ee_parity_chunks :: u16
  ee_chunks :: "data_chunk list"
  ee_root :: hash256

definition chunk_new :: "'z crypto_scheme \<Rightarrow> u16 \<Rightarrow> u8 list \<Rightarrow> data_chunk" where
  "chunk_new cr i data = \<lparr>ch_index = i, ch_data = data, ch_proof = hash_bytes cr data\<rparr>"

definition verify_integrity :: "'z crypto_scheme \<Rightarrow> data_chunk \<Rightarrow> bool" where
  "verify_integrity cr c \<longleftrightarrow> hash_bytes cr (ch_data c) = ch_proof c"

section \<open>Encoding\<close>

definition chunk_size :: "nat \<Rightarrow> nat \<Rightarrow> nat" where
  "chunk_size original_size k = (if original_size = 0 then 1 else (original_size + k - 1) div k)"

definition resize :: "nat \<Rightarrow> u8 list \<Rightarrow> u8 list" where
  "resize n xs = take n xs @ replicate (n - length xs) 0"

definition raw_chunk :: "u8 list \<Rightarrow> nat \<Rightarrow> nat \<Rightarrow> u8 list" where
  "raw_chunk data csize i =
     (let start = i * csize; stop = min (start + csize) (length data) in
      resize csize (if start < length data then take (stop - start) (drop start data) else []))"

text \<open>\<open>acc[i] ^= byte\<close> for every byte of the second list that the first one has a place for.\<close>

fun xor_bytes :: "u8 list \<Rightarrow> u8 list \<Rightarrow> u8 list" where
  "xor_bytes [] bs = []"
| "xor_bytes as [] = as"
| "xor_bytes (a # as) (b # bs) = (a XOR b) # xor_bytes as bs"

definition parity_chunks :: "nat \<Rightarrow> nat \<Rightarrow> u8 list list \<Rightarrow> u8 list list" where
  "parity_chunks csize p raw =
     fold (\<lambda>(i, c) par. par[i mod p := xor_bytes (par ! (i mod p)) c]) (enumerate 0 raw)
       (replicate p (replicate csize 0))"

definition encode_block_data ::
  "'z crypto_scheme \<Rightarrow> u8 list \<Rightarrow> u16 \<Rightarrow> u16 \<Rightarrow> erasure_encoding option" where
  "encode_block_data cr data dc pc =
     (if dc = 0 \<or> pc = 0 then None
      else
        let k = unat dc; p = unat pc; csize = chunk_size (length data) k;
            raw = map (raw_chunk data csize) [0..<k];
            parity = parity_chunks csize p raw;
            chunks = map (\<lambda>(i, c). chunk_new cr (word_of_nat i) c) (enumerate 0 raw) @
                     map (\<lambda>(j, c). chunk_new cr (word_of_nat (k + j)) c) (enumerate 0 parity)
        in Some \<lparr>ee_original_size = length data, ee_chunk_count = word_of_nat (k + p),
                 ee_data_chunks = dc, ee_parity_chunks = pc, ee_chunks = chunks,
                 ee_root = tree_root 0 (from_leaves (hash_pair cr) 0 (map ch_proof chunks))\<rparr>)"

section \<open>Decoding\<close>

type_synonym slots = "u8 list option list"

definition fill_slots ::
  "'z crypto_scheme \<Rightarrow> nat \<Rightarrow> nat \<Rightarrow> data_chunk list \<Rightarrow> slots \<times> slots" where
  "fill_slots cr k p chunks =
     foldl (\<lambda>(ds, ps) c.
       let idx = unat (ch_index c) in
       if \<not> verify_integrity cr c then (ds, ps)
       else if idx < k then (ds[idx := Some (ch_data c)], ps)
       else if idx < k + p then (ds, ps[idx - k := Some (ch_data c)])
       else (ds, ps)) (replicate k None, replicate p None) chunks"

definition group_indices :: "nat \<Rightarrow> nat \<Rightarrow> nat \<Rightarrow> nat list" where
  "group_indices k p j = filter (\<lambda>i. i mod p = j) [0..<k]"

definition reconstruct :: "u8 list \<Rightarrow> nat \<Rightarrow> nat list \<Rightarrow> slots \<Rightarrow> u8 list" where
  "reconstruct parity_data missing_idx grp ds =
     foldl (\<lambda>acc i. if i \<noteq> missing_idx
                    then (case ds ! i of Some c \<Rightarrow> xor_bytes acc c | None \<Rightarrow> acc) else acc)
       parity_data grp"

definition recover_group :: "nat \<Rightarrow> nat \<Rightarrow> slots \<Rightarrow> slots \<times> bool \<Rightarrow> nat \<Rightarrow> slots \<times> bool" where
  "recover_group k p ps st j =
     (case ps ! j of
        None \<Rightarrow> st
      | Some parity_data \<Rightarrow>
          (let ds = fst st; grp = group_indices k p j in
           case filter (\<lambda>i. ds ! i = None) grp of
             [missing_idx] \<Rightarrow>
               (ds[missing_idx := Some (reconstruct parity_data missing_idx grp ds)], True)
           | _ \<Rightarrow> st))"

definition recover_pass :: "nat \<Rightarrow> nat \<Rightarrow> slots \<Rightarrow> slots \<Rightarrow> slots \<times> bool" where
  "recover_pass k p ps ds = foldl (recover_group k p ps) (ds, False) [0..<length ps]"

definition unfilled :: "slots \<Rightarrow> nat" where
  "unfilled ds = length (filter (\<lambda>s. s = None) ds)"

lemma unfilled_update:
  assumes "i < length ds" and "ds ! i = None"
  shows "unfilled (ds[i := Some c]) < unfilled ds"
proof -
  have "ds = take i ds @ None # drop (Suc i) ds" using assms by (metis id_take_nth_drop)
  then have "unfilled ds = unfilled (take i ds @ None # drop (Suc i) ds)" by (rule arg_cong)
  moreover have "ds[i := Some c] = take i ds @ Some c # drop (Suc i) ds"
    using assms(1) by (rule upd_conv_take_nth_drop)
  ultimately show ?thesis by (simp add: unfilled_def)
qed

text \<open>A pass keeps the number of slots; if it recovered anything, fewer slots are unfilled.\<close>

lemma recover_group_measure:
  assumes "length ds = k"
  shows "length (fst (recover_group k p ps (ds, b) j)) = k"
    and "unfilled (fst (recover_group k p ps (ds, b) j)) \<le> unfilled ds"
    and "snd (recover_group k p ps (ds, b) j) \<Longrightarrow>
      b \<or> unfilled (fst (recover_group k p ps (ds, b) j)) < unfilled ds"
proof -
  let ?r = "recover_group k p ps (ds, b) j"
  have "?r = (ds, b) \<or> (\<exists>m c. m < k \<and> ds ! m = None \<and> ?r = (ds[m := Some c], True))"
  proof (cases "filter (\<lambda>i. ds ! i = None) (group_indices k p j)")
    case (Cons m ms)
    then have "m \<in> set (filter (\<lambda>i. ds ! i = None) (group_indices k p j))" by simp
    then have "m < k" "ds ! m = None" by (auto simp: group_indices_def)
    then show ?thesis using Cons
      by (auto simp: recover_group_def Let_def split: option.splits list.splits)
  qed (auto simp: recover_group_def Let_def split: option.splits)
  then show "length (fst ?r) = k" "unfilled (fst ?r) \<le> unfilled ds"
    "snd ?r \<Longrightarrow> b \<or> unfilled (fst ?r) < unfilled ds"
    using assms unfilled_update by (auto simp: less_imp_le)
qed

lemma recover_groups_measure:
  assumes "length ds = k"
  shows "length (fst (foldl (recover_group k p ps) (ds, b) js)) = k \<and>
    unfilled (fst (foldl (recover_group k p ps) (ds, b) js)) \<le> unfilled ds \<and>
    (snd (foldl (recover_group k p ps) (ds, b) js) \<longrightarrow>
      b \<or> unfilled (fst (foldl (recover_group k p ps) (ds, b) js)) < unfilled ds)"
  using assms
proof (induction js arbitrary: ds b)
  case (Cons j js)
  obtain ds1 b1 where r: "recover_group k p ps (ds, b) j = (ds1, b1)" by (cases "recover_group k p ps (ds, b) j")
  note m = recover_group_measure [OF Cons.prems, of p ps b j, unfolded r]
  have "length ds1 = k" using m(1) by simp
  then show ?case using Cons.IH [of ds1 b1] m(2,3) by (auto simp: r)
qed simp

text \<open>The \<open>while recovered\<close> loop. The slots vector has length \<open>k\<close> throughout (\<open>vec![None; k]\<close>),
  which the guard repeats for the termination proof.\<close>

function recover_loop :: "nat \<Rightarrow> nat \<Rightarrow> slots \<Rightarrow> slots \<Rightarrow> slots" where
  "recover_loop k p ps ds =
     (let (ds', recovered) = recover_pass k p ps ds in
      if length ds = k \<and> recovered \<and> \<not> list_all (\<lambda>s. s \<noteq> None) ds' then recover_loop k p ps ds'
      else ds')"
  by auto
termination
proof (relation "measure (\<lambda>(k, p, ps, ds). unfilled ds)", goal_cases)
  case (2 k p ps ds x ds' recovered)
  then have "recover_pass k p ps ds = (ds', recovered)" "length ds = k" "recovered" by simp_all
  then show ?case
    using recover_groups_measure [of ds k p ps False "[0..<length ps]"]
    by (simp add: recover_pass_def)
qed simp

declare recover_loop.simps [simp del]

definition decode_block_data :: "'z crypto_scheme \<Rightarrow> erasure_encoding \<Rightarrow> string + u8 list" where
  "decode_block_data cr e =
     (let k = unat (ee_data_chunks e); p = unat (ee_parity_chunks e) in
      if ee_chunks e = [] then Inl ''no chunks available''
      else
        let (ds, ps) = fill_slots cr k p (ee_chunks e);
            available_data = k - unfilled ds; available_parity = p - unfilled ps
        in if available_data + available_parity < k then Inl ''insufficient chunks''
           else if available_data = k
           then Inr (take (ee_original_size e) (concat (map the ds)))
           else
             let ds' = recover_loop k p ps ds in
             if list_all (\<lambda>s. s \<noteq> None) ds'
             then Inr (take (ee_original_size e) (concat (map the ds')))
             else Inl ''could not reconstruct all data chunks from available parity'')"

section \<open>Commitments\<close>

record da_commitment =
  da_block_hash :: hash256
  da_data_root :: hash256
  da_chunk_count :: u16
  da_data_chunks :: u16
  da_encoding_root :: hash256

text \<open>The fixed parameters \<open>k = p = 4\<close> pass the assertions, so the encoding always exists
  (\<open>encode_default\<close>).\<close>

definition create_da_commitment :: "'z crypto_scheme \<Rightarrow> u8 list \<Rightarrow> hash256 \<Rightarrow> da_commitment option" where
  "create_da_commitment cr block_data block_hash =
     map_option (\<lambda>e. \<lparr>da_block_hash = block_hash, da_data_root = hash_bytes cr block_data,
                      da_chunk_count = ee_chunk_count e, da_data_chunks = ee_data_chunks e,
                      da_encoding_root = ee_root e\<rparr>)
       (encode_block_data cr block_data 4 4)"

definition verify_da_commitment :: "'z crypto_scheme \<Rightarrow> da_commitment \<Rightarrow> data_chunk \<Rightarrow> bool" where
  "verify_da_commitment cr cm c \<longleftrightarrow>
     (if da_chunk_count cm \<le> ch_index c then False
      else if \<not> verify_integrity cr c then False else True)"

definition verify_chunk :: "'z crypto_scheme \<Rightarrow> data_chunk \<Rightarrow> hash256 \<Rightarrow> u16 \<Rightarrow> bool" where
  "verify_chunk cr c root total_chunks \<longleftrightarrow> verify_integrity cr c"

section \<open>Padding and splitting lose nothing\<close>

lemma length_resize [simp]: "length (resize n xs) = n"
  by (simp add: resize_def)

lemma length_raw_chunk [simp]: "length (raw_chunk data n i) = n"
  by (simp add: raw_chunk_def Let_def)

lemma raw_chunk_resize: "raw_chunk data n i = resize n (drop (i * n) data)"
  by (auto simp: raw_chunk_def resize_def Let_def min_def)

lemma resize_add: "resize (m + n) xs = resize m xs @ resize n (drop m xs)"
proof (cases "m \<le> length xs")
  case True
  then show ?thesis by (simp add: resize_def take_add)
next
  case False
  then have "m + n - length xs = (m - length xs) + n" by simp
  then have "replicate (m + n - length xs) (0 :: u8) = replicate (m - length xs) 0 @ replicate n 0"
    by (metis replicate_add)
  then show ?thesis using False by (simp add: resize_def)
qed

lemma concat_raw_chunks: "concat (map (raw_chunk data n) [0..<k]) = resize (k * n) data"
proof (induction k)
  case (Suc k)
  have "resize (Suc k * n) data = resize (k * n) data @ resize n (drop (k * n) data)"
    using resize_add [of "k * n" n data] by (simp add: add.commute)
  then show ?case using Suc by (simp add: raw_chunk_resize)
qed (simp add: resize_def)

lemma take_resize: "length xs \<le> n \<Longrightarrow> take (length xs) (resize n xs) = xs"
  by (simp add: resize_def)

lemma chunk_size_covers: "0 < k \<Longrightarrow> n \<le> k * chunk_size n k"
proof (cases "n = 0")
  case False
  assume k: "0 < k"
  have "n + k - 1 = k * ((n + k - 1) div k) + (n + k - 1) mod k" by simp
  moreover have "(n + k - 1) mod k < k" using k by simp
  ultimately have "n \<le> k * ((n + k - 1) div k)" using k by linarith
  then show ?thesis using False by (simp add: chunk_size_def)
qed simp

section \<open>Exclusive or of byte strings\<close>

lemma length_xor_bytes [simp]: "length (xor_bytes as bs) = length as"
  by (induction as bs rule: xor_bytes.induct) simp_all

lemma nth_xor_bytes: "length as = length bs \<Longrightarrow> t < length as \<Longrightarrow> xor_bytes as bs ! t = as ! t XOR bs ! t"
proof (induction as bs arbitrary: t rule: xor_bytes.induct)
  case (3 a as b bs)
  then show ?case by (cases t) auto
qed auto

definition xor_sum :: "u8 list \<Rightarrow> u8" where
  "xor_sum xs = foldr (XOR) xs 0"

lemma xor_sum_simps [simp]:
  "xor_sum [] = 0" "xor_sum (x # xs) = x XOR xor_sum xs"
  by (simp_all add: xor_sum_def)

lemma foldl_xor: "foldl (XOR) a xs = a XOR xor_sum xs"
  by (induction xs arbitrary: a) (simp_all add: xor.assoc)

lemma xor_sum_remove:
  assumes "distinct is" and "m \<in> set is"
  shows "xor_sum (map f is) = f m XOR xor_sum (map f (filter (\<lambda>i. i \<noteq> m) is))"
  using assms
proof (induction "is")
  case (Cons i "is")
  show ?case
  proof (cases "i = m")
    case True
    then have "filter (\<lambda>i. i \<noteq> m) is = is" using Cons.prems by (auto intro: filter_True)
    then show ?thesis using True by simp
  next
    case False
    then show ?thesis using Cons by (simp add: ac_simps)
  qed
qed simp

lemma length_foldl_xor_bytes [simp]: "length (foldl xor_bytes acc cs) = length acc"
  by (induction cs arbitrary: acc) simp_all

lemma nth_foldl_xor_bytes:
  assumes "\<forall>c \<in> set cs. length c = length acc" and "t < length acc"
  shows "length (foldl xor_bytes acc cs) = length acc \<and>
    foldl xor_bytes acc cs ! t = acc ! t XOR xor_sum (map (\<lambda>c. c ! t) cs)"
  using assms
proof (induction cs arbitrary: acc)
  case (Cons c cs)
  then show ?case using Cons.IH [of "xor_bytes acc c"] by (simp add: nth_xor_bytes xor.assoc)
qed simp

section \<open>Parity chunks\<close>

lemma group_indices_Suc:
  "group_indices (Suc k) p j = group_indices k p j @ (if k mod p = j then [k] else [])"
  by (simp add: group_indices_def)

lemma parity_chunks_snoc:
  "parity_chunks n p (raw @ [c]) =
     (parity_chunks n p raw)[length raw mod p := xor_bytes (parity_chunks n p raw ! (length raw mod p)) c]"
  by (simp add: parity_chunks_def enumerate_append_eq)

lemma parity_chunks_spec:
  assumes "0 < p"
  shows "length (parity_chunks n p raw) = p \<and>
    (\<forall>j < p. parity_chunks n p raw ! j =
       foldl xor_bytes (replicate n 0) (map (nth raw) (group_indices (length raw) p j)))"
proof (induction raw rule: rev_induct)
  case Nil
  then show ?case by (simp add: parity_chunks_def group_indices_def)
next
  case (snoc c raw)
  have old: "map (nth (raw @ [c])) (group_indices (length raw) p j) =
      map (nth raw) (group_indices (length raw) p j)" for j
    by (rule map_cong) (auto simp: group_indices_def nth_append)
  show ?case
    using snoc assms by (auto simp: parity_chunks_snoc group_indices_Suc old nth_list_update)
qed

text \<open>XORing the parity chunk with the other members of its group gives the missing member.\<close>

lemma reconstruct_missing:
  assumes raw: "\<forall>c \<in> set raw. length c = n" and "length raw = k" and "0 < p" and "j < p"
    and m: "m \<in> set (group_indices k p j)"
    and present: "\<And>i. i \<in> set (group_indices k p j) \<Longrightarrow> i \<noteq> m \<Longrightarrow> ds ! i = Some (raw ! i)"
  shows "reconstruct (parity_chunks n p raw ! j) m (group_indices k p j) ds = raw ! m"
proof -
  let ?g = "group_indices k p j" and ?par = "parity_chunks n p raw ! j"
  have in_k: "\<And>i. i \<in> set ?g \<Longrightarrow> i < k" by (auto simp: group_indices_def)
  have len: "\<And>i. i < k \<Longrightarrow> length (raw ! i) = n" using raw assms(2) by simp
  have rec: "reconstruct ?par m is ds = foldl xor_bytes ?par (map (nth raw) (filter (\<lambda>i. i \<noteq> m) is))"
    if "set is \<subseteq> set ?g" for "is"
    using that
  proof (induction "is" rule: rev_induct)
    case (snoc i "is")
    then show ?case using present [of i] by (auto simp: reconstruct_def)
  qed (simp add: reconstruct_def)
  have par: "?par = foldl xor_bytes (replicate n 0) (map (nth raw) ?g)"
    using parity_chunks_spec [OF assms(3), of n raw] assms(2,4) by simp
  have lens: "\<forall>c \<in> set (map (nth raw) ?g). length c = n" using in_k len by auto
  have pl: "length ?par = n" by (simp add: par)
  show ?thesis
  proof (rule nth_equalityI)
    show "length (reconstruct ?par m ?g ds) = length (raw ! m)"
      using rec [of ?g] pl len in_k m by simp
    fix t assume "t < length (reconstruct ?par m ?g ds)"
    then have t: "t < n" using rec [of ?g] pl by simp
    have "?par ! t = xor_sum (map (\<lambda>i. raw ! i ! t) ?g)"
      using nth_foldl_xor_bytes [of "map (nth raw) ?g" "replicate n 0" t] lens t by (simp add: par comp_def)
    moreover have "reconstruct ?par m ?g ds ! t =
        ?par ! t XOR xor_sum (map (\<lambda>i. raw ! i ! t) (filter (\<lambda>i. i \<noteq> m) ?g))"
      using nth_foldl_xor_bytes [of "map (nth raw) (filter (\<lambda>i. i \<noteq> m) ?g)" ?par t] lens t pl rec [of ?g]
      by (auto simp: comp_def)
    moreover have "distinct ?g" by (simp add: group_indices_def)
    ultimately show "reconstruct ?par m ?g ds ! t = raw ! m ! t"
      using xor_sum_remove [OF _ m, of "\<lambda>i. raw ! i ! t"] by (simp add: xor.assoc)
  qed
qed

section \<open>Filling the slots\<close>

definition piece :: "u8 list list \<Rightarrow> u8 list list \<Rightarrow> nat \<Rightarrow> u8 list" where
  "piece raw par i = (if i < length raw then raw ! i else par ! (i - length raw))"

definition held :: "data_chunk list \<Rightarrow> nat \<Rightarrow> bool" where
  "held chunks i \<longleftrightarrow> (\<exists>c \<in> set chunks. unat (ch_index c) = i)"

text \<open>A chunk that carries the encoding's bytes for its index and a matching hash.\<close>

definition authentic_chunk ::
  "'z crypto_scheme \<Rightarrow> u8 list list \<Rightarrow> u8 list list \<Rightarrow> data_chunk \<Rightarrow> bool" where
  "authentic_chunk cr raw par c \<longleftrightarrow> unat (ch_index c) < length raw + length par \<and>
     ch_data c = piece raw par (unat (ch_index c)) \<and> verify_integrity cr c"

lemma fill_slots_snoc:
  assumes "fill_slots cr k p chunks = (ds, ps)"
  shows "fill_slots cr k p (chunks @ [c]) =
    (let idx = unat (ch_index c) in
     if \<not> verify_integrity cr c then (ds, ps)
     else if idx < k then (ds[idx := Some (ch_data c)], ps)
     else if idx < k + p then (ds, ps[idx - k := Some (ch_data c)])
     else (ds, ps))"
  using assms by (simp add: fill_slots_def Let_def)

lemma fill_slots_spec:
  assumes "\<forall>c \<in> set chunks. authentic_chunk cr raw par c"
    and "fill_slots cr (length raw) (length par) chunks = (ds, ps)"
  shows "length ds = length raw \<and> length ps = length par \<and>
    (\<forall>i < length raw. ds ! i = (if held chunks i then Some (raw ! i) else None)) \<and>
    (\<forall>j < length par. ps ! j = (if held chunks (length raw + j) then Some (par ! j) else None))"
  using assms
proof (induction chunks arbitrary: ds ps rule: rev_induct)
  case Nil
  then show ?case by (auto simp: fill_slots_def held_def)
next
  case (snoc c chunks)
  obtain ds0 ps0 where prev: "fill_slots cr (length raw) (length par) chunks = (ds0, ps0)"
    by (cases "fill_slots cr (length raw) (length par) chunks")
  have IH: "length ds0 = length raw" "length ps0 = length par"
    "\<forall>i < length raw. ds0 ! i = (if held chunks i then Some (raw ! i) else None)"
    "\<forall>j < length par. ps0 ! j = (if held chunks (length raw + j) then Some (par ! j) else None)"
    using snoc.IH [OF _ prev] snoc.prems(1) by simp_all
  have auth: "authentic_chunk cr raw par c" using snoc.prems(1) by simp
  have held: "held (chunks @ [c]) i \<longleftrightarrow> held chunks i \<or> unat (ch_index c) = i" for i
    by (auto simp: held_def)
  show ?case
  proof (cases "unat (ch_index c) < length raw")
    case True
    then have "ds = ds0[unat (ch_index c) := Some (raw ! unat (ch_index c))]" "ps = ps0"
      using snoc.prems(2) auth by (auto simp: fill_slots_snoc [OF prev] Let_def authentic_chunk_def piece_def)
    then show ?thesis using IH True by (auto simp: held nth_list_update)
  next
    case False
    then obtain q where q: "unat (ch_index c) = length raw + q" "q < length par"
      using auth le_Suc_ex by (force simp: authentic_chunk_def not_less)
    then have "ds = ds0" "ps = ps0[q := Some (par ! q)]"
      using snoc.prems(2) auth by (auto simp: fill_slots_snoc [OF prev] Let_def authentic_chunk_def piece_def)
    then show ?thesis using IH q by (auto simp: held nth_list_update)
  qed
qed

section \<open>Recovery\<close>

text \<open>The chunks suffice when every missing data chunk is the only missing one of its parity
  group and the group's parity chunk is there.\<close>

definition recoverable :: "nat \<Rightarrow> nat \<Rightarrow> data_chunk list \<Rightarrow> bool" where
  "recoverable k p chunks \<longleftrightarrow>
     (\<forall>i < k. held chunks i \<or>
        held chunks (k + i mod p) \<and> (\<forall>i' < k. i' mod p = i mod p \<and> i' \<noteq> i \<longrightarrow> held chunks i'))"

lemma recoverableD:
  assumes "recoverable k p chunks" and "i < k" and "\<not> held chunks i"
  shows "held chunks (k + i mod p)"
    and "i' < k \<Longrightarrow> i' mod p = i mod p \<Longrightarrow> i' \<noteq> i \<Longrightarrow> held chunks i'"
  using assms unfolding recoverable_def by blast+

lemma recoverable_unique:
  assumes "recoverable k p chunks" and "x < k" and "y < k" and "\<not> held chunks x"
    and "\<not> held chunks y" and "x mod p = y mod p"
  shows "x = y"
  using recoverableD(2) [OF assms(1,2,4), of y] assms(3,5,6) by auto

lemma recover_group_spec:
  assumes raw: "\<forall>c \<in> set raw. length c = n" and p: "0 < p" "j < p" "length ps = p"
    and rec: "recoverable (length raw) p chunks"
    and ds: "length ds = length raw"
      "\<forall>i < length raw. ds ! i = (if held chunks i \<or> i mod p < j then Some (raw ! i) else None)"
    and ps: "ps ! j = (if held chunks (length raw + j) then Some (parity_chunks n p raw ! j) else None)"
  shows "\<exists>b'. recover_group (length raw) p ps (ds, b) j =
    (map (\<lambda>i. if held chunks i \<or> i mod p < Suc j then Some (raw ! i) else None) [0..<length raw], b')"
proof -
  let ?k = "length raw" and ?g = "group_indices (length raw) p j"
  let ?missing = "filter (\<lambda>i. ds ! i = None) ?g"
  let ?next = "map (\<lambda>i. if held chunks i \<or> i mod p < Suc j then Some (raw ! i) else None) [0..<?k]"
  have g: "i \<in> set ?g \<longleftrightarrow> i < ?k \<and> i mod p = j" for i by (auto simp: group_indices_def)
  have none: "i \<in> set ?missing \<longleftrightarrow> i < ?k \<and> i mod p = j \<and> \<not> held chunks i" for i
    using ds(2) by (auto simp: g)
  show ?thesis
  proof (cases ?missing)
    case Nil
    then have "\<forall>i < ?k. i mod p = j \<longrightarrow> held chunks i" using none by (metis list.set(1) empty_iff)
    then have "ds = ?next" using ds by (intro nth_equalityI) (auto simp: less_Suc_eq)
    then show ?thesis using Nil by (auto simp: recover_group_def Let_def split: option.splits)
  next
    case (Cons m ms)
    then have m: "m < ?k" "m mod p = j" "\<not> held chunks m" using none [of m] by auto
    then have par: "held chunks (?k + j)"
      and others: "\<And>i. i < ?k \<Longrightarrow> i mod p = j \<Longrightarrow> i \<noteq> m \<Longrightarrow> held chunks i"
      using recoverableD [OF rec m(1,3)] by auto
    have "distinct ?missing" by (simp add: group_indices_def)
    then have "ms = []" using Cons none others
      by (cases ms) (auto dest!: spec [of _ "hd ms"] simp: Cons, metis list.set_intros(1,2))
    moreover have "reconstruct (parity_chunks n p raw ! j) m ?g ds = raw ! m"
      using reconstruct_missing [OF raw refl p(1,2), of m ds] g m ds(2) others by auto
    ultimately have "recover_group ?k p ps (ds, b) j = (ds[m := Some (raw ! m)], True)"
      using Cons ps par by (simp add: recover_group_def Let_def)
    moreover have "ds[m := Some (raw ! m)] = ?next"
      using ds others m by (intro nth_equalityI) (auto simp: nth_list_update less_Suc_eq)
    ultimately show ?thesis by auto
  qed
qed

lemma recover_pass_spec:
  assumes raw: "\<forall>c \<in> set raw. length c = n" and p: "0 < p" "length ps = p"
    and rec: "recoverable (length raw) p chunks"
    and ds: "length ds = length raw"
      "\<forall>i < length raw. ds ! i = (if held chunks i then Some (raw ! i) else None)"
    and ps: "\<forall>j < p. ps ! j =
      (if held chunks (length raw + j) then Some (parity_chunks n p raw ! j) else None)"
  shows "fst (recover_pass (length raw) p ps ds) = map Some raw"
proof -
  have "q \<le> p \<Longrightarrow> fst (foldl (recover_group (length raw) p ps) (ds, False) [0..<q]) =
    map (\<lambda>i. if held chunks i \<or> i mod p < q then Some (raw ! i) else None) [0..<length raw]" for q
  proof (induction q)
    case 0
    have "ds = map (\<lambda>i. if held chunks i then Some (raw ! i) else None) [0..<length raw]"
      using ds by (intro nth_equalityI) simp_all
    then show ?case by simp
  next
    case (Suc q)
    obtain ds1 b1 where st: "foldl (recover_group (length raw) p ps) (ds, False) [0..<q] = (ds1, b1)"
      by (cases "foldl (recover_group (length raw) p ps) (ds, False) [0..<q]")
    have ds1: "ds1 = map (\<lambda>i. if held chunks i \<or> i mod p < q then Some (raw ! i) else None) [0..<length raw]"
      using Suc st by simp
    have len1: "length ds1 = length raw" by (simp add: ds1)
    have nth1: "\<forall>i < length raw. ds1 ! i = (if held chunks i \<or> i mod p < q then Some (raw ! i) else None)"
      by (simp add: ds1)
    have q: "q < p" using Suc.prems by simp
    then have psq: "ps ! q = (if held chunks (length raw + q) then Some (parity_chunks n p raw ! q) else None)"
      using ps by blast
    obtain b' where "recover_group (length raw) p ps (ds1, b1) q =
        (map (\<lambda>i. if held chunks i \<or> i mod p < Suc q then Some (raw ! i) else None) [0..<length raw], b')"
      using recover_group_spec [OF raw p(1) q p(2) rec len1 nth1 psq] by blast
    then show ?case by (simp add: st)
  qed
  from this [of p] have "fst (recover_pass (length raw) p ps ds) =
      map (\<lambda>i. Some (raw ! i)) [0..<length raw]"
    using p by (simp add: recover_pass_def)
  also have "\<dots> = map Some raw" by (rule nth_equalityI) simp_all
  finally show ?thesis .
qed

lemma unfilled_le: "unfilled ds \<le> length ds"
  by (simp add: unfilled_def)

lemma unfilled_count: "unfilled ds = card {i. i < length ds \<and> ds ! i = None}"
  by (simp add: unfilled_def length_filter_conv_card)

text \<open>The missing data chunks are at most as many as the parity chunks held, so the count check
  passes.\<close>

lemma enough_chunks:
  assumes rec: "recoverable k p chunks" and "0 < p" and "length ds = k" and "length ps = p"
    and "\<forall>i < k. ds ! i = None \<longleftrightarrow> \<not> held chunks i"
    and "\<forall>j < p. ps ! j = None \<longleftrightarrow> \<not> held chunks (k + j)"
  shows "k \<le> (k - unfilled ds) + (p - unfilled ps)"
proof -
  let ?D = "{i. i < k \<and> ds ! i = None}" and ?P = "{j. j < p \<and> ps ! j \<noteq> None}"
  have "inj_on (\<lambda>i. i mod p) ?D"
    using recoverable_unique [OF rec] assms(5) by (auto simp: inj_on_def)
  moreover have "(\<lambda>i. i mod p) ` ?D \<subseteq> ?P"
  proof clarify
    fix i assume "i < k" and "ds ! i = None"
    then have "held chunks (k + i mod p)" using recoverableD(1) [OF rec] assms(5) by blast
    then show "i mod p < p \<and> ps ! (i mod p) \<noteq> None" using assms(2,6) mod_less_divisor by blast
  qed
  ultimately have "card ?D \<le> card ?P" by (intro card_inj_on_le) simp_all
  moreover have "card ?P = p - unfilled ps"
  proof -
    let ?N = "{j. j < p \<and> ps ! j = None}"
    have "finite ?N" and "?N \<subseteq> {0..<p}" by auto
    then have "card ({0..<p} - ?N) = card {0..<p} - card ?N" by (rule card_Diff_subset)
    moreover have "?P = {0..<p} - ?N" by auto
    ultimately show ?thesis using assms(4) by (simp only: unfilled_count card_atLeastLessThan diff_zero)
  qed
  moreover have "unfilled ds \<le> k" using unfilled_le [of ds] assms(3) by simp
  ultimately show ?thesis using assms(3) by (simp add: unfilled_count)
qed

lemma decode_recoverable:
  assumes raw: "\<forall>c \<in> set raw. length c = n" and "raw \<noteq> []" and "par = parity_chunks n p raw"
    and p: "0 < p" and auth: "\<forall>c \<in> set chunks. authentic_chunk cr raw par c"
    and rec: "recoverable (length raw) p chunks"
    and e: "ee_chunks e = chunks" "unat (ee_data_chunks e) = length raw" "unat (ee_parity_chunks e) = p"
  shows "decode_block_data cr e = Inr (take (ee_original_size e) (concat raw))"
proof -
  let ?k = "length raw"
  have len: "length par = p" using parity_chunks_spec [OF p] assms(3) by simp
  obtain ds ps where fill: "fill_slots cr ?k p chunks = (ds, ps)" by (cases "fill_slots cr ?k p chunks")
  note slots = fill_slots_spec [OF auth, of ds ps, unfolded len, OF fill]
  have "held chunks 0 \<or> held chunks (?k + 0 mod p)" using rec assms(2) by (auto simp: recoverable_def)
  then have ne: "chunks \<noteq> []" by (auto simp: held_def)
  have count: "\<not> (?k - unfilled ds + (p - unfilled ps) < ?k)"
    using enough_chunks [OF rec p, of ds ps] slots by (simp add: not_less)
  have "fst (recover_pass ?k p ps ds) = map Some raw"
    using recover_pass_spec [OF raw p _ rec, of ps ds] slots assms(3) by auto
  then have loop: "recover_loop ?k p ps ds = map Some raw"
    by (subst recover_loop.simps) (auto simp: list_all_iff split: prod.splits)
  have full: "ds = map Some raw" if "?k - unfilled ds = ?k"
  proof -
    have "unfilled ds = 0" using that assms(2) by (cases raw) auto
    then have "\<forall>i < ?k. ds ! i \<noteq> None" using slots by (auto simp: unfilled_count)
    then show ?thesis using slots by (intro nth_equalityI) (auto split: if_splits)
  qed
  have "map (the \<circ> Some) raw = raw" by simp
  then show ?thesis
    using ne count loop full by (auto simp: decode_block_data_def e fill Let_def list_all_iff)
qed

lemma unat_of_nat_u16: "n < 2 ^ 16 \<Longrightarrow> unat (word_of_nat n :: u16) = n"
  by (simp add: unat_of_nat take_bit_nat_eq_self)

lemma encode_Some:
  assumes "encode_block_data cr data dc pc = Some e"
  obtains n raw par where "raw = map (raw_chunk data n) [0..<unat dc]" "n = chunk_size (length data) (unat dc)"
    "par = parity_chunks n (unat pc) raw" "0 < unat dc" "0 < unat pc" "length par = unat pc"
    "ee_original_size e = length data" "ee_data_chunks e = dc" "ee_parity_chunks e = pc"
    "ee_chunks e = map (\<lambda>i. chunk_new cr (word_of_nat i) (piece raw par i)) [0..<unat dc + unat pc]"
proof -
  define n where "n = chunk_size (length data) (unat dc)"
  define raw where "raw = map (raw_chunk data n) [0..<unat dc]"
  define par where "par = parity_chunks n (unat pc) raw"
  have pos: "0 < unat dc" "0 < unat pc" using assms by (auto simp: encode_block_data_def unat_gt_0 split: if_splits)
  have len: "length raw = unat dc" "length par = unat pc"
    using parity_chunks_spec [OF pos(2), of n raw] by (simp_all add: raw_def par_def)
  have "ee_chunks e = map (\<lambda>(i, c). chunk_new cr (word_of_nat i) c) (enumerate 0 raw) @
      map (\<lambda>(j, c). chunk_new cr (word_of_nat (unat dc + j)) c) (enumerate 0 par)"
    using assms by (auto simp: encode_block_data_def Let_def n_def raw_def par_def split: if_splits)
  also have "\<dots> = map (\<lambda>i. chunk_new cr (word_of_nat i) (piece raw par i)) [0..<unat dc + unat pc]"
    using len by (intro nth_equalityI) (auto simp: nth_append nth_enumerate_eq piece_def)
  finally show thesis
    using that [OF raw_def n_def par_def pos len(2)] assms
    by (auto simp: encode_block_data_def Let_def split: if_splits)
qed

section \<open>Properties\<close>

text \<open>C21: decoding gives back the block data from every subset of the encoded chunks in which each
  parity group misses at most one data chunk and still has its parity chunk when it misses one.\<close>

theorem erasure_code_recovers:
  assumes enc: "encode_block_data cr data dc pc = Some e" and small: "unat dc + unat pc < 2 ^ 16"
    and sub: "set chunks \<subseteq> set (ee_chunks e)" and rec: "recoverable (unat dc) (unat pc) chunks"
  shows "decode_block_data cr (e\<lparr>ee_chunks := chunks\<rparr>) = Inr data"
proof -
  obtain n raw par where raw: "raw = map (raw_chunk data n) [0..<unat dc]"
    and n: "n = chunk_size (length data) (unat dc)" and par: "par = parity_chunks n (unat pc) raw"
    and pos: "0 < unat dc" "0 < unat pc" and lp: "length par = unat pc"
    and e: "ee_original_size e = length data" "ee_data_chunks e = dc" "ee_parity_chunks e = pc"
      "ee_chunks e = map (\<lambda>i. chunk_new cr (word_of_nat i) (piece raw par i)) [0..<unat dc + unat pc]"
    by (rule encode_Some [OF enc])
  have len: "length raw = unat dc" "\<forall>c \<in> set raw. length c = n" "raw \<noteq> []"
    using raw pos(1) by auto
  have auth: "\<forall>c \<in> set chunks. authentic_chunk cr raw par c"
    using sub small len(1) lp unfolding e(4)
    by (force simp: authentic_chunk_def chunk_new_def verify_integrity_def unat_of_nat_u16)
  have "decode_block_data cr (e\<lparr>ee_chunks := chunks\<rparr>) = Inr (take (length data) (concat raw))"
    using decode_recoverable [OF len(2,3) par pos(2) auth, of "e\<lparr>ee_chunks := chunks\<rparr>"] rec len(1) e
    by simp
  also have "take (length data) (concat raw) = data"
    using take_resize chunk_size_covers [OF pos(1)] by (simp add: raw concat_raw_chunks n)
  finally show ?thesis .
qed

lemma encode_exists: "dc \<noteq> 0 \<Longrightarrow> pc \<noteq> 0 \<Longrightarrow> \<exists>e. encode_block_data cr data dc pc = Some e"
  by (simp add: encode_block_data_def Let_def)

theorem erasure_code_recovers_witness:
  "\<exists>e. encode_block_data toy_crypto [1, 2, 3] 2 1 = Some e \<and>
     decode_block_data toy_crypto (e\<lparr>ee_chunks := drop 1 (ee_chunks e)\<rparr>) = Inr [1, 2, 3]"
proof -
  obtain e where e: "encode_block_data toy_crypto [1, 2, 3] 2 1 = Some e"
    using encode_exists [of 2 1] by auto
  obtain raw par where "ee_chunks e =
      map (\<lambda>i. chunk_new toy_crypto (word_of_nat i) (piece raw par i)) [0..<unat (2 :: u16) + unat (1 :: u16)]"
    by (rule encode_Some [OF e]) blast
  moreover have "[0..<unat (2 :: u16) + unat (1 :: u16)] = [0, 1, 2]" by code_simp
  ultimately have ch: "ee_chunks e =
      map (\<lambda>i. chunk_new toy_crypto (word_of_nat i) (piece raw par i)) [0, 1, 2]" by simp
  have "recoverable 2 1 (drop 1 (ee_chunks e))"
    by (auto simp: ch recoverable_def held_def chunk_new_def)
  then show ?thesis
    using erasure_code_recovers [OF e, of "drop 1 (ee_chunks e)"] e by (auto dest: in_set_dropD)
qed

text \<open>C22: with the parameters of every published commitment (four data and four parity chunks), six
  of the eight chunks need not suffice: without data chunk 0 and parity chunk 0 decoding fails.\<close>

theorem erasure_code_six_of_eight:
  assumes "encode_block_data cr data 4 4 = Some e"
    and "chunks = filter (\<lambda>c. ch_index c \<noteq> 0 \<and> ch_index c \<noteq> 4) (ee_chunks e)"
  shows "length chunks = 6 \<and> decode_block_data cr (e\<lparr>ee_chunks := chunks\<rparr>) =
    Inl ''could not reconstruct all data chunks from available parity''"
proof -
  obtain n raw par where raw: "raw = map (raw_chunk data n) [0..<4]"
    and lp: "length par = 4"
    and e: "ee_data_chunks e = 4" "ee_parity_chunks e = 4"
      "ee_chunks e = map (\<lambda>i. chunk_new cr (word_of_nat i) (piece raw par i)) [0..<8]"
    by (rule encode_Some [OF assms(1)]) auto
  have len: "length raw = 4" using raw by simp
  have idx: "[0..<8] = [0, 1, 2, 3, 4, 5, 6, 7 :: nat]" by code_simp
  have chunks: "chunks = map (\<lambda>i. chunk_new cr (word_of_nat i) (piece raw par i)) [1, 2, 3, 5, 6, 7]"
    by (simp add: assms(2) e(3) idx chunk_new_def)
  have auth: "\<forall>c \<in> set chunks. authentic_chunk cr raw par c"
    using len lp by (auto simp: chunks authentic_chunk_def chunk_new_def verify_integrity_def)
  have heldp: "held chunks i \<longleftrightarrow> i \<in> {1, 2, 3, 5, 6, 7}" for i
    by (auto simp: held_def chunks chunk_new_def)
  obtain ds ps where fill: "fill_slots cr 4 4 chunks = (ds, ps)" by (cases "fill_slots cr 4 4 chunks")
  note slots = fill_slots_spec [OF auth, of ds ps, unfolded len lp, OF fill]
  have four: "[0..<4] = [0, 1, 2, 3 :: nat]" by code_simp
  have "ds = map (\<lambda>i. if held chunks i then Some (raw ! i) else None) [0..<4]"
    using slots by (intro nth_equalityI) auto
  then have ds: "ds = [None, Some (raw ! 1), Some (raw ! 2), Some (raw ! 3)]"
    unfolding four by (simp add: heldp)
  have "ps = map (\<lambda>j. if held chunks (4 + j) then Some (par ! j) else None) [0..<4]"
    using slots by (intro nth_equalityI) auto
  then have ps: "ps = [None, Some (par ! 1), Some (par ! 2), Some (par ! 3)]"
    unfolding four by (simp add: heldp)
  have groups: "group_indices 4 4 0 = [0]" "group_indices 4 4 (Suc 0) = [Suc 0]" "group_indices 4 4 2 = [2]"
    "group_indices 4 4 3 = [3]" by code_simp+
  have "length ps = 4" by (simp add: ps)
  then have "recover_pass 4 4 ps ds = (ds, False)"
    by (simp only: recover_pass_def four) (simp add: ps ds recover_group_def groups Let_def)
  then have "recover_loop 4 4 ps ds = ds" by (subst recover_loop.simps) simp
  moreover have "length chunks = 6" by (simp add: chunks)
  ultimately show ?thesis
    using fill by (auto simp: decode_block_data_def e Let_def ds ps unfilled_def)
qed

theorem erasure_code_six_of_eight_witness:
  "\<exists>e. encode_block_data toy_crypto [1, 2, 3] 4 4 = Some e \<and>
     decode_block_data toy_crypto
       (e\<lparr>ee_chunks := filter (\<lambda>c. ch_index c \<noteq> 0 \<and> ch_index c \<noteq> 4) (ee_chunks e)\<rparr>) =
     Inl ''could not reconstruct all data chunks from available parity''"
proof -
  obtain e where e: "encode_block_data toy_crypto [1, 2, 3] 4 4 = Some e"
    using encode_exists [of 4 4] by auto
  then show ?thesis using erasure_code_six_of_eight [OF e refl] by simp
qed

end
