(* ===== verification/Arc_Certificates.thy ===== *)
theory Arc_Certificates
  imports Arc_Validators Arc_Crypto
begin

text \<open>
  Absence and finality certificates of \<open>crates/arc-consensus/src/view_change.rs\<close>: vote
  transcripts, certificate verification against the frozen validator set, the durable signing
  record, the skip tracker that decides when this validator may attest an absence, and the two vote
  collectors. Clocks and persistence are arguments of the operations. The binary encoding of the
  signing record is left out.
\<close>

section \<open>Transcripts\<close>

record consensus_domain =
  cd_domain_hash :: hash256
  cd_recovery_epoch :: u64
  cd_validator_set_id :: u64

datatype absence_reason = NoBlock

instantiation absence_reason :: linorder
begin

definition less_eq_absence_reason :: "absence_reason \<Rightarrow> absence_reason \<Rightarrow> bool" where
  "less_eq_absence_reason a b \<longleftrightarrow> True"

definition less_absence_reason :: "absence_reason \<Rightarrow> absence_reason \<Rightarrow> bool" where
  "less_absence_reason a b \<longleftrightarrow> False"

instance
proof
  fix a b :: absence_reason
  show "a \<le> b \<Longrightarrow> b \<le> a \<Longrightarrow> a = b" by (cases a; cases b) simp
qed (simp_all add: less_eq_absence_reason_def less_absence_reason_def)

end

definition ascii :: "string \<Rightarrow> u8 list" where
  "ascii s = map of_char s"

definition SKIP_VOTE_DOMAIN :: "u8 list" where
  "SKIP_VOTE_DOMAIN = ascii ''arc.consensus.skipvote.v1''"

definition FINALITY_VOTE_DOMAIN :: "u8 list" where
  "FINALITY_VOTE_DOMAIN = ascii ''arc.consensus.finalityvote.v1''"

definition VALIDATOR_SET_DOMAIN :: "u8 list" where
  "VALIDATOR_SET_DOMAIN = ascii ''arc.consensus.validatorset.v1''"

definition RECENT_ABSENCE_ROUNDS :: u64 where "RECENT_ABSENCE_ROUNDS = 3"

datatype certificate_error =
    WrongDomain consensus_domain consensus_domain
  | WrongValidatorSet
  | InconsistentVote nat
  | UnknownVoter address
  | DuplicateVoter address
  | BadSignature address
  | BelowQuorum u64 u64
  | EmptyCertificate
  | ConflictingFinality u64 hash256 hash256

definition validator_set_preimage :: "validator_set \<Rightarrow> u8 list" where
  "validator_set_preimage vs =
     (let mem = sort_key fst (map (\<lambda>v. (v_address v, v_stake v)) (vs_validators vs)) in
      VALIDATOR_SET_DOMAIN @ u64_le (vs_epoch vs) @ u64_le (word_of_nat (length mem)) @
      concat (map (\<lambda>(a, s). hash_as_bytes a @ u64_le s) mem))"

definition validator_set_hash :: "'z crypto_scheme \<Rightarrow> validator_set \<Rightarrow> hash256" where
  "validator_set_hash cr vs = hash_bytes cr (validator_set_preimage vs)"

definition domain_bytes :: "consensus_domain \<Rightarrow> u8 list" where
  "domain_bytes d = hash_as_bytes (cd_domain_hash d) @ u64_le (cd_recovery_epoch d) @
     u64_le (cd_validator_set_id d)"

record skip_vote =
  sv_domain :: consensus_domain
  sv_set_hash :: hash256
  sv_round :: u64
  sv_absentee :: address
  sv_voter :: address
  sv_reason :: absence_reason
  sv_observed_stake :: u64
  sv_signature :: signature

record finality_vote =
  fv_domain :: consensus_domain
  fv_set_hash :: hash256
  fv_height :: u64
  fv_block_hash :: hash256
  fv_state_root :: hash256
  fv_tx_root :: hash256
  fv_voter :: address
  fv_signature :: signature

fun reason_byte :: "absence_reason \<Rightarrow> u8" where
  "reason_byte NoBlock = 0"

definition skip_vote_preimage ::
  "consensus_domain \<Rightarrow> hash256 \<Rightarrow> u64 \<Rightarrow> address \<Rightarrow> address \<Rightarrow> absence_reason \<Rightarrow> u64 \<Rightarrow> u8 list" where
  "skip_vote_preimage d vsh round absentee voter reason stake =
     SKIP_VOTE_DOMAIN @ domain_bytes d @ hash_as_bytes vsh @ u64_le round @ hash_as_bytes absentee @
     hash_as_bytes voter @ [reason_byte reason] @ u64_le stake"

definition skip_vote_transcript ::
  "'z crypto_scheme \<Rightarrow> consensus_domain \<Rightarrow> hash256 \<Rightarrow> u64 \<Rightarrow> address \<Rightarrow> address \<Rightarrow> absence_reason \<Rightarrow>
   u64 \<Rightarrow> hash256" where
  "skip_vote_transcript cr d vsh round absentee voter reason stake =
     hash_bytes cr (skip_vote_preimage d vsh round absentee voter reason stake)"

definition skip_transcript :: "'z crypto_scheme \<Rightarrow> skip_vote \<Rightarrow> hash256" where
  "skip_transcript cr v = skip_vote_transcript cr (sv_domain v) (sv_set_hash v) (sv_round v)
     (sv_absentee v) (sv_voter v) (sv_reason v) (sv_observed_stake v)"

definition finality_vote_preimage ::
  "consensus_domain \<Rightarrow> hash256 \<Rightarrow> u64 \<Rightarrow> hash256 \<Rightarrow> hash256 \<Rightarrow> hash256 \<Rightarrow> address \<Rightarrow> u8 list" where
  "finality_vote_preimage d vsh height block_hash state_root tx_root voter =
     FINALITY_VOTE_DOMAIN @ domain_bytes d @ hash_as_bytes vsh @ u64_le height @
     hash_as_bytes block_hash @ hash_as_bytes state_root @ hash_as_bytes tx_root @ hash_as_bytes voter"

definition finality_vote_transcript ::
  "'z crypto_scheme \<Rightarrow> consensus_domain \<Rightarrow> hash256 \<Rightarrow> u64 \<Rightarrow> hash256 \<Rightarrow> hash256 \<Rightarrow> hash256 \<Rightarrow> address \<Rightarrow>
   hash256" where
  "finality_vote_transcript cr d vsh height block_hash state_root tx_root voter =
     hash_bytes cr (finality_vote_preimage d vsh height block_hash state_root tx_root voter)"

definition finality_transcript :: "'z crypto_scheme \<Rightarrow> finality_vote \<Rightarrow> hash256" where
  "finality_transcript cr v = finality_vote_transcript cr (fv_domain v) (fv_set_hash v) (fv_height v)
     (fv_block_hash v) (fv_state_root v) (fv_tx_root v) (fv_voter v)"

section \<open>Verification\<close>

definition verify_voter ::
  "'z crypto_scheme \<Rightarrow> validator_set \<Rightarrow> address \<Rightarrow> signature \<Rightarrow> hash256 \<Rightarrow> certificate_error + u64" where
  "verify_voter cr vs voter sg msg =
     and_then (ok_or (UnknownVoter voter) (get_validator vs voter)) (\<lambda>v.
     case sig_verify cr sg msg voter of
       Inl _ \<Rightarrow> Inl (BadSignature voter)
     | Inr _ \<Rightarrow> Inr (v_stake v))"

definition skip_verify_against ::
  "'z crypto_scheme \<Rightarrow> validator_set \<Rightarrow> skip_vote \<Rightarrow> certificate_error + u64" where
  "skip_verify_against cr vs v = verify_voter cr vs (sv_voter v) (sv_signature v) (skip_transcript cr v)"

definition finality_verify_against ::
  "'z crypto_scheme \<Rightarrow> validator_set \<Rightarrow> finality_vote \<Rightarrow> certificate_error + u64" where
  "finality_verify_against cr vs v =
     verify_voter cr vs (fv_voter v) (fv_signature v) (finality_transcript cr v)"

record skip_certificate =
  sc_domain :: consensus_domain
  sc_set_hash :: hash256
  sc_round :: u64
  sc_absentee :: address
  sc_reason :: absence_reason
  sc_votes :: "skip_vote list"

record finality_certificate =
  fc_domain :: consensus_domain
  fc_set_hash :: hash256
  fc_height :: u64
  fc_block_hash :: hash256
  fc_state_root :: hash256
  fc_tx_root :: hash256
  fc_votes :: "finality_vote list"

text \<open>The loop over the votes of a certificate, with the header check \<open>ok\<close> of the vote type. The
  overflow \<open>expect\<close> is the value \<open>None\<close>.\<close>

fun votes_loop ::
  "('v \<Rightarrow> bool) \<Rightarrow> ('v \<Rightarrow> address) \<Rightarrow> ('v \<Rightarrow> certificate_error + u64) \<Rightarrow> nat \<Rightarrow> address list \<Rightarrow> u64 \<Rightarrow>
   'v list \<Rightarrow> (certificate_error + u64) option" where
  "votes_loop ok voter check index seen signing [] = Some (Inr signing)"
| "votes_loop ok voter check index seen signing (v # vs) =
     (if \<not> ok v then Some (Inl (InconsistentVote index))
      else if voter v \<in> set seen then Some (Inl (DuplicateVoter (voter v)))
      else case check v of
        Inl e \<Rightarrow> Some (Inl e)
      | Inr stake \<Rightarrow>
          (case checked_add signing stake of
             None \<Rightarrow> None
           | Some signing' \<Rightarrow>
               votes_loop ok voter check (Suc index) (voter v # seen) signing' vs))"

definition finish_votes :: "validator_set \<Rightarrow> (certificate_error + u64) option \<Rightarrow> (certificate_error + u64) option" where
  "finish_votes vs r =
     map_option (\<lambda>r. and_then r (\<lambda>signing.
       if signing < vs_quorum vs then Inl (BelowQuorum signing (vs_quorum vs)) else Inr signing)) r"

definition skip_header_ok :: "validator_set \<Rightarrow> skip_certificate \<Rightarrow> skip_vote \<Rightarrow> bool" where
  "skip_header_ok vs c v \<longleftrightarrow> sv_domain v = sc_domain c \<and> sv_set_hash v = sc_set_hash c \<and>
     sv_round v = sc_round c \<and> sv_absentee v = sc_absentee c \<and> sv_reason v = sc_reason c \<and>
     vs_quorum vs \<le> sv_observed_stake v"

definition skip_certificate_verify ::
  "'z crypto_scheme \<Rightarrow> consensus_domain \<Rightarrow> validator_set \<Rightarrow> skip_certificate \<Rightarrow>
   (certificate_error + u64) option" where
  "skip_certificate_verify cr expected vs c =
     (if sc_domain c \<noteq> expected then Some (Inl (WrongDomain expected (sc_domain c)))
      else if sc_set_hash c \<noteq> validator_set_hash cr vs then Some (Inl WrongValidatorSet)
      else if sc_votes c = [] then Some (Inl EmptyCertificate)
      else finish_votes vs
        (votes_loop (skip_header_ok vs c) sv_voter (skip_verify_against cr vs) 0 [] 0 (sc_votes c)))"

definition finality_header_ok :: "finality_certificate \<Rightarrow> finality_vote \<Rightarrow> bool" where
  "finality_header_ok c v \<longleftrightarrow> fv_domain v = fc_domain c \<and> fv_set_hash v = fc_set_hash c \<and>
     fv_height v = fc_height c \<and> fv_block_hash v = fc_block_hash c \<and>
     fv_state_root v = fc_state_root c \<and> fv_tx_root v = fc_tx_root c"

definition finality_certificate_verify ::
  "'z crypto_scheme \<Rightarrow> consensus_domain \<Rightarrow> validator_set \<Rightarrow> finality_certificate \<Rightarrow>
   (certificate_error + u64) option" where
  "finality_certificate_verify cr expected vs c =
     (if fc_domain c \<noteq> expected then Some (Inl (WrongDomain expected (fc_domain c)))
      else if fc_set_hash c \<noteq> validator_set_hash cr vs then Some (Inl WrongValidatorSet)
      else if fc_votes c = [] then Some (Inl EmptyCertificate)
      else finish_votes vs
        (votes_loop (finality_header_ok c) fv_voter (finality_verify_against cr vs) 0 [] 0 (fc_votes c)))"

section \<open>The signing record and the skip tracker\<close>

record signing_record =
  rec_skipped_rounds :: "(u64, (address, absence_reason) store) store"
  rec_finality_votes :: "(u64, hash256 \<times> hash256 \<times> hash256) store"
  rec_last_applied_round :: "u64 option"

definition record_prune :: "u64 \<Rightarrow> u64 \<Rightarrow> signing_record \<Rightarrow> signing_record" where
  "record_prune finality_floor absence_floor r =
     r\<lparr>rec_finality_votes := mretain (\<lambda>h _. finality_floor \<le> h) (rec_finality_votes r),
       rec_skipped_rounds := mretain (\<lambda>h _. absence_floor \<le> h) (rec_skipped_rounds r)\<rparr>"

definition next_round_to_scan :: "signing_record \<Rightarrow> u64" where
  "next_round_to_scan r =
     (case rec_last_applied_round r of Some applied \<Rightarrow> saturating_add applied 1 | None \<Rightarrow> 0)"

datatype skip_refusal =
    RoundBelowQuorum | AbsenteeBlockPresent | WithinGrace | ConflictingSkip | RoundAlreadyPassed

record round_observation =
  ob_stake :: u64
  ob_condition_broken :: bool
  ob_holding_since :: "u64 option"

record skip_tracker =
  tr_domain :: consensus_domain
  tr_set_hash :: hash256
  tr_grace_ms :: u64
  tr_recent_grace_ms :: u64
  tr_recent_absence :: "(address, u64) store"
  tr_observations :: "(u64 \<times> address \<times> absence_reason, round_observation) store"
  tr_record :: signing_record
  tr_refused :: "(u64 \<times> address) list"

definition note_recent :: "address \<Rightarrow> u64 \<Rightarrow> (address, u64) store \<Rightarrow> (address, u64) store" where
  "note_recent member round m =
     (case map_of m member of
        Some recent \<Rightarrow> mput member (max recent round) m
      | None \<Rightarrow> mput member round m)"

definition tracker_init ::
  "consensus_domain \<Rightarrow> hash256 \<Rightarrow> u64 \<Rightarrow> signing_record \<Rightarrow> skip_tracker" where
  "tracker_init domain vsh grace record =
     (let attested = concat (map (\<lambda>(round, mems). map (\<lambda>(m, reason). (round, m, reason)) mems)
            (rec_skipped_rounds record)) in
      \<lparr>tr_domain = domain, tr_set_hash = vsh, tr_grace_ms = grace, tr_recent_grace_ms = grace,
       tr_recent_absence = fold (\<lambda>(round, m, reason) acc.
         if reason = NoBlock then note_recent m round acc else acc) attested [],
       tr_observations = [], tr_record = record,
       tr_refused = map (\<lambda>(round, m, _). (round, m)) attested\<rparr>)"

definition with_recent_absence_grace :: "u64 \<Rightarrow> skip_tracker \<Rightarrow> skip_tracker" where
  "with_recent_absence_grace grace t = t\<lparr>tr_recent_grace_ms := min grace (tr_grace_ms t)\<rparr>"

definition refuses :: "skip_tracker \<Rightarrow> u64 \<Rightarrow> address \<Rightarrow> bool" where
  "refuses t round absentee \<longleftrightarrow> (round, absentee) \<in> set (tr_refused t)"

definition note_durable_commit_round :: "u64 \<Rightarrow> skip_tracker \<Rightarrow> skip_tracker" where
  "note_durable_commit_round round t =
     (if (case rec_last_applied_round (tr_record t) of None \<Rightarrow> True | Some applied \<Rightarrow> round > applied)
      then t\<lparr>tr_record := (tr_record t)\<lparr>rec_last_applied_round := Some round\<rparr>\<rparr> else t)"

definition note_finality_vote ::
  "u64 \<Rightarrow> hash256 \<times> hash256 \<times> hash256 \<Rightarrow> skip_tracker \<Rightarrow> skip_tracker" where
  "note_finality_vote height identity t =
     t\<lparr>tr_record := (tr_record t)\<lparr>rec_finality_votes :=
         mput height identity (rec_finality_votes (tr_record t))\<rparr>\<rparr>"

definition blank_observation :: round_observation where
  "blank_observation = \<lparr>ob_stake = 0, ob_condition_broken = False, ob_holding_since = None\<rparr>"

definition observe_entry :: "u64 \<Rightarrow> bool \<Rightarrow> u64 \<Rightarrow> u64 \<Rightarrow> round_observation \<Rightarrow> round_observation" where
  "observe_entry stake condition_holds quorum now_ms ob =
     (let st = max (ob_stake ob) stake; broken = (ob_condition_broken ob \<or> \<not> condition_holds) in
      \<lparr>ob_stake = st, ob_condition_broken = broken,
       ob_holding_since =
         (if quorum \<le> st \<and> \<not> broken
          then (case ob_holding_since ob of None \<Rightarrow> Some now_ms | Some s \<Rightarrow> Some s)
          else None)\<rparr>)"

definition observe ::
  "u64 \<Rightarrow> address \<Rightarrow> absence_reason \<Rightarrow> u64 \<Rightarrow> bool \<Rightarrow> u64 \<Rightarrow> u64 \<Rightarrow> skip_tracker \<Rightarrow> skip_tracker" where
  "observe round member reason stake condition_holds quorum now_ms t =
     (let recent = (if reason = NoBlock \<and> \<not> condition_holds \<and>
                       (case map_of (tr_recent_absence t) member of None \<Rightarrow> False | Some r \<Rightarrow> round > r)
                    then mdel member (tr_recent_absence t) else tr_recent_absence t) in
      t\<lparr>tr_recent_absence := recent,
        tr_observations := mentry (round, member, reason) blank_observation
          (observe_entry stake condition_holds quorum now_ms) (tr_observations t)\<rparr>)"

definition note_skipped :: "u64 \<Rightarrow> address \<Rightarrow> absence_reason \<Rightarrow> skip_tracker \<Rightarrow> skip_tracker" where
  "note_skipped round absentee reason t =
     t\<lparr>tr_record := (tr_record t)\<lparr>rec_skipped_rounds :=
         mentry round [] (mput absentee reason) (rec_skipped_rounds (tr_record t))\<rparr>,
       tr_refused := List.insert (round, absentee) (tr_refused t),
       tr_recent_absence := (if reason = NoBlock
         then note_recent absentee round (tr_recent_absence t) else tr_recent_absence t)\<rparr>"

text \<open>The key pair is the pair of its address and its signing function; a signing failure is
  \<open>None\<close>.\<close>

definition sign_if_permitted ::
  "'z crypto_scheme \<Rightarrow> address \<times> (hash256 \<Rightarrow> signature option) \<Rightarrow> u64 \<Rightarrow> address \<Rightarrow> absence_reason \<Rightarrow>
   u64 \<Rightarrow> u64 \<Rightarrow> u64 \<Rightarrow> skip_tracker \<Rightarrow> skip_refusal + (skip_vote \<times> skip_tracker)" where
  "sign_if_permitted cr keypair round absentee reason commit_cursor quorum now_ms t =
     and_then (guard (\<not> round < commit_cursor) RoundAlreadyPassed) (\<lambda>_.
     and_then (ok_or RoundBelowQuorum (map_of (tr_observations t) (round, absentee, reason))) (\<lambda>ob.
     and_then (guard (\<not> ob_condition_broken ob) AbsenteeBlockPresent) (\<lambda>_.
     and_then (guard (\<not> ob_stake ob < quorum) RoundBelowQuorum) (\<lambda>_.
     and_then (ok_or RoundBelowQuorum (ob_holding_since ob)) (\<lambda>since.
     let grace = (if reason = NoBlock \<and>
                     (case map_of (tr_recent_absence t) absentee of
                        None \<Rightarrow> False
                      | Some r \<Rightarrow> round \<le> saturating_add r RECENT_ABSENCE_ROUNDS)
                  then tr_recent_grace_ms t else tr_grace_ms t) in
     and_then (guard (\<not> saturating_sub now_ms since < grace) WithinGrace) (\<lambda>_.
     let voter = fst keypair;
         msg = skip_vote_transcript cr (tr_domain t) (tr_set_hash t) round absentee voter reason (ob_stake ob)
     in and_then (ok_or ConflictingSkip (snd keypair msg)) (\<lambda>sg.
        Inr (\<lparr>sv_domain = tr_domain t, sv_set_hash = tr_set_hash t, sv_round = round,
              sv_absentee = absentee, sv_voter = voter, sv_reason = reason,
              sv_observed_stake = ob_stake ob, sv_signature = sg\<rparr>,
             note_skipped round absentee reason t))))))))"

definition adopt_certificate :: "skip_certificate \<Rightarrow> skip_tracker \<Rightarrow> skip_tracker" where
  "adopt_certificate c t = note_skipped (sc_round c) (sc_absentee c) (sc_reason c) t"

definition prune_observations_below :: "u64 \<Rightarrow> skip_tracker \<Rightarrow> skip_tracker" where
  "prune_observations_below round t =
     t\<lparr>tr_observations := mretain (\<lambda>(tracked, _, _) _. round \<le> tracked) (tr_observations t),
       tr_refused := filter (\<lambda>(tracked, _). round \<le> tracked) (tr_refused t)\<rparr>"

definition prune_record :: "u64 \<Rightarrow> u64 \<Rightarrow> skip_tracker \<Rightarrow> skip_tracker" where
  "prune_record finality_floor absence_floor t =
     t\<lparr>tr_record := record_prune finality_floor absence_floor (tr_record t)\<rparr>"

section \<open>Vote collectors\<close>

type_synonym skip_collector = "(u64 \<times> address \<times> absence_reason, (address, skip_vote) store) store"

definition saturating_power :: "validator_set \<Rightarrow> address list \<Rightarrow> u64" where
  "saturating_power vs voters =
     foldl (\<lambda>signing a. case get_validator vs a of
        Some v \<Rightarrow> saturating_add signing (v_stake v) | None \<Rightarrow> signing) 0 voters"

definition skip_collector_add ::
  "'z crypto_scheme \<Rightarrow> consensus_domain \<Rightarrow> validator_set \<Rightarrow> skip_vote \<Rightarrow> skip_collector \<Rightarrow>
   certificate_error + (skip_certificate option \<times> skip_collector)" where
  "skip_collector_add cr expected vs vote col =
     and_then (guard (sv_domain vote = expected) (WrongDomain expected (sv_domain vote))) (\<lambda>_.
     and_then (guard (sv_set_hash vote = validator_set_hash cr vs) WrongValidatorSet) (\<lambda>_.
     and_then (guard (\<not> sv_observed_stake vote < vs_quorum vs) (InconsistentVote 0)) (\<lambda>_.
     and_then (skip_verify_against cr vs vote) (\<lambda>_.
     let key = (sv_round vote, sv_absentee vote, sv_reason vote);
         col' = mentry key [] (mput (sv_voter vote) vote) col;
         round_votes = mput (sv_voter vote) vote
           (case map_of col key of None \<Rightarrow> [] | Some vs' \<Rightarrow> vs');
         signing = saturating_power vs (map fst round_votes)
     in Inr (if vs_quorum vs \<le> signing
             then Some \<lparr>sc_domain = expected, sc_set_hash = validator_set_hash cr vs,
                        sc_round = sv_round vote, sc_absentee = sv_absentee vote,
                        sc_reason = sv_reason vote, sc_votes = map snd round_votes\<rparr>
             else None, col')))))"

definition skip_collector_prune :: "u64 \<Rightarrow> skip_collector \<Rightarrow> skip_collector" where
  "skip_collector_prune round col = mretain (\<lambda>(tracked, _, _) _. round \<le> tracked) col"

type_synonym finality_collector = "(u64 \<times> hash256, (address, finality_vote) store) store"

definition finality_header :: "finality_vote \<Rightarrow> hash256 \<times> hash256 \<times> consensus_domain \<times> hash256" where
  "finality_header v = (fv_state_root v, fv_tx_root v, fv_domain v, fv_set_hash v)"

text \<open>\<open>or_default()\<close> creates the entry of the block before the equivocation check can refuse.\<close>

definition finality_collector_add ::
  "'z crypto_scheme \<Rightarrow> consensus_domain \<Rightarrow> validator_set \<Rightarrow> finality_vote \<Rightarrow> finality_collector \<Rightarrow>
   (certificate_error + finality_certificate option) \<times> finality_collector" where
  "finality_collector_add cr expected vs vote col =
     (if fv_domain vote \<noteq> expected then (Inl (WrongDomain expected (fv_domain vote)), col)
      else if fv_set_hash vote \<noteq> validator_set_hash cr vs then (Inl WrongValidatorSet, col)
      else case finality_verify_against cr vs vote of
        Inl e \<Rightarrow> (Inl e, col)
      | Inr _ \<Rightarrow>
          (let key = (fv_height vote, fv_block_hash vote);
               before = (case map_of col key of None \<Rightarrow> [] | Some m \<Rightarrow> m)
           in if (case map_of before (fv_voter vote) of
                    None \<Rightarrow> False
                  | Some old \<Rightarrow> (fv_state_root old, fv_tx_root old) \<noteq> (fv_state_root vote, fv_tx_root vote))
              then (Inl (InconsistentVote 0), mentry key [] (\<lambda>m. m) col)
              else
                let block_votes = mput (fv_voter vote) vote before;
                    matching = filter (\<lambda>(voter, stored). finality_header stored = finality_header vote \<and>
                      get_validator vs voter \<noteq> None) block_votes;
                    signing = saturating_power vs (map fst matching)
                in (Inr (if vs_quorum vs \<le> signing
                         then Some \<lparr>fc_domain = expected, fc_set_hash = validator_set_hash cr vs,
                                    fc_height = fv_height vote, fc_block_hash = fv_block_hash vote,
                                    fc_state_root = fv_state_root vote, fc_tx_root = fv_tx_root vote,
                                    fc_votes = map snd matching\<rparr>
                         else None),
                    mput key block_votes col)))"

definition finality_collector_prune :: "u64 \<Rightarrow> finality_collector \<Rightarrow> finality_collector" where
  "finality_collector_prune height col = mretain (\<lambda>(tracked, _) _. height \<le> tracked) col"

section \<open>Transcripts are injective and domain separated\<close>

lemma append_eq_length:
  "length a = length b \<Longrightarrow> a @ x = b @ y \<longleftrightarrow> a = b \<and> x = y"
  by auto

lemma length_domain_bytes [simp]: "length (domain_bytes d) = 48"
  by (simp add: domain_bytes_def)

lemma domain_bytes_inj [simp]: "domain_bytes d = domain_bytes d' \<longleftrightarrow> d = d'"
proof
  assume "domain_bytes d = domain_bytes d'"
  then have "cd_domain_hash d = cd_domain_hash d'" "cd_recovery_epoch d = cd_recovery_epoch d'"
    "cd_validator_set_id d = cd_validator_set_id d'"
    by (simp_all add: domain_bytes_def append_eq_length)
  then show "d = d'" by simp
qed simp

lemma finality_preimage_inj:
  "finality_vote_preimage d vsh h b s t v = finality_vote_preimage d' vsh' h' b' s' t' v' \<longleftrightarrow>
     d = d' \<and> vsh = vsh' \<and> h = h' \<and> b = b' \<and> s = s' \<and> t = t' \<and> v = v'"
  by (simp add: finality_vote_preimage_def append_eq_length)

lemma skip_preimage_inj:
  "skip_vote_preimage d vsh r a v re s = skip_vote_preimage d' vsh' r' a' v' re' s' \<longleftrightarrow>
     d = d' \<and> vsh = vsh' \<and> r = r' \<and> a = a' \<and> v = v' \<and> re = re' \<and> s = s'"
  by (cases re; cases re') (simp add: skip_vote_preimage_def append_eq_length)

lemma preimages_disjoint:
  "skip_vote_preimage d vsh r a v re s \<noteq> finality_vote_preimage d' vsh' h b sr tr v'"
proof
  assume "skip_vote_preimage d vsh r a v re s = finality_vote_preimage d' vsh' h b sr tr v'"
  then have "length (skip_vote_preimage d vsh r a v re s) =
      length (finality_vote_preimage d' vsh' h b sr tr v')" by simp
  then show False
    by (simp add: skip_vote_preimage_def finality_vote_preimage_def SKIP_VOTE_DOMAIN_def
        FINALITY_VOTE_DOMAIN_def ascii_def)
qed

section \<open>What a verified certificate carries\<close>

definition stake_of_vote :: "('v \<Rightarrow> certificate_error + u64) \<Rightarrow> 'v \<Rightarrow> nat" where
  "stake_of_vote check v = (case check v of Inl _ \<Rightarrow> 0 | Inr s \<Rightarrow> unat s)"

definition vote_accepted :: "('v \<Rightarrow> bool) \<Rightarrow> ('v \<Rightarrow> certificate_error + u64) \<Rightarrow> 'v \<Rightarrow> bool" where
  "vote_accepted ok check v \<longleftrightarrow> ok v \<and> (\<exists>s. check v = Inr s)"

lemma votes_loop_iff:
  "votes_loop ok voter check i seen acc vs = Some (Inr t) \<longleftrightarrow>
     (\<forall>v \<in> set vs. vote_accepted ok check v) \<and> distinct (map voter vs) \<and>
     (\<forall>v \<in> set vs. voter v \<notin> set seen) \<and> unat t = unat acc + (\<Sum>v\<leftarrow>vs. stake_of_vote check v)"
proof (induction vs arbitrary: i seen acc)
  case Nil
  then show ?case by (auto simp: word_unat_eq_iff)
next
  case (Cons v vs)
  show ?case
  proof (cases "check v")
    case (Inl e)
    then show ?thesis by (auto simp: vote_accepted_def)
  next
    case (Inr s)
    show ?thesis
    proof (cases "checked_add acc s")
      case None
      then have "2 ^ 64 \<le> unat acc + unat s" by (simp add: result_simps)
      moreover have "unat t < 2 ^ 64" by (rule unat_less_64)
      ultimately have "unat t \<noteq> unat acc + (\<Sum>v\<leftarrow>v # vs. stake_of_vote check v)"
        using Inr by (simp add: stake_of_vote_def)
      then show ?thesis using None Inr by auto
    next
      case (Some acc')
      then have "unat acc' = unat acc + unat s" by (simp add: result_simps)
      then show ?thesis
        using Cons.IH [of "Suc i" "voter v # seen" acc'] Inr Some
        by (auto simp: vote_accepted_def stake_of_vote_def image_iff)
    qed
  qed
qed

definition weighs :: "('v \<Rightarrow> certificate_error + u64) \<Rightarrow> ('v \<Rightarrow> address) \<Rightarrow> validator_set \<Rightarrow> bool" where
  "weighs check voter vs \<longleftrightarrow> (\<forall>v s. check v = Inr s \<longrightarrow> unat s = weight vs (voter v))"

lemma votes_loop_no_panic:
  assumes "valid_set vs" and "weighs check voter vs"
    and "distinct seen" and "unat acc = (\<Sum>a \<in> set seen. weight vs a)"
  shows "votes_loop ok voter check i seen acc votes \<noteq> None"
  using assms(3,4)
proof (induction votes arbitrary: i seen acc)
  case (Cons v votes)
  show ?case
  proof (cases "check v")
    case (Inr s)
    show ?thesis
    proof (cases "voter v \<in> set seen")
      case False
      then have sum: "unat acc + unat s = (\<Sum>a \<in> set (voter v # seen). weight vs a)"
        using Cons.prems assms(2) Inr by (simp add: weighs_def)
      also have "\<dots> \<le> set_power (vs_validators vs)"
        using assms(1) by (intro sum_weight_le) (simp_all add: valid_set_iff)
      also have "\<dots> = unat (vs_total_stake vs)" using assms(1) by (simp add: valid_set_iff)
      finally have "checked_add acc s \<noteq> None"
        using unat_less_64 [of "vs_total_stake vs"] by (simp add: result_simps)
      then obtain acc' where acc': "checked_add acc s = Some acc'" by blast
      then have "unat acc' = (\<Sum>a \<in> set (voter v # seen). weight vs a)"
        using sum by (simp add: result_simps)
      then show ?thesis
        using Cons.IH [of "voter v # seen" acc' "Suc i"] Cons.prems(1) False Inr acc' by simp
    qed simp
  qed simp
qed simp

lemma verify_voter_Inr:
  "verify_voter cr vs a sg msg = Inr s \<longleftrightarrow>
     (\<exists>v. get_validator vs a = Some v \<and> s = v_stake v) \<and> sig_verify cr sg msg a = Inr ()"
  by (cases "sig_verify cr sg msg a") (auto simp: verify_voter_def result_simps)

lemma verify_voter_weight: "verify_voter cr vs a sg msg = Inr s \<Longrightarrow> unat s = weight vs a"
  by (auto simp: verify_voter_Inr weight_def)

lemma finish_votes_iff:
  "finish_votes vs r = Some (Inr t) \<longleftrightarrow> r = Some (Inr t) \<and> vs_quorum vs \<le> t"
  by (cases r) (auto simp: finish_votes_def result_simps not_less)

lemma finish_votes_None: "finish_votes vs r = None \<longleftrightarrow> r = None"
  by (simp add: finish_votes_def)

text \<open>One statement for both certificate kinds: a verified vote list is a quorum of distinct
  members, each of whose signatures verifies.\<close>

lemma verified_votes_quorum:
  assumes "valid_set vs"
    and "weighs check voter vs"
    and "finish_votes vs (votes_loop ok voter check 0 [] 0 votes) = Some (Inr t)"
  shows "has_quorum vs (map voter votes)" and "distinct (map voter votes)"
    and "\<And>v. v \<in> set votes \<Longrightarrow> vote_accepted ok check v"
    and "unat t = (\<Sum>a \<in> voter ` set votes. weight vs a)"
proof -
  have loop: "(\<forall>v \<in> set votes. vote_accepted ok check v) \<and> distinct (map voter votes)"
    "unat t = (\<Sum>v\<leftarrow>votes. stake_of_vote check v)" "vs_quorum vs \<le> t"
    using assms(3) by (auto simp: finish_votes_iff votes_loop_iff)
  have "(\<Sum>v\<leftarrow>votes. stake_of_vote check v) = (\<Sum>v\<leftarrow>votes. weight vs (voter v))"
    using loop(1) assms(2)
    by (intro arg_cong [of _ _ sum_list] map_cong) (auto simp: vote_accepted_def stake_of_vote_def weighs_def)
  also have "\<dots> = (\<Sum>a \<in> voter ` set votes. weight vs a)"
    using loop(1) sum_list_distinct_conv_sum_set [of "map voter votes" "weight vs"] by (simp add: comp_def)
  finally show t: "unat t = (\<Sum>a \<in> voter ` set votes. weight vs a)" using loop(2) by simp
  show "distinct (map voter votes)" and "\<And>v. v \<in> set votes \<Longrightarrow> vote_accepted ok check v"
    using loop(1) by auto
  show "has_quorum vs (map voter votes)"
    using loop(3) t assms(1) by (simp add: has_quorum_iff word_le_nat_alt)
qed

lemma verified_votes_intro:
  assumes "valid_set vs"
    and "weighs check voter vs"
    and "\<forall>v \<in> set votes. vote_accepted ok check v" and "distinct (map voter votes)"
    and "unat t = (\<Sum>a \<in> voter ` set votes. weight vs a)" and "vs_quorum vs \<le> t"
  shows "finish_votes vs (votes_loop ok voter check 0 [] 0 votes) = Some (Inr t)"
proof -
  have "(\<Sum>v\<leftarrow>votes. stake_of_vote check v) = (\<Sum>v\<leftarrow>votes. weight vs (voter v))"
    using assms(2,3)
    by (intro arg_cong [of _ _ sum_list] map_cong) (auto simp: vote_accepted_def stake_of_vote_def weighs_def)
  also have "\<dots> = (\<Sum>a \<in> voter ` set votes. weight vs a)"
    using assms(4) sum_list_distinct_conv_sum_set [of "map voter votes" "weight vs"] by (simp add: comp_def)
  finally show ?thesis using assms(3-6) by (simp add: finish_votes_iff votes_loop_iff)
qed

lemma skip_weighs: "weighs (skip_verify_against cr vs) sv_voter vs"
  by (simp add: weighs_def skip_verify_against_def verify_voter_weight)

lemma finality_weighs: "weighs (finality_verify_against cr vs) fv_voter vs"
  by (simp add: weighs_def finality_verify_against_def verify_voter_weight)

lemma skip_certificate_no_panic: "valid_set vs \<Longrightarrow> skip_certificate_verify cr d vs c \<noteq> None"
  by (simp add: skip_certificate_verify_def finish_votes_None votes_loop_no_panic [OF _ skip_weighs]
      del: not_None_eq)

lemma finality_certificate_no_panic: "valid_set vs \<Longrightarrow> finality_certificate_verify cr d vs c \<noteq> None"
  by (simp add: finality_certificate_verify_def finish_votes_None votes_loop_no_panic [OF _ finality_weighs]
      del: not_None_eq)

lemma finality_certificate_verified:
  assumes "valid_set vs" and "finality_certificate_verify cr d vs c = Some (Inr t)"
  shows "fc_domain c = d" and "fc_set_hash c = validator_set_hash cr vs"
    and "has_quorum vs (map fv_voter (fc_votes c))"
    and "\<And>v. v \<in> set (fc_votes c) \<Longrightarrow> finality_header_ok c v \<and> fv_voter v \<in> members vs \<and>
      sig_verify cr (fv_signature v) (finality_transcript cr v) (fv_voter v) = Inr ()"
proof -
  have hd: "fc_domain c = d" "fc_set_hash c = validator_set_hash cr vs"
    and loop: "finish_votes vs (votes_loop (finality_header_ok c) fv_voter
        (finality_verify_against cr vs) 0 [] 0 (fc_votes c)) = Some (Inr t)"
    using assms(2) by (auto simp: finality_certificate_verify_def split: if_splits)
  note q = verified_votes_quorum [OF assms(1) finality_weighs loop]
  show "fc_domain c = d" "fc_set_hash c = validator_set_hash cr vs"
    "has_quorum vs (map fv_voter (fc_votes c))" using hd q(1) by auto
  fix v assume "v \<in> set (fc_votes c)"
  then show "finality_header_ok c v \<and> fv_voter v \<in> members vs \<and>
      sig_verify cr (fv_signature v) (finality_transcript cr v) (fv_voter v) = Inr ()"
    using q(3) by (auto simp: vote_accepted_def finality_verify_against_def verify_voter_Inr
        is_validator_def simp flip: is_validator_iff)
qed

section \<open>Collectors only hand out certificates that verify\<close>

lemma saturating_power_sum:
  assumes "valid_set vs" and "distinct as"
  shows "unat (saturating_power vs as) = (\<Sum>a \<in> set as. weight vs a)"
  using assms(2)
proof (induction as rule: rev_induct)
  case (snoc a as)
  have IH: "unat (saturating_power vs as) = (\<Sum>b \<in> set as. weight vs b)" using snoc by simp
  have step: "saturating_power vs (as @ [a]) = (case get_validator vs a of
      Some v \<Rightarrow> saturating_add (saturating_power vs as) (v_stake v) | None \<Rightarrow> saturating_power vs as)"
    by (cases "get_validator vs a") (simp_all add: saturating_power_def)
  have sum: "(\<Sum>b \<in> set (as @ [a]). weight vs b) = (\<Sum>b \<in> set as. weight vs b) + weight vs a"
    using snoc.prems by simp
  have "(\<Sum>b \<in> set (as @ [a]). weight vs b) \<le> unat (vs_total_stake vs)"
    using assms(1) sum_weight_le [of vs "set (as @ [a])"] by (simp add: valid_set_iff)
  then have "(\<Sum>b \<in> set as. weight vs b) + weight vs a < 2 ^ 64"
    using sum unat_less_64 [of "vs_total_stake vs"] by simp
  then show ?case
    using IH step sum by (cases "get_validator vs a") (auto simp: weight_def unat_saturating_add)
qed (simp add: saturating_power_def)

definition skip_vote_ok ::
  "'z crypto_scheme \<Rightarrow> consensus_domain \<Rightarrow> validator_set \<Rightarrow> u64 \<times> address \<times> absence_reason \<Rightarrow>
   address \<times> skip_vote \<Rightarrow> bool" where
  "skip_vote_ok cr d vs key e \<longleftrightarrow>
     (let v = snd e in sv_voter v = fst e \<and> (sv_round v, sv_absentee v, sv_reason v) = key \<and>
       sv_domain v = d \<and> sv_set_hash v = validator_set_hash cr vs \<and> vs_quorum vs \<le> sv_observed_stake v \<and>
       (\<exists>s. skip_verify_against cr vs v = Inr s))"

definition skip_col_ok ::
  "'z crypto_scheme \<Rightarrow> consensus_domain \<Rightarrow> validator_set \<Rightarrow> skip_collector \<Rightarrow> bool" where
  "skip_col_ok cr d vs col \<longleftrightarrow> mwf col \<and>
     (\<forall>(key, votes) \<in> set col. mwf votes \<and> (\<forall>e \<in> set votes. skip_vote_ok cr d vs key e))"

definition skip_collect_step ::
  "'z crypto_scheme \<Rightarrow> consensus_domain \<Rightarrow> validator_set \<Rightarrow> skip_collector \<Rightarrow> skip_vote \<Rightarrow> skip_collector" where
  "skip_collect_step cr d vs col v =
     (case skip_collector_add cr d vs v col of Inl _ \<Rightarrow> col | Inr (_, col') \<Rightarrow> col')"

lemma mput_not_Nil: "mput k v m \<noteq> []"
  by (induction k v m rule: mput.induct) auto

lemma skip_collector_add_Inr:
  assumes ok: "skip_col_ok cr d vs col" and add: "skip_collector_add cr d vs v col = Inr (r, col')"
  defines "key \<equiv> (sv_round v, sv_absentee v, sv_reason v)"
  defines "votes \<equiv> mput (sv_voter v) v (case map_of col key of None \<Rightarrow> [] | Some m \<Rightarrow> m)"
  shows "mwf votes \<and> (\<forall>e \<in> set votes. skip_vote_ok cr d vs key e)"
    and "col' = mput key votes col"
    and "r = (if vs_quorum vs \<le> saturating_power vs (map fst votes)
      then Some \<lparr>sc_domain = d, sc_set_hash = validator_set_hash cr vs, sc_round = sv_round v,
        sc_absentee = sv_absentee v, sc_reason = sv_reason v, sc_votes = map snd votes\<rparr> else None)"
proof -
  obtain s where v: "sv_domain v = d" "sv_set_hash v = validator_set_hash cr vs"
    "vs_quorum vs \<le> sv_observed_stake v" "skip_verify_against cr vs v = Inr s"
    using add by (auto simp: skip_collector_add_def result_simps not_less)
  show "col' = mput key votes col"
    and "r = (if vs_quorum vs \<le> saturating_power vs (map fst votes)
      then Some \<lparr>sc_domain = d, sc_set_hash = validator_set_hash cr vs, sc_round = sv_round v,
        sc_absentee = sv_absentee v, sc_reason = sv_reason v, sc_votes = map snd votes\<rparr> else None)"
    using add v by (auto simp: skip_collector_add_def Let_def key_def votes_def mentry_def not_less)
  have "mwf (case map_of col key of None \<Rightarrow> [] | Some m \<Rightarrow> m) \<and>
    (\<forall>e \<in> set (case map_of col key of None \<Rightarrow> [] | Some m \<Rightarrow> m). skip_vote_ok cr d vs key e)"
  proof (cases "map_of col key")
    case (Some m)
    then have "(key, m) \<in> set col" by (rule map_of_in_set)
    then have "mwf m \<and> (\<forall>e \<in> set m. skip_vote_ok cr d vs key e)"
      using ok unfolding skip_col_ok_def by blast
    then show ?thesis using Some by simp
  qed simp
  moreover have "skip_vote_ok cr d vs key (sv_voter v, v)"
    using v by (simp add: skip_vote_ok_def key_def)
  ultimately show "mwf votes \<and> (\<forall>e \<in> set votes. skip_vote_ok cr d vs key e)"
    by (auto simp: votes_def set_mput)
qed

lemma skip_collect_step_ok: "skip_col_ok cr d vs col \<Longrightarrow> skip_col_ok cr d vs (skip_collect_step cr d vs col v)"
proof (cases "skip_collector_add cr d vs v col")
  case (Inr b)
  assume ok: "skip_col_ok cr d vs col"
  obtain r col' where b: "b = (r, col')" by (cases b)
  show ?thesis
    using skip_collector_add_Inr [OF ok Inr [unfolded b]] ok Inr b
    by (auto simp: skip_collect_step_def skip_col_ok_def set_mput)
qed (simp add: skip_collect_step_def)

interpretation skip_collection: machine "skip_collect_step cr d vs" "skip_col_ok cr d vs" for cr d vs
  by unfold_locales (rule skip_collect_step_ok)

lemma skip_votes_certify:
  assumes val: "valid_set vs" and votes: "mwf votes" "\<forall>e \<in> set votes. skip_vote_ok cr d vs (r, a, re) e"
    and quorum: "vs_quorum vs \<le> saturating_power vs (map fst votes)" and ne: "votes \<noteq> []"
  shows "skip_certificate_verify cr d vs \<lparr>sc_domain = d, sc_set_hash = validator_set_hash cr vs,
    sc_round = r, sc_absentee = a, sc_reason = re, sc_votes = map snd votes\<rparr> =
    Some (Inr (saturating_power vs (map fst votes)))" (is "skip_certificate_verify cr d vs ?c = _")
proof -
  have voters: "map sv_voter (map snd votes) = map fst votes"
    using votes(2) by (auto simp: skip_vote_ok_def Let_def)
  have accepted: "\<forall>v \<in> set (map snd votes). vote_accepted (skip_header_ok vs ?c) (skip_verify_against cr vs) v"
    using votes(2) by (auto simp: skip_vote_ok_def Let_def vote_accepted_def skip_header_ok_def)
  have dist: "distinct (map fst votes)" by (rule mwf_distinct [OF votes(1)])
  have "sv_voter ` set (map snd votes) = set (map fst votes)" using voters by (metis set_map)
  then have "unat (saturating_power vs (map fst votes)) =
      (\<Sum>b \<in> sv_voter ` set (map snd votes). weight vs b)"
    using saturating_power_sum [OF val dist] by simp
  then have "finish_votes vs (votes_loop (skip_header_ok vs ?c) sv_voter (skip_verify_against cr vs)
      0 [] 0 (map snd votes)) = Some (Inr (saturating_power vs (map fst votes)))"
    using verified_votes_intro [OF val skip_weighs accepted] dist voters quorum by metis
  then show ?thesis using ne by (simp add: skip_certificate_verify_def)
qed

section \<open>The tracker never attests an absence it has seen refuted\<close>

datatype tracker_call =
    Observe u64 address absence_reason u64 bool u64 u64
  | Attest u64 address absence_reason u64 u64 u64
  | Adopt skip_certificate
  | Prune_Observations u64
  | Prune_Record u64 u64
  | Note_Commit u64
  | Note_Finality u64 "hash256 \<times> hash256 \<times> hash256"

fun tracker_step ::
  "'z crypto_scheme \<Rightarrow> address \<times> (hash256 \<Rightarrow> signature option) \<Rightarrow> skip_tracker \<Rightarrow> tracker_call \<Rightarrow> skip_tracker" where
  "tracker_step cr kp t (Observe r m re st holds q now) = observe r m re st holds q now t"
| "tracker_step cr kp t (Attest r a re cursor q now) =
     (case sign_if_permitted cr kp r a re cursor q now t of Inl _ \<Rightarrow> t | Inr (_, t') \<Rightarrow> t')"
| "tracker_step cr kp t (Adopt c) = adopt_certificate c t"
| "tracker_step cr kp t (Prune_Observations r) = prune_observations_below r t"
| "tracker_step cr kp t (Prune_Record f a) = prune_record f a t"
| "tracker_step cr kp t (Note_Commit r) = note_durable_commit_round r t"
| "tracker_step cr kp t (Note_Finality h i) = note_finality_vote h i t"

definition refuted :: "u64 \<Rightarrow> address \<Rightarrow> absence_reason \<Rightarrow> tracker_call list \<Rightarrow> bool" where
  "refuted r m re calls \<longleftrightarrow> (\<exists>st q now. Observe r m re st False q now \<in> set calls)"

definition pruned_at_most :: "u64 \<Rightarrow> tracker_call list \<Rightarrow> bool" where
  "pruned_at_most r calls \<longleftrightarrow> (\<forall>x. Prune_Observations x \<in> set calls \<longrightarrow> x \<le> r)"

lemma sign_if_permitted_Inr:
  assumes "sign_if_permitted cr kp r a re cursor q now t = Inr (v, t')"
  obtains ob since where "map_of (tr_observations t) (r, a, re) = Some ob" "\<not> ob_condition_broken ob"
    "q \<le> ob_stake ob" "ob_holding_since ob = Some since" "cursor \<le> r"
    "t' = note_skipped r a re t" "sv_round v = r" "sv_absentee v = a" "sv_observed_stake v = ob_stake ob"
  using assms by (auto simp: sign_if_permitted_def result_simps Let_def not_less)

lemma tracker_step_observations:
  "tr_observations (tracker_step cr kp t c) =
     (case c of
        Observe r m re st holds q now \<Rightarrow>
          mentry (r, m, re) blank_observation (observe_entry st holds q now) (tr_observations t)
      | Prune_Observations r \<Rightarrow> mretain (\<lambda>(tracked, _, _) _. r \<le> tracked) (tr_observations t)
      | _ \<Rightarrow> tr_observations t)"
proof (cases c)
  case (Attest r a re cursor q now)
  show ?thesis
  proof (cases "sign_if_permitted cr kp r a re cursor q now t")
    case (Inr b)
    then obtain v t' where b: "sign_if_permitted cr kp r a re cursor q now t = Inr (v, t')" by (cases b) auto
    have "t' = note_skipped r a re t" by (rule sign_if_permitted_Inr [OF b])
    then show ?thesis using Attest b by (simp add: note_skipped_def)
  qed (simp add: Attest)
qed (simp_all add: observe_def Let_def adopt_certificate_def note_skipped_def
    prune_observations_below_def prune_record_def note_durable_commit_round_def note_finality_vote_def)

lemma map_of_retain_rounds:
  "map_of (mretain (\<lambda>(tracked, _, _) _. x \<le> tracked) m) (r, a, re) = (if x \<le> r then map_of m (r, a, re) else None)"
  by (induction m) (auto simp: mretain_def)

text \<open>The observation of a round, as long as no prune went above it, remembers every refutation.\<close>

lemma tracker_remembers:
  assumes "tr_observations t = []" and "pruned_at_most r calls"
  shows "case map_of (tr_observations (foldl (tracker_step cr kp) t calls)) (r, m, re) of
      None \<Rightarrow> \<not> refuted r m re calls
    | Some ob \<Rightarrow> refuted r m re calls \<longrightarrow> ob_condition_broken ob"
  using assms(2)
proof (induction calls rule: rev_induct)
  case Nil
  then show ?case using assms(1) by (simp add: refuted_def)
next
  case (snoc c calls)
  let ?t = "foldl (tracker_step cr kp) t calls"
  have IH: "case map_of (tr_observations ?t) (r, m, re) of
      None \<Rightarrow> \<not> refuted r m re calls | Some ob \<Rightarrow> refuted r m re calls \<longrightarrow> ob_condition_broken ob"
    using snoc by (auto simp: pruned_at_most_def)
  have refuted: "refuted r m re (calls @ [c]) \<longleftrightarrow> refuted r m re calls \<or> refuted r m re [c]"
    by (auto simp: refuted_def)
  show ?case
  proof (cases c)
    case (Observe r' m' re' st holds q now)
    then have "refuted r m re [c] \<longleftrightarrow> (r', m', re', holds) = (r, m, re, False)" by (auto simp: refuted_def)
    moreover have "map_of (tr_observations (tracker_step cr kp ?t c)) (r, m, re) =
      (if (r', m', re') = (r, m, re)
       then Some (observe_entry st holds q now
         (case map_of (tr_observations ?t) (r, m, re) of None \<Rightarrow> blank_observation | Some ob \<Rightarrow> ob))
       else map_of (tr_observations ?t) (r, m, re))"
      using Observe by (auto simp: tracker_step_observations map_of_mentry simp del: tracker_step.simps)
    ultimately show ?thesis
      using IH refuted by (auto simp: observe_entry_def Let_def split: option.splits if_splits)
  next
    case (Prune_Observations x)
    then have "x \<le> r" using snoc.prems by (simp add: pruned_at_most_def)
    then have "map_of (tr_observations (tracker_step cr kp ?t c)) (r, m, re) =
        map_of (tr_observations ?t) (r, m, re)"
      using Prune_Observations by (simp add: tracker_step_observations map_of_retain_rounds del: tracker_step.simps)
    moreover have "\<not> refuted r m re [c]" using Prune_Observations by (simp add: refuted_def)
    ultimately show ?thesis using IH refuted by (simp split: option.splits)
  qed (use IH refuted in \<open>simp_all add: tracker_step_observations refuted_def del: tracker_step.simps split: option.splits\<close>)
qed

section \<open>Properties\<close>

text \<open>C12: two verified finality certificates, for whatever blocks, share a voter outside every set
  of faulty validators within the fault tolerance, and that voter's signatures verify over both
  transcripts. Two different blocks finalised at one height therefore prove a double signature by
  more stake than the tolerated faults.\<close>

theorem conflicting_finality_exposes_voter:
  assumes val: "valid_set vs"
    and c1: "finality_certificate_verify cr d vs c1 = Some (Inr t1)"
    and c2: "finality_certificate_verify cr d vs c2 = Some (Inr t2)"
    and F: "finite F" "sum (weight vs) F \<le> unat (fault_tolerance_stake vs)"
  shows "\<exists>v1 \<in> set (fc_votes c1). \<exists>v2 \<in> set (fc_votes c2).
    fv_voter v1 = fv_voter v2 \<and> fv_voter v1 \<in> members vs \<and> fv_voter v1 \<notin> F \<and>
    fv_block_hash v1 = fc_block_hash c1 \<and> fv_block_hash v2 = fc_block_hash c2 \<and>
    sig_verify cr (fv_signature v1) (finality_transcript cr v1) (fv_voter v1) = Inr () \<and>
    sig_verify cr (fv_signature v2) (finality_transcript cr v2) (fv_voter v2) = Inr ()"
proof -
  note v1 = finality_certificate_verified [OF val c1] and v2 = finality_certificate_verified [OF val c2]
  obtain a where a: "a \<in> fv_voter ` set (fc_votes c1)" "a \<in> fv_voter ` set (fc_votes c2)"
    "a \<in> members vs" "a \<notin> F"
    using quorum_overlap [OF val v1(3) v2(3) F] by auto
  then obtain w1 w2 where w: "w1 \<in> set (fc_votes c1)" "fv_voter w1 = a" "w2 \<in> set (fc_votes c2)" "fv_voter w2 = a"
    by auto
  show ?thesis
    using a(3,4) w v1(4) [OF w(1)] v2(4) [OF w(3)]
    by (intro bexI [of _ w1] bexI [of _ w2]) (simp_all add: finality_header_ok_def)
qed

definition sample_domain :: consensus_domain where
  "sample_domain = \<lparr>cd_domain_hash = 1, cd_recovery_epoch = 0, cd_validator_set_id = 0\<rparr>"

definition sample_finality :: "hash256 \<Rightarrow> finality_certificate" where
  "sample_finality h =
     \<lparr>fc_domain = sample_domain, fc_set_hash = validator_set_hash toy_crypto solo_set, fc_height = 1,
      fc_block_hash = h, fc_state_root = 0, fc_tx_root = 0,
      fc_votes = [\<lparr>fv_domain = sample_domain, fv_set_hash = validator_set_hash toy_crypto solo_set,
        fv_height = 1, fv_block_hash = h, fv_state_root = 0, fv_tx_root = 0, fv_voter = 32,
        fv_signature = Ed25519 1 (replicate 64 0)\<rparr>]\<rparr>"

lemma toy_signature: "sig_verify toy_crypto (Ed25519 1 (replicate 64 0)) msg 32 = Inr ()"
  by (simp add: sig_verify_ed25519 hash_bytes_def toy_crypto_def)

lemma sample_finality_verifies:
  "finality_certificate_verify toy_crypto sample_domain solo_set (sample_finality h) = Some (Inr 50000000)"
  by (simp add: finality_certificate_verify_def sample_finality_def finality_header_ok_def
      finality_verify_against_def verify_voter_def get_validator_def finish_votes_def checked_add_def
      solo_set_def toy_signature del: sig_verify.simps)

theorem conflicting_finality_exposes_voter_witness:
  "\<exists>v1 \<in> set (fc_votes (sample_finality 5)). \<exists>v2 \<in> set (fc_votes (sample_finality 6)).
    fv_voter v1 = fv_voter v2 \<and> fv_voter v1 \<in> members solo_set \<and> fv_voter v1 \<notin> {} \<and>
    fv_block_hash v1 = fc_block_hash (sample_finality 5) \<and> fv_block_hash v2 = fc_block_hash (sample_finality 6) \<and>
    sig_verify toy_crypto (fv_signature v1) (finality_transcript toy_crypto v1) (fv_voter v1) = Inr () \<and>
    sig_verify toy_crypto (fv_signature v2) (finality_transcript toy_crypto v2) (fv_voter v2) = Inr ()"
  by (rule conflicting_finality_exposes_voter [OF solo_set_valid sample_finality_verifies sample_finality_verifies])
    simp_all

text \<open>C13: whatever votes a skip collector has been fed, a certificate it returns verifies against the
  same domain and validator set.\<close>

theorem skip_collector_certifies:
  assumes "valid_set vs"
    and "skip_collector_add cr d vs v (foldl (skip_collect_step cr d vs) [] votes) = Inr (Some c, col)"
  shows "\<exists>signing. skip_certificate_verify cr d vs c = Some (Inr signing) \<and> vs_quorum vs \<le> signing"
proof -
  let ?col = "foldl (skip_collect_step cr d vs) [] votes"
  have ok: "skip_col_ok cr d vs ?col"
    by (rule skip_collection.run_inv) (simp add: skip_col_ok_def)
  note add = skip_collector_add_Inr [OF ok assms(2)]
  let ?votes = "mput (sv_voter v) v
    (case map_of ?col (sv_round v, sv_absentee v, sv_reason v) of None \<Rightarrow> [] | Some m \<Rightarrow> m)"
  have q: "vs_quorum vs \<le> saturating_power vs (map fst ?votes)"
    and c: "c = \<lparr>sc_domain = d, sc_set_hash = validator_set_hash cr vs, sc_round = sv_round v,
        sc_absentee = sv_absentee v, sc_reason = sv_reason v, sc_votes = map snd ?votes\<rparr>"
    using add(3) by (auto split: if_splits)
  show ?thesis
    using skip_votes_certify [OF assms(1) conjunct1 [OF add(1)] conjunct2 [OF add(1)] q mput_not_Nil] q
    by (intro exI conjI) (simp_all only: c)
qed

definition sample_skip_vote :: skip_vote where
  "sample_skip_vote =
     \<lparr>sv_domain = sample_domain, sv_set_hash = validator_set_hash toy_crypto solo_set, sv_round = 4,
      sv_absentee = 7, sv_voter = 32, sv_reason = NoBlock, sv_observed_stake = 40000000,
      sv_signature = Ed25519 1 (replicate 64 0)\<rparr>"

lemma sample_skip_vote_completes:
  "\<exists>c col. skip_collector_add toy_crypto sample_domain solo_set sample_skip_vote [] = Inr (Some c, col)"
  by (simp add: skip_collector_add_def sample_skip_vote_def skip_verify_against_def verify_voter_def
      get_validator_def saturating_power_def saturating_add_def solo_set_def toy_signature guard_def Let_def
      del: sig_verify.simps)

theorem skip_collector_certifies_witness:
  "\<exists>c col signing. skip_collector_add toy_crypto sample_domain solo_set sample_skip_vote [] = Inr (Some c, col) \<and>
     skip_certificate_verify toy_crypto sample_domain solo_set c = Some (Inr signing)"
proof -
  obtain c col where c: "skip_collector_add toy_crypto sample_domain solo_set sample_skip_vote [] = Inr (Some c, col)"
    using sample_skip_vote_completes by blast
  then have "\<exists>signing. skip_certificate_verify toy_crypto sample_domain solo_set c = Some (Inr signing) \<and>
      vs_quorum solo_set \<le> signing"
    by (intro skip_collector_certifies [of _ _ _ sample_skip_vote "[]" _ col] solo_set_valid) simp
  then show ?thesis using c by blast
qed

text \<open>C14: whatever calls a skip tracker has processed since it was created, it never signs an absence
  attestation for a round and member whose block it has observed, provided observations were pruned
  only below that round. An attestation it does sign is not below the commit cursor it was asked with and
  states at least the observed stake required, and the record it leaves marks that member as skipped in that
  round.\<close>

theorem tracker_never_attests_refuted:
  assumes "pruned_at_most r calls"
    and "sign_if_permitted cr kp r a re cursor q now
      (foldl (tracker_step cr kp) (tracker_init d vsh grace record) calls) = Inr (v, t)"
  shows "\<not> refuted r a re calls \<and> cursor \<le> r \<and> q \<le> sv_observed_stake v \<and> refuses t r a"
proof -
  let ?t = "foldl (tracker_step cr kp) (tracker_init d vsh grace record) calls"
  obtain ob where ob: "map_of (tr_observations ?t) (r, a, re) = Some ob" "\<not> ob_condition_broken ob"
    "q \<le> ob_stake ob" "cursor \<le> r" "t = note_skipped r a re ?t" "sv_observed_stake v = ob_stake ob"
    by (rule sign_if_permitted_Inr [OF assms(2)])
  have "tr_observations (tracker_init d vsh grace record) = []" by (simp add: tracker_init_def Let_def)
  then show ?thesis
    using tracker_remembers [OF _ assms(1), where t = "tracker_init d vsh grace record" and cr = cr and kp = kp and m = a and re = re] ob
    by (auto simp: refuses_def note_skipped_def)
qed

definition sample_tracker :: "tracker_call list \<Rightarrow> skip_tracker" where
  "sample_tracker calls =
     foldl (tracker_step toy_crypto (32, \<lambda>_. Some (Ed25519 1 (replicate 64 0))))
       (tracker_init sample_domain 0 50
         \<lparr>rec_skipped_rounds = [], rec_finality_votes = [], rec_last_applied_round = None\<rparr>) calls"

lemma sample_tracker_signs:
  "\<exists>v t. sign_if_permitted toy_crypto (32, \<lambda>_. Some (Ed25519 1 (replicate 64 0))) 4 7 NoBlock 0 30 200
     (sample_tracker [Observe 4 7 NoBlock 40 True 30 100]) = Inr (v, t)"
  by (simp add: sample_tracker_def sign_if_permitted_def tracker_init_def observe_def observe_entry_def
      blank_observation_def mentry_def saturating_sub_def guard_def Let_def)

theorem tracker_never_attests_refuted_witness:
  "\<exists>v t. sign_if_permitted toy_crypto (32, \<lambda>_. Some (Ed25519 1 (replicate 64 0))) 4 7 NoBlock 0 30 200
     (sample_tracker [Observe 4 7 NoBlock 40 True 30 100]) = Inr (v, t) \<and>
     \<not> refuted 4 7 NoBlock [Observe 4 7 NoBlock 40 True 30 100] \<and> refuses t 4 7"
proof -
  obtain v t where v: "sign_if_permitted toy_crypto (32, \<lambda>_. Some (Ed25519 1 (replicate 64 0))) 4 7 NoBlock 0 30 200
     (sample_tracker [Observe 4 7 NoBlock 40 True 30 100]) = Inr (v, t)"
    using sample_tracker_signs by blast
  have "pruned_at_most 4 [Observe 4 7 NoBlock 40 True 30 100]" by (simp add: pruned_at_most_def)
  then show ?thesis
    using tracker_never_attests_refuted [OF _ v [unfolded sample_tracker_def]] v by blast
qed

end
