(* ===== verification/Arc_Dag.thy ===== *)
theory Arc_Dag
  imports Arc_Validators Arc_Crypto Arc_Security Arc_Availability Arc_Certificates
begin

text \<open>
  The DAG of the consensus engine (\<open>crates/arc-consensus/src/lib.rs\<close>): \<open>DagBlock\<close> with its hashes,
  the state of \<open>ConsensusEngine\<close> as a record that extends the membership fields, and the handlers
  that add blocks: \<open>propose_block\<close>, \<open>receive_block\<close> and \<open>advance_round\<close>. Locks and atomics are
  sequential; the wall clock, the key pair and the wire encoding are arguments; the log, the round
  timer and \<open>node_role\<close> are left out. A failed \<open>expect\<close> is \<open>None\<close>.
\<close>

section \<open>Blocks\<close>

record dag_block =
  b_author :: address
  b_round :: u64
  b_parents :: "hash256 list"
  b_transactions :: "hash256 list"
  b_timestamp :: u64
  b_hash :: hash256
  b_signature :: "u8 list"
  b_ordering :: hash256

definition block_body :: "dag_block \<Rightarrow> u8 list" where
  "block_body b = hash_as_bytes (b_author b) @ u64_le (b_round b) @
     concat (map hash_as_bytes (b_parents b)) @ concat (map hash_as_bytes (b_transactions b)) @
     u64_le (b_timestamp b) @ hash_as_bytes (b_ordering b)"

definition domain_be_bytes :: "consensus_domain \<Rightarrow> u8 list" where
  "domain_be_bytes d = hash_as_bytes (cd_domain_hash d) @ u64_be (cd_recovery_epoch d) @
     u64_be (cd_validator_set_id d)"

definition compute_hash :: "'z crypto_scheme \<Rightarrow> dag_block \<Rightarrow> hash256" where
  "compute_hash cr b = blake3_derive_key cr ''ARC-dag-block-v1'' (block_body b)"

definition compute_hash_in_domain :: "'z crypto_scheme \<Rightarrow> consensus_domain \<Rightarrow> dag_block \<Rightarrow> hash256" where
  "compute_hash_in_domain cr d b =
     blake3_derive_key cr ''ARC-dag-block-v3'' (domain_be_bytes d @ block_body b)"

definition decision_commitment :: "'z crypto_scheme \<Rightarrow> consensus_domain \<Rightarrow> hash256 \<Rightarrow> u64 \<Rightarrow> hash256" where
  "decision_commitment cr d anchor round =
     blake3_derive_key cr ''ARC-dag-state-decision-v3''
       (domain_be_bytes d @ hash_as_bytes anchor @ u64_be round)"

definition state_decision_commitment :: "'z crypto_scheme \<Rightarrow> consensus_domain \<Rightarrow> dag_block \<Rightarrow> hash256" where
  "state_decision_commitment cr d b = decision_commitment cr d (b_hash b) (b_round b)"

definition compute_ordering_commitment :: "'z crypto_scheme \<Rightarrow> hash256 list \<Rightarrow> hash256" where
  "compute_ordering_commitment cr txs =
     blake3_derive_key cr ''ARC-ordering-commitment-v1'' (concat (map hash_as_bytes txs))"

definition verify_hash :: "'z crypto_scheme \<Rightarrow> dag_block \<Rightarrow> bool" where
  "verify_hash cr b \<longleftrightarrow> b_hash b = compute_hash cr b"

definition verify_hash_in_domain :: "'z crypto_scheme \<Rightarrow> consensus_domain \<Rightarrow> dag_block \<Rightarrow> bool" where
  "verify_hash_in_domain cr d b \<longleftrightarrow> b_hash b = compute_hash_in_domain cr d b"

text \<open>\<open>windows(2).all(|w| w[0].0 <= w[1].0)\<close>: the byte order of a hash is the order of its word.\<close>

fun windows_sorted :: "'a::linorder list \<Rightarrow> bool" where
  "windows_sorted (x # y # xs) \<longleftrightarrow> x \<le> y \<and> windows_sorted (y # xs)"
| "windows_sorted _ \<longleftrightarrow> True"

definition verify_ordering :: "'z crypto_scheme \<Rightarrow> dag_block \<Rightarrow> bool" where
  "verify_ordering cr b \<longleftrightarrow>
     (if \<not> windows_sorted (b_transactions b) then False
      else b_ordering b = compute_ordering_commitment cr (b_transactions b))"

section \<open>The engine\<close>

datatype cross_shard_status = Locked | Committed | Aborted

record cross_shard_proof =
  xs_tx_hash :: hash256
  xs_source_shard :: u16
  xs_target_shard :: u16
  xs_source_block_hash :: hash256
  xs_source_round :: u64
  xs_status :: cross_shard_status
  xs_lock_hash :: hash256
  xs_inclusion_proof :: "u8 list"
  xs_locked_at_ms :: u64
  xs_locked_at_round :: u64

record finality_proof =
  fp_block_hash :: hash256
  fp_round :: u64
  fp_height :: u64
  fp_quorum_signatures :: "(address \<times> u8 list) list"
  fp_signing_stake :: u64
  fp_total_stake :: u64

text \<open>The wire encoding (\<open>bincode\<close>, third-party) of the values the engine serialises.\<close>

record wire =
  wire_transactions :: "hash256 list \<Rightarrow> u8 list option"
  wire_lock :: "hash256 \<Rightarrow> u16 \<Rightarrow> u16 \<Rightarrow> u8 list option"
  wire_inclusion :: "hash256 \<Rightarrow> hash256 \<Rightarrow> u8 list option"
  wire_signature :: "signature \<Rightarrow> u8 list option"

definition PRUNE_DEPTH :: u64 where "PRUNE_DEPTH = 100"
definition DEFAULT_RETAINED_FINALITY_HEIGHTS :: u64 where "DEFAULT_RETAINED_FINALITY_HEIGHTS = 8192"
definition FINALITY_PRUNE_EVERY :: u64 where "FINALITY_PRUNE_EVERY = 256"
definition DEFAULT_RETAINED_ROUNDS :: u64 where "DEFAULT_RETAINED_ROUNDS = 4096"
definition SECURITY_HISTORY_DEPTH :: u64 where "SECURITY_HISTORY_DEPTH = 10 * PRUNE_DEPTH"

text \<open>The key pair is its signing function: the serialised signature, or \<open>None\<close> when signing
  fails.\<close>

record engine = committee +
  e_dag :: "(hash256, dag_block) store"
  e_rounds :: "(u64, hash256 list) store"
  e_committed :: "hash256 list"
  e_last_committed_round :: u64
  e_current_round :: u64
  e_local_address :: address
  e_local_keypair :: "(hash256 \<Rightarrow> u8 list option) option"
  e_testnet_mode :: bool
  e_author_round_blocks :: "(address \<times> u64, hash256) store"
  e_da_commitments :: "(hash256, da_commitment) store"
  e_pending_cross_shard :: "(hash256, cross_shard_proof) store"
  e_completed_cross_shard :: "(hash256, cross_shard_proof) store"
  e_finality_proofs :: "(hash256, finality_proof) store"
  e_force_advanced :: bool
  e_withholding_detector :: withholding_detector
  e_checkpoint_registry :: checkpoint_registry
  e_stake_tracker :: stake_tracker
  e_consensus_domain :: "consensus_domain option"
  e_certificate_domain :: "consensus_domain option"
  e_skip_certificates :: "(u64 \<times> address, skip_certificate) store"
  e_finality_certificates :: "(u64, finality_certificate) store"
  e_highest_finalized_height :: u64
  e_retained_finality_heights :: u64
  e_retained_rounds :: u64
  e_recovery_bootstrap_round :: "u64 option"
  e_restart_base_round :: "u64 option"
  e_proposal_floor :: u64
  e_dag_bootstrapping :: bool
  e_local_recovery_boundary_round :: "u64 option"
  e_local_recovery_replay_active :: bool

definition engine_new ::
  "validator_set \<Rightarrow> address \<Rightarrow> (hash256 \<Rightarrow> u8 list option) option \<Rightarrow> bool \<Rightarrow> engine" where
  "engine_new vs local keypair testnet =
     \<lparr>ce_validator_set = vs, ce_frozen_validator_set = vs, ce_pending_validators = [],
      ce_validator_keys = [], e_dag = [], e_rounds = [], e_committed = [], e_last_committed_round = 0,
      e_current_round = 0, e_local_address = local, e_local_keypair = keypair, e_testnet_mode = testnet,
      e_author_round_blocks = [], e_da_commitments = [], e_pending_cross_shard = [],
      e_completed_cross_shard = [], e_finality_proofs = [], e_force_advanced = False,
      e_withholding_detector = detector_new, e_checkpoint_registry = registry_new,
      e_stake_tracker = tracker_new, e_consensus_domain = None, e_certificate_domain = None,
      e_skip_certificates = [], e_finality_certificates = [], e_highest_finalized_height = 0,
      e_retained_finality_heights = DEFAULT_RETAINED_FINALITY_HEIGHTS,
      e_retained_rounds = DEFAULT_RETAINED_ROUNDS, e_recovery_bootstrap_round = None,
      e_restart_base_round = None, e_proposal_floor = 0, e_dag_bootstrapping = False,
      e_local_recovery_boundary_round = None, e_local_recovery_replay_active = False\<rparr>"

definition get_block :: "engine \<Rightarrow> hash256 \<Rightarrow> dag_block option" where
  "get_block e h = map_of (e_dag e) h"

definition blocks_in_round :: "engine \<Rightarrow> u64 \<Rightarrow> hash256 list" where
  "blocks_in_round e r = (case map_of (e_rounds e) r of None \<Rightarrow> [] | Some hs \<Rightarrow> hs)"

definition insert_block_into_dag :: "dag_block \<Rightarrow> engine \<Rightarrow> engine" where
  "insert_block_into_dag b e =
     e\<lparr>e_dag := mput (b_hash b) b (e_dag e),
       e_rounds := mentry (b_round b) [] (\<lambda>hs. hs @ [b_hash b]) (e_rounds e)\<rparr>"

definition store_da_commitment :: "da_commitment \<Rightarrow> engine \<Rightarrow> engine" where
  "store_da_commitment c e = e\<lparr>e_da_commitments := mput (da_block_hash c) c (e_da_commitments e)\<rparr>"

definition is_recovery_bootstrap_round :: "engine \<Rightarrow> u64 \<Rightarrow> bool" where
  "is_recovery_bootstrap_round e r \<longleftrightarrow> e_recovery_bootstrap_round e = Some r"

definition is_restart_base_round :: "engine \<Rightarrow> u64 \<Rightarrow> bool" where
  "is_restart_base_round e r \<longleftrightarrow>
     e_restart_base_round e = Some r \<and> e_last_committed_round e \<le> saturating_add r 1"

section \<open>Participation\<close>

definition requires_full_round_participation :: "engine \<Rightarrow> bool" where
  "requires_full_round_participation e \<longleftrightarrow> e_consensus_domain e \<noteq> None"

definition is_excused_for_round :: "engine \<Rightarrow> u64 \<Rightarrow> address \<Rightarrow> bool" where
  "is_excused_for_round e r a \<longleftrightarrow> mhas (e_skip_certificates e) (r, a)"

definition round_participation_satisfies_quorum ::
  "engine \<Rightarrow> validator_set \<Rightarrow> u64 \<Rightarrow> address list \<Rightarrow> u64 \<Rightarrow> bool" where
  "round_participation_satisfies_quorum e vs r authors stake \<longleftrightarrow>
     vs_quorum vs \<le> stake \<and>
     (\<not> requires_full_round_participation e \<or>
      list_all (\<lambda>v. v_stake v > 0 \<longrightarrow> v_address v \<in> set authors \<or> is_excused_for_round e r (v_address v))
        (vs_validators vs))"

text \<open>The accumulation of distinct author stake. A proposal or a received block looks the member up
  first; a round scan records the author first.\<close>

definition count_member :: "validator_set \<Rightarrow> address \<Rightarrow> address list \<times> u64 \<Rightarrow> (address list \<times> u64) option" where
  "count_member vs a acc =
     (case get_validator vs a of
        None \<Rightarrow> Some acc
      | Some v \<Rightarrow>
          if a \<in> set (fst acc) then Some acc
          else map_option (\<lambda>s. (a # fst acc, s)) (checked_add (snd acc) (v_stake v)))"

definition count_author :: "validator_set \<Rightarrow> address \<Rightarrow> address list \<times> u64 \<Rightarrow> (address list \<times> u64) option" where
  "count_author vs a acc =
     (if a \<in> set (fst acc) then Some acc
      else case get_validator vs a of
        None \<Rightarrow> Some (a # fst acc, snd acc)
      | Some v \<Rightarrow> map_option (\<lambda>s. (a # fst acc, s)) (checked_add (snd acc) (v_stake v)))"

fun tally :: "('a \<Rightarrow> 'b \<Rightarrow> 'b option) \<Rightarrow> 'a list \<Rightarrow> 'b \<Rightarrow> 'b option" where
  "tally f [] acc = Some acc"
| "tally f (a # as) acc = (case f a acc of None \<Rightarrow> None | Some acc' \<Rightarrow> tally f as acc')"

definition round_authors :: "engine \<Rightarrow> u64 \<Rightarrow> address list" where
  "round_authors e r = map b_author (List.map_filter (get_block e) (blocks_in_round e r))"

definition has_quorum_parents_for_round :: "engine \<Rightarrow> u64 \<Rightarrow> bool option" where
  "has_quorum_parents_for_round e r =
     map_option (\<lambda>(authors, stake).
       round_participation_satisfies_quorum e (ce_validator_set e) r authors stake)
       (tally (count_author (ce_validator_set e)) (round_authors e r) ([], 0))"

definition advance_round :: "engine \<Rightarrow> (bool \<times> engine) option" where
  "advance_round e =
     map_option (\<lambda>(authors, stake).
       if round_participation_satisfies_quorum e (ce_validator_set e) (e_current_round e) authors stake
       then (case checked_add (e_current_round e) 1 of
               None \<Rightarrow> (False, e)
             | Some r \<Rightarrow> (True, e\<lparr>e_current_round := r, e_force_advanced := False\<rparr>))
       else (False, e))
       (tally (count_author (ce_validator_set e)) (round_authors e (e_current_round e)) ([], 0))"

definition force_advance_round :: "engine \<Rightarrow> engine" where
  "force_advance_round e =
     (case checked_add (e_current_round e) 1 of
        None \<Rightarrow> e
      | Some r \<Rightarrow> e\<lparr>e_current_round := r, e_force_advanced := True\<rparr>)"

section \<open>Proposals\<close>

definition prune_security_history :: "u64 \<Rightarrow> engine \<Rightarrow> engine" where
  "prune_security_history round e =
     (if round mod PRUNE_DEPTH \<noteq> 0 then e
      else case checked_sub round SECURITY_HISTORY_DEPTH of
        None \<Rightarrow> e
      | Some before \<Rightarrow>
          e\<lparr>e_withholding_detector := detector_prune before (e_withholding_detector e),
            e_stake_tracker := prune_votes before (e_stake_tracker e)\<rparr>)"

text \<open>One step of the parent selection: the hash is kept when its block is known, its author is a
  member and no earlier hash had that author.\<close>

definition select_parent ::
  "engine \<Rightarrow> hash256 \<Rightarrow> hash256 list \<times> address list \<times> u64 \<Rightarrow>
   (hash256 list \<times> address list \<times> u64) option" where
  "select_parent e h acc =
     (case get_block e h of
        None \<Rightarrow> Some acc
      | Some b \<Rightarrow>
          (case get_validator (ce_validator_set e) (b_author b) of
             None \<Rightarrow> Some acc
           | Some v \<Rightarrow>
               if b_author b \<in> set (fst (snd acc)) then Some acc
               else map_option (\<lambda>s. (fst acc @ [h], b_author b # fst (snd acc), s))
                      (checked_add (snd (snd acc)) (v_stake v))))"

definition proposal_parents :: "engine \<Rightarrow> u64 \<Rightarrow> (consensus_error + hash256 list) option" where
  "proposal_parents e round =
     (if round = 0 \<or> is_recovery_bootstrap_round e round then Some (Inr [])
      else map_option (\<lambda>(parents, authors, stake).
        if round_participation_satisfies_quorum e (ce_validator_set e) (round - 1) authors stake
        then Inr parents else Inl InsufficientParents)
        (tally (select_parent e) (sort (blocks_in_round e (round - 1))) ([], [], 0)))"

definition may_propose :: "engine \<Rightarrow> consensus_error + unit" where
  "may_propose e =
     and_then (guard (can_produce_blocks (ce_validator_set e) (e_local_address e)) NotValidator) (\<lambda>_.
     and_then (guard (\<not> mhas (e_author_round_blocks e) (e_local_address e, e_current_round e)) DuplicateBlock) (\<lambda>_.
     guard (\<not> (e_proposal_floor e > 0 \<and> e_current_round e \<le> e_proposal_floor e)) DuplicateBlock))"

definition domain_hash_of :: "'z crypto_scheme \<Rightarrow> engine \<Rightarrow> dag_block \<Rightarrow> hash256" where
  "domain_hash_of cr e b =
     (case e_consensus_domain e of Some d \<Rightarrow> compute_hash_in_domain cr d b | None \<Rightarrow> compute_hash cr b)"

definition build_block ::
  "'z crypto_scheme \<Rightarrow> engine \<Rightarrow> hash256 list \<Rightarrow> hash256 list \<Rightarrow> u64 \<Rightarrow> consensus_error + dag_block" where
  "build_block cr e parents txs ts =
     (let txs' = sort txs;
          b0 = \<lparr>b_author = e_local_address e, b_round = e_current_round e, b_parents = parents,
                b_transactions = txs', b_timestamp = ts, b_hash = 0, b_signature = [],
                b_ordering = compute_ordering_commitment cr txs'\<rparr>;
          b1 = b0\<lparr>b_hash := domain_hash_of cr e b0\<rparr>
      in case e_local_keypair e of
           None \<Rightarrow> Inr b1
         | Some sign \<Rightarrow>
             (case sign (b_hash b1) of
                None \<Rightarrow> Inl (InvalidBlock ''failed to sign block'')
              | Some sg \<Rightarrow> Inr (b1\<lparr>b_signature := sg\<rparr>)))"

definition record_proposal :: "'z crypto_scheme \<Rightarrow> wire \<Rightarrow> dag_block \<Rightarrow> engine \<Rightarrow> engine option" where
  "record_proposal cr w b e =
     (let e1 = insert_block_into_dag b e;
          e2 = e1\<lparr>e_author_round_blocks := mput (b_author b, b_round b) (b_hash b) (e_author_round_blocks e1)\<rparr>;
          block_data = (case wire_transactions w (b_transactions b) of None \<Rightarrow> [] | Some bs \<Rightarrow> bs)
      in map_option (\<lambda>c.
           let e3 = store_da_commitment c e2;
               wd = report_received (e_local_address e) (b_round b)
                      (report_expected (e_local_address e) (b_round b) (e_withholding_detector e3))
           in prune_security_history (b_round b) (e3\<lparr>e_withholding_detector := wd\<rparr>))
         (create_da_commitment cr block_data (b_hash b)))"

definition propose_block ::
  "'z crypto_scheme \<Rightarrow> wire \<Rightarrow> hash256 list \<Rightarrow> u64 \<Rightarrow> engine \<Rightarrow> (consensus_error + dag_block \<times> engine) option" where
  "propose_block cr w txs ts e =
     (case may_propose e of
        Inl err \<Rightarrow> Some (Inl err)
      | Inr _ \<Rightarrow>
          (case proposal_parents e (e_current_round e) of
             None \<Rightarrow> None
           | Some (Inl err) \<Rightarrow> Some (Inl err)
           | Some (Inr parents) \<Rightarrow>
               (case build_block cr e parents txs ts of
                  Inl err \<Rightarrow> Some (Inl err)
                | Inr b \<Rightarrow> map_option (\<lambda>e'. Inr (b, e')) (record_proposal cr w b e))))"

section \<open>Received blocks\<close>

definition is_authentic_committee_block :: "'z crypto_scheme \<Rightarrow> engine \<Rightarrow> dag_block \<Rightarrow> bool" where
  "is_authentic_committee_block cr e b \<longleftrightarrow>
     can_produce_blocks (ce_validator_set e) (b_author b) \<and> b_hash b = domain_hash_of cr e b \<and>
     b_signature b \<noteq> [] \<and>
     (case signature_decode cr (b_signature b) of
        None \<Rightarrow> False
      | Some sg \<Rightarrow>
          sig_verify cr sg (b_hash b) (b_author b) = Inr () \<and>
          (case (map_of (ce_validator_keys e) (b_author b), sg) of
             (Some key, Ed25519 pk _) \<Rightarrow> pk = key
           | _ \<Rightarrow> True))"

definition check_signature :: "'z crypto_scheme \<Rightarrow> engine \<Rightarrow> dag_block \<Rightarrow> consensus_error + unit" where
  "check_signature cr e b =
     (if b_signature b \<noteq> [] then
        and_then (ok_or InvalidSignature (signature_decode cr (b_signature b))) (\<lambda>sg.
        case sig_verify cr sg (b_hash b) (b_author b) of
          Inl _ \<Rightarrow> Inl InvalidSignature
        | Inr _ \<Rightarrow>
            (case (map_of (ce_validator_keys e) (b_author b), sg) of
               (Some key, Ed25519 pk _) \<Rightarrow> guard (pk = key) InvalidSignature
             | _ \<Rightarrow> Inr ()))
      else guard (e_local_keypair e = None) InvalidSignature)"

text \<open>The parent loop: parents that are absent or of another round are missing; the others count
  their author once.\<close>

definition count_parent ::
  "engine \<Rightarrow> u64 \<Rightarrow> hash256 \<Rightarrow> nat \<times> address list \<times> u64 \<Rightarrow> (nat \<times> address list \<times> u64) option" where
  "count_parent e expected h acc =
     (case get_block e h of
        None \<Rightarrow> Some (Suc (fst acc), snd acc)
      | Some p \<Rightarrow>
          if b_round p \<noteq> expected then Some (Suc (fst acc), snd acc)
          else map_option (\<lambda>m. (fst acc, m)) (count_member (ce_validator_set e) (b_author p) (snd acc)))"

definition parent_list_well_formed :: "dag_block \<Rightarrow> bool" where
  "parent_list_well_formed b \<longleftrightarrow>
     \<not> (b_parents b = [] \<or> 0 \<in> set (b_parents b) \<or> length (remdups (b_parents b)) \<noteq> length (b_parents b))"

definition check_parents :: "engine \<Rightarrow> bool \<Rightarrow> dag_block \<Rightarrow> (consensus_error + unit) option" where
  "check_parents e base_exception b =
     (if b_round b = 0 \<or> is_recovery_bootstrap_round e (b_round b)
      then Some (guard (b_parents b = []) (InvalidBlock ''bootstrap block must not have parents''))
      else if base_exception \<and> is_restart_base_round e (b_round b)
      then Some (guard (parent_list_well_formed b)
        (InvalidBlock ''restart base round block has an empty, zero, or duplicate parent list''))
      else if e_local_recovery_replay_active e \<and> e_local_recovery_boundary_round e = Some (b_round b)
      then Some (guard (parent_list_well_formed b)
        (InvalidBlock ''local recovery boundary has an empty, zero, or duplicate parent commitment''))
      else map_option (\<lambda>(missing, authors, stake).
        if missing > 0 then Inl (MissingParents (b_hash b) missing)
        else guard (round_participation_satisfies_quorum e (ce_validator_set e)
          (saturating_sub (b_round b) 1) authors stake) InsufficientParents)
        (tally (count_parent e (b_round b - 1)) (b_parents b) (0, [], 0)))"

definition check_block :: "'z crypto_scheme \<Rightarrow> bool \<Rightarrow> dag_block \<Rightarrow> engine \<Rightarrow> (consensus_error + unit) option" where
  "check_block cr base_exception b e =
     (case
        and_then (guard (can_produce_blocks (ce_validator_set e) (b_author b)) NotValidator) (\<lambda>_.
        and_then (guard (\<not> mhas (e_dag e) (b_hash b)) DuplicateBlock) (\<lambda>_.
        and_then (guard (b_hash b = domain_hash_of cr e b)
          (InvalidBlock ''hash does not match block contents'')) (\<lambda>_.
        and_then (guard (verify_ordering cr b)
          (MevOrderingViolation ''transactions not in canonical order'')) (\<lambda>_.
        and_then (check_signature cr e b) (\<lambda>_.
        guard (\<not> saturating_sub (b_round b) (e_current_round e) > 1)
          (RoundTooFarAhead (b_round b) (e_current_round e)))))))
      of Inl err \<Rightarrow> Some (Inl err) | Inr _ \<Rightarrow> check_parents e base_exception b)"

record equivocation_proof =
  eq_author :: address
  eq_round :: u64
  eq_block1_hash :: hash256
  eq_block2_hash :: hash256

definition detect_equivocation :: "dag_block \<Rightarrow> engine \<Rightarrow> equivocation_proof option" where
  "detect_equivocation b e =
     (case map_of (e_author_round_blocks e) (b_author b, b_round b) of
        Some existing \<Rightarrow>
          if existing \<noteq> b_hash b
          then Some \<lparr>eq_author = b_author b, eq_round = b_round b, eq_block1_hash = existing,
                     eq_block2_hash = b_hash b\<rparr>
          else None
      | None \<Rightarrow> None)"

text \<open>An offence report followed by the slash it names; \<open>None\<close> is the \<open>expect\<close> of the recount.\<close>

definition report_and_slash ::
  "address \<Rightarrow> slashable_offense \<Rightarrow> hash256 \<Rightarrow> u64 \<Rightarrow> u64 \<Rightarrow> 'z committee_scheme \<Rightarrow>
   (consensus_error + slash_record) \<times> 'z committee_scheme option" where
  "report_and_slash offender offense evidence round ts ce =
     (case report_offense offender offense evidence round ts (ce_validator_set ce) of
        Inl err \<Rightarrow> (Inl err, Some ce)
      | Inr (rc, vs) \<Rightarrow>
          (Inr rc, map_option (\<lambda>vs'. ce\<lparr>ce_validator_set := vs'\<rparr>)
             (apply_slash offender (sr_slash_amount rc) vs)))"

definition note_author_round :: "'z crypto_scheme \<Rightarrow> dag_block \<Rightarrow> engine \<Rightarrow> engine option" where
  "note_author_round cr b e =
     (case detect_equivocation b e of
        Some q \<Rightarrow>
          if e_consensus_domain e \<noteq> None then Some e
          else snd (report_and_slash (b_author b) EquivocationDAG
            (hash_pair cr (eq_block1_hash q) (eq_block2_hash q)) (b_round b) (b_timestamp b) e)
      | None \<Rightarrow> Some (e\<lparr>e_author_round_blocks :=
          mor_insert (b_author b, b_round b) (b_hash b) (e_author_round_blocks e)\<rparr>))"

definition track_received :: "dag_block \<Rightarrow> engine \<Rightarrow> engine" where
  "track_received b e =
     (let e1 = e\<lparr>e_withholding_detector :=
            report_received (b_author b) (b_round b) (e_withholding_detector e)\<rparr>;
          is_equivocation = (case map_of (e_author_round_blocks e) (b_author b, b_round b) of
            Some existing \<Rightarrow> existing \<noteq> b_hash b | None \<Rightarrow> False)
      in if is_equivocation then e1
         else e1\<lparr>e_stake_tracker := report_vote (b_author b) (b_round b) (b_hash b) (e_stake_tracker e1)\<rparr>)"

definition receive_block_inner_with_persistence ::
  "'z crypto_scheme \<Rightarrow> dag_block \<Rightarrow> bool \<Rightarrow> (dag_block \<Rightarrow> consensus_error + unit) \<Rightarrow> engine \<Rightarrow>
   (consensus_error + engine) option" where
  "receive_block_inner_with_persistence cr b base_exception persist e =
     (case check_block cr base_exception b e of
        None \<Rightarrow> None
      | Some (Inl err) \<Rightarrow> Some (Inl err)
      | Some (Inr _) \<Rightarrow>
          (case persist b of
             Inl err \<Rightarrow> Some (Inl err)
           | Inr _ \<Rightarrow>
               map_option (\<lambda>e1. Inr (prune_security_history (b_round b)
                 (track_received b (insert_block_into_dag b e1)))) (note_author_round cr b e)))"

definition receive_block :: "'z crypto_scheme \<Rightarrow> dag_block \<Rightarrow> engine \<Rightarrow> (consensus_error + engine) option" where
  "receive_block cr b e = receive_block_inner_with_persistence cr b False (\<lambda>_. Inr ()) e"

section \<open>Repositioning\<close>

text \<open>The round timer that these also reset is not part of the model.\<close>

definition check_rebase :: "u64 \<Rightarrow> engine \<Rightarrow> consensus_error + u64" where
  "check_rebase anchor_round e =
     and_then (ok_or (InvalidBlock ''checkpoint anchor round overflows'') (checked_add anchor_round 1)) (\<lambda>cursor.
     if e_recovery_bootstrap_round e \<noteq> None
     then Inl (InvalidBlock ''a recovery-domain engine is repositioned by its signed recovery path'')
     else if cursor \<le> e_last_committed_round e
     then Inl (InvalidBlock ''a checkpoint must move the commit cursor forward'')
     else Inr cursor)"

definition rebase_to :: "u64 \<Rightarrow> engine \<Rightarrow> consensus_error + u64 \<times> engine" where
  "rebase_to anchor_round e =
     and_then (check_rebase anchor_round e) (\<lambda>cursor.
     let reached = e_current_round e in
     Inr (cursor, e\<lparr>e_dag := [], e_rounds := [], e_committed := [], e_author_round_blocks := [],
       e_da_commitments := [], e_finality_proofs := [],
       e_proposal_floor := max (e_proposal_floor e) reached, e_current_round := max reached cursor,
       e_last_committed_round := cursor, e_restart_base_round := Some cursor\<rparr>))"

definition restore_round_from_local_wal :: "u64 \<Rightarrow> u64 \<Rightarrow> engine \<Rightarrow> engine" where
  "restore_round_from_local_wal round committed e =
     (if committed > round then e
      else let e1 = e\<lparr>e_proposal_floor := max (e_proposal_floor e) round\<rparr> in
        if round > e_current_round e
        then e1\<lparr>e_current_round := round, e_last_committed_round := committed\<rparr> else e1)"

definition reset_dag :: "engine \<Rightarrow> engine" where
  "reset_dag e = e\<lparr>e_current_round := 0, e_dag := [], e_rounds := [], e_committed := [],
     e_author_round_blocks := [], e_finality_proofs := [], e_force_advanced := False\<rparr>"

section \<open>Tallies are exact on a valid set\<close>

text \<open>What an accumulator of distinct stake means: the authors recorded so far, once each, and the sum
  of their weights.\<close>

definition tally_ok :: "validator_set \<Rightarrow> address list \<times> u64 \<Rightarrow> bool" where
  "tally_ok vs acc \<longleftrightarrow> distinct (fst acc) \<and> unat (snd acc) = sum (weight vs) (set (fst acc))"

lemma tally_ok_empty [simp]: "tally_ok vs ([], 0)"
  by (simp add: tally_ok_def)

lemma checked_add_weight:
  assumes "valid_set vs" and "tally_ok vs acc" and "a \<notin> set (fst acc)" and "get_validator vs a = Some v"
  shows "\<exists>s. checked_add (snd acc) (v_stake v) = Some s \<and> tally_ok vs (a # fst acc, s)"
proof -
  have "sum (weight vs) (insert a (set (fst acc))) \<le> unat (vs_total_stake vs)"
    using assms(1) sum_weight_le [of vs "insert a (set (fst acc))"] by (simp add: valid_set_iff)
  moreover have "sum (weight vs) (insert a (set (fst acc))) = unat (v_stake v) + unat (snd acc)"
    using assms(2-4) by (simp add: tally_ok_def weight_def)
  ultimately have "unat (snd acc) + unat (v_stake v) < 2 ^ 64"
    using unat_less_64 [of "vs_total_stake vs"] by simp
  then obtain s :: u64 where "unat s = unat (snd acc) + unat (v_stake v)"
    using unat_surj [where 'a = 64, of "unat (snd acc) + unat (v_stake v)"] by auto
  then show ?thesis using assms(2-4) by (auto simp: checked_add_Some_iff tally_ok_def weight_def)
qed

lemma count_member_ok:
  assumes "valid_set vs" and "tally_ok vs acc"
  shows "\<exists>acc'. count_member vs a acc = Some acc' \<and> tally_ok vs acc' \<and>
    set (fst acc') = set (fst acc) \<union> ({a} \<inter> members vs)"
proof (cases "get_validator vs a")
  case None
  then have "a \<notin> members vs" by (simp add: is_validator_def flip: is_validator_iff)
  then show ?thesis using None assms(2) by (simp add: count_member_def)
next
  case (Some v)
  then have "a \<in> members vs" by (simp add: is_validator_def flip: is_validator_iff)
  then show ?thesis
    using Some assms(2) checked_add_weight [OF assms _ Some]
    by (cases "a \<in> set (fst acc)") (auto simp: count_member_def)
qed

lemma count_author_ok:
  assumes "valid_set vs" and "tally_ok vs acc"
  shows "\<exists>acc'. count_author vs a acc = Some acc' \<and> tally_ok vs acc' \<and>
    set (fst acc') = insert a (set (fst acc))"
proof (cases "a \<in> set (fst acc)")
  case True
  then show ?thesis using assms(2) by (auto simp: count_author_def)
next
  case False
  show ?thesis
  proof (cases "get_validator vs a")
    case None
    then show ?thesis using False assms(2) by (auto simp: count_author_def tally_ok_def weight_def)
  next
    case (Some v)
    then show ?thesis using False checked_add_weight [OF assms False Some] by (auto simp: count_author_def)
  qed
qed

lemma tally_members:
  assumes "valid_set vs" and "tally_ok vs acc"
  shows "\<exists>acc'. tally (count_member vs) as acc = Some acc' \<and> tally_ok vs acc' \<and>
    set (fst acc') = set (fst acc) \<union> (set as \<inter> members vs)"
  using assms(2)
proof (induction as arbitrary: acc)
  case (Cons a as)
  obtain acc1 where "count_member vs a acc = Some acc1" "tally_ok vs acc1"
    "set (fst acc1) = set (fst acc) \<union> ({a} \<inter> members vs)"
    using count_member_ok [OF assms(1) Cons.prems] by blast
  then show ?case using Cons.IH [of acc1] by auto
qed simp

lemma tally_authors:
  assumes "valid_set vs" and "tally_ok vs acc"
  shows "\<exists>acc'. tally (count_author vs) as acc = Some acc' \<and> tally_ok vs acc' \<and>
    set (fst acc') = set (fst acc) \<union> set as"
  using assms(2)
proof (induction as arbitrary: acc)
  case (Cons a as)
  obtain acc1 where "count_author vs a acc = Some acc1" "tally_ok vs acc1"
    "set (fst acc1) = insert a (set (fst acc))"
    using count_author_ok [OF assms(1) Cons.prems] by blast
  then show ?case using Cons.IH [of acc1] by auto
qed simp

text \<open>The participation test on the tally of some authors: a quorum, and in a recovery domain every
  member with stake present or excused.\<close>

definition participates :: "engine \<Rightarrow> validator_set \<Rightarrow> u64 \<Rightarrow> address set \<Rightarrow> bool" where
  "participates e vs r A \<longleftrightarrow>
     unat (vs_quorum vs) \<le> sum (weight vs) A \<and>
     (e_consensus_domain e = None \<or>
      (\<forall>v \<in> set (vs_validators vs). v_stake v > 0 \<longrightarrow> v_address v \<in> A \<or> is_excused_for_round e r (v_address v)))"

lemma participation_tally:
  assumes "tally_ok vs (authors, stake)"
  shows "round_participation_satisfies_quorum e vs r authors stake \<longleftrightarrow> participates e vs r (set authors)"
  using assms
  by (auto simp: round_participation_satisfies_quorum_def participates_def tally_ok_def
      requires_full_round_participation_def list_all_iff word_le_nat_alt)

lemma participates_quorum:
  assumes "valid_set vs" and "participates e vs r (set as)"
  shows "has_quorum vs as"
  using assms by (simp add: participates_def has_quorum_iff)

lemma unat_max_u64: "unat (- 1 :: u64) = 2 ^ 64 - 1"
  by (simp add: unsigned_minus_1_eq_mask mask_eq_exp_minus_1)

lemma checked_add_one: "checked_add (r :: u64) 1 = (if r = - 1 then None else Some (r + 1))"
proof (cases "r = - 1")
  case False
  then have "unat r \<noteq> 2 ^ 64 - 1"
    using word_unat_eq_iff [of r "- 1"] unat_max_u64 by simp
  then show ?thesis using False unat_less_64 [of r] by (simp add: checked_add_def)
qed (simp add: checked_add_def unat_max_u64)

lemma advance_round_valid:
  assumes "valid_set (ce_validator_set e)"
  shows "advance_round e = Some (
    if participates e (ce_validator_set e) (e_current_round e) (set (round_authors e (e_current_round e)))
       \<and> e_current_round e \<noteq> - 1
    then (True, e\<lparr>e_current_round := e_current_round e + 1, e_force_advanced := False\<rparr>)
    else (False, e))"
proof -
  obtain acc where acc: "tally (count_author (ce_validator_set e)) (round_authors e (e_current_round e)) ([], 0) = Some acc"
    "tally_ok (ce_validator_set e) acc" "set (fst acc) = set (round_authors e (e_current_round e))"
    using tally_authors [OF assms tally_ok_empty, of "round_authors e (e_current_round e)"] by auto
  obtain authors stake where "acc = (authors, stake)" by (cases acc)
  then show ?thesis
    using acc by (auto simp: advance_round_def participation_tally checked_add_one split: option.splits)
qed

section \<open>What an accepted block brings\<close>

text \<open>The parents of a block that this node holds at the round below it.\<close>

definition held_parents :: "engine \<Rightarrow> dag_block \<Rightarrow> dag_block list" where
  "held_parents e b =
     filter (\<lambda>p. b_round p = b_round b - 1) (List.map_filter (get_block e) (b_parents b))"

definition parent_absent :: "engine \<Rightarrow> u64 \<Rightarrow> hash256 \<Rightarrow> bool" where
  "parent_absent e expected h \<longleftrightarrow> (case get_block e h of None \<Rightarrow> True | Some p \<Rightarrow> b_round p \<noteq> expected)"

lemma tally_parents:
  assumes "valid_set (ce_validator_set e)" and "tally_ok (ce_validator_set e) acc"
  shows "\<exists>acc'. tally (count_parent e expected) hs (m, acc) =
      Some (m + length (filter (parent_absent e expected) hs), acc') \<and>
    tally_ok (ce_validator_set e) acc' \<and>
    set (fst acc') = set (fst acc) \<union> (b_author ` set (filter (\<lambda>p. b_round p = expected)
      (List.map_filter (get_block e) hs)) \<inter> members (ce_validator_set e))"
  using assms(2)
proof (induction hs arbitrary: m acc)
  case (Cons h hs)
  show ?case
  proof (cases "parent_absent e expected h")
    case True
    then have "count_parent e expected h (m, acc) = Some (Suc m, acc)"
      by (auto simp: count_parent_def parent_absent_def split: option.splits)
    moreover have "set (filter (\<lambda>p. b_round p = expected) (List.map_filter (get_block e) (h # hs))) =
        set (filter (\<lambda>p. b_round p = expected) (List.map_filter (get_block e) hs))"
      using True by (auto simp: parent_absent_def List.map_filter_simps split: option.splits)
    ultimately show ?thesis using True Cons.IH [OF Cons.prems, of "Suc m"] by auto
  next
    case False
    then obtain p where p: "get_block e h = Some p" "b_round p = expected"
      by (auto simp: parent_absent_def split: option.splits)
    obtain acc1 where acc1: "count_member (ce_validator_set e) (b_author p) acc = Some acc1"
      "tally_ok (ce_validator_set e) acc1"
      "set (fst acc1) = set (fst acc) \<union> ({b_author p} \<inter> members (ce_validator_set e))"
      using count_member_ok [OF assms(1) Cons.prems] by blast
    obtain acc2 where "tally (count_parent e expected) hs (m, acc1) =
        Some (m + length (filter (parent_absent e expected) hs), acc2)"
      "tally_ok (ce_validator_set e) acc2"
      "set (fst acc2) = set (fst acc1) \<union> (b_author ` set (filter (\<lambda>p. b_round p = expected)
        (List.map_filter (get_block e) hs)) \<inter> members (ce_validator_set e))"
      using Cons.IH [OF acc1(2), of m] by auto
    moreover have "count_parent e expected h (m, acc) = Some (m, acc1)"
      using p acc1(1) by (simp add: count_parent_def)
    ultimately show ?thesis
      using False p acc1(3) by (intro exI [of _ acc2]) (auto simp: List.map_filter_simps)
  qed
qed (simp add: List.map_filter_simps)

definition exempt_round :: "engine \<Rightarrow> bool \<Rightarrow> u64 \<Rightarrow> bool" where
  "exempt_round e base_exception r \<longleftrightarrow>
     r = 0 \<or> is_recovery_bootstrap_round e r \<or> base_exception \<and> is_restart_base_round e r \<or>
     e_local_recovery_replay_active e \<and> e_local_recovery_boundary_round e = Some r"

lemma sum_weight_inter: "finite A \<Longrightarrow> sum (weight vs) (A \<inter> members vs) = sum (weight vs) A"
  by (rule sum.mono_neutral_left) (auto simp: weight_nonmember)

lemma check_parents_valid:
  assumes "valid_set (ce_validator_set e)" and "\<not> exempt_round e ex (b_round b)"
  shows "check_parents e ex b = Some (
    let missing = length (filter (parent_absent e (b_round b - 1)) (b_parents b)) in
    if missing > 0 then Inl (MissingParents (b_hash b) missing)
    else guard (participates e (ce_validator_set e) (saturating_sub (b_round b) 1)
      (b_author ` set (held_parents e b) \<inter> members (ce_validator_set e))) InsufficientParents)"
proof -
  obtain authors stake where "tally (count_parent e (b_round b - 1)) (b_parents b) (0, [], 0) =
      Some (length (filter (parent_absent e (b_round b - 1)) (b_parents b)), authors, stake)"
    "tally_ok (ce_validator_set e) (authors, stake)"
    "set authors = b_author ` set (held_parents e b) \<inter> members (ce_validator_set e)"
    using tally_parents [OF assms(1) tally_ok_empty, of "b_round b - 1" "b_parents b" 0]
    by (auto simp: held_parents_def)
  then show ?thesis
    using assms(2) by (auto simp: check_parents_def exempt_round_def participation_tally Let_def)
qed

lemma accepted_parents:
  assumes "valid_set (ce_validator_set e)" and "\<not> exempt_round e ex (b_round b)"
    and "check_parents e ex b = Some (Inr ())"
  shows "\<forall>h \<in> set (b_parents b). \<exists>p. get_block e h = Some p \<and> b_round p = b_round b - 1"
    and "has_quorum (ce_validator_set e) (map b_author (held_parents e b))"
proof -
  have "filter (parent_absent e (b_round b - 1)) (b_parents b) = []"
    and part: "participates e (ce_validator_set e) (saturating_sub (b_round b) 1)
      (b_author ` set (held_parents e b) \<inter> members (ce_validator_set e))"
    using assms(3) check_parents_valid [OF assms(1,2)]
    by (auto simp: Let_def guard_def split: if_splits)
  then show "\<forall>h \<in> set (b_parents b). \<exists>p. get_block e h = Some p \<and> b_round p = b_round b - 1"
    by (auto simp: filter_empty_conv parent_absent_def split: option.splits)
  show "has_quorum (ce_validator_set e) (map b_author (held_parents e b))"
    using part by (simp add: has_quorum_iff [OF assms(1)] participates_def sum_weight_inter)
qed

lemma receive_Inr_iff:
  "receive_block_inner_with_persistence cr b ex persist e = Some (Inr e') \<longleftrightarrow>
     check_block cr ex b e = Some (Inr ()) \<and> persist b = Inr () \<and>
     (\<exists>e1. note_author_round cr b e = Some e1 \<and>
       e' = prune_security_history (b_round b) (track_received b (insert_block_into_dag b e1)))"
  by (auto simp: receive_block_inner_with_persistence_def split: option.splits sum.splits)

lemma check_block_Inr_iff:
  "check_block cr ex b e = Some (Inr ()) \<longleftrightarrow>
     can_produce_blocks (ce_validator_set e) (b_author b) \<and> \<not> mhas (e_dag e) (b_hash b) \<and>
     b_hash b = domain_hash_of cr e b \<and> verify_ordering cr b \<and> check_signature cr e b = Inr () \<and>
     \<not> saturating_sub (b_round b) (e_current_round e) > 1 \<and> check_parents e ex b = Some (Inr ())"
  by (auto simp: check_block_def result_simps guard_def split: sum.splits)

end
