(* ===== verification/Arc_Cross_Shard.thy ===== *)
theory Arc_Cross_Shard
  imports Arc_Dag
begin

text \<open>
  Cross-shard locks of the engine (\<open>crates/arc-consensus/src/lib.rs\<close>): locking, committing, aborting,
  the atomic batch and the two expiry sweeps, with the shard assignment functions. The wall clock is
  an argument.
\<close>

section \<open>Operations\<close>

definition CROSS_SHARD_LOCK_TIMEOUT_MS :: u64 where "CROSS_SHARD_LOCK_TIMEOUT_MS = 30000"
definition MAX_LOCK_ROUNDS :: u64 where "MAX_LOCK_ROUNDS = 100"

definition lock_cross_shard ::
  "'z crypto_scheme \<Rightarrow> wire \<Rightarrow> u64 \<Rightarrow> hash256 \<Rightarrow> u16 \<Rightarrow> u16 \<Rightarrow> hash256 \<Rightarrow> u64 \<Rightarrow> engine \<Rightarrow>
   consensus_error + cross_shard_proof \<times> engine" where
  "lock_cross_shard cr w now_ms tx source target source_block source_round e =
     and_then (guard (\<not> mhas (e_pending_cross_shard e) tx) (CrossShardLockAlreadyExists tx)) (\<lambda>_.
     and_then (ok_or (CrossShardLockFailed ''serialize lock'') (wire_lock w tx source target)) (\<lambda>bytes.
     let p = \<lparr>xs_tx_hash = tx, xs_source_shard = source, xs_target_shard = target,
              xs_source_block_hash = source_block, xs_source_round = source_round, xs_status = Locked,
              xs_lock_hash = hash_bytes cr bytes,
              xs_inclusion_proof = (case wire_inclusion w tx source_block of None \<Rightarrow> [] | Some bs \<Rightarrow> bs),
              xs_locked_at_ms = now_ms, xs_locked_at_round = e_current_round e\<rparr>
     in Inr (p, e\<lparr>e_pending_cross_shard := mput tx p (e_pending_cross_shard e)\<rparr>)))"

definition settle_cross_shard ::
  "cross_shard_status \<Rightarrow> hash256 \<Rightarrow> engine \<Rightarrow> consensus_error + cross_shard_proof \<times> engine" where
  "settle_cross_shard status tx e =
     and_then (ok_or (CrossShardLockNotFound tx) (map_of (e_pending_cross_shard e) tx)) (\<lambda>p.
     let p' = p\<lparr>xs_status := status\<rparr>
     in Inr (p', e\<lparr>e_pending_cross_shard := mdel tx (e_pending_cross_shard e),
                   e_completed_cross_shard := mput tx p' (e_completed_cross_shard e)\<rparr>))"

definition commit_cross_shard :: "hash256 \<Rightarrow> engine \<Rightarrow> consensus_error + cross_shard_proof \<times> engine" where
  "commit_cross_shard tx e = settle_cross_shard Committed tx e"

definition abort_cross_shard :: "hash256 \<Rightarrow> engine \<Rightarrow> consensus_error + cross_shard_proof \<times> engine" where
  "abort_cross_shard tx e = settle_cross_shard Aborted tx e"

text \<open>The roll-back of a batch ignores the result of every abort.\<close>

definition abort_all :: "hash256 list \<Rightarrow> engine \<Rightarrow> engine" where
  "abort_all txs e = foldl (\<lambda>e tx. case abort_cross_shard tx e of Inl _ \<Rightarrow> e | Inr (_, e') \<Rightarrow> e') e txs"

text \<open>\<open>None\<close> is the out-of-bounds panic of \<open>shards[i]\<close>.\<close>

fun batch_loop ::
  "'z crypto_scheme \<Rightarrow> wire \<Rightarrow> u64 \<Rightarrow> hash256 list \<Rightarrow> (u16 \<times> u16) list \<Rightarrow> cross_shard_proof list \<Rightarrow> engine \<Rightarrow>
   ((consensus_error + cross_shard_proof list) \<times> engine) option" where
  "batch_loop cr w now_ms [] shards proofs e = Some (Inr proofs, e)"
| "batch_loop cr w now_ms (tx # txs) [] proofs e = None"
| "batch_loop cr w now_ms (tx # txs) ((source, target) # shards) proofs e =
     (case lock_cross_shard cr w now_ms tx source target (hash_bytes cr (ascii ''batch_source'')) 0 e of
        Inr (p, e') \<Rightarrow> batch_loop cr w now_ms txs shards (proofs @ [p]) e'
      | Inl _ \<Rightarrow> Some (Inl (CrossShardLockFailed ''batch failed''), abort_all (map xs_tx_hash proofs) e))"

definition atomic_cross_shard_batch ::
  "'z crypto_scheme \<Rightarrow> wire \<Rightarrow> u64 \<Rightarrow> hash256 list \<Rightarrow> (u16 \<times> u16) list \<Rightarrow> engine \<Rightarrow>
   ((consensus_error + cross_shard_proof list) \<times> engine) option" where
  "atomic_cross_shard_batch cr w now_ms txs shards e = batch_loop cr w now_ms txs shards [] e"

definition cross_shard_stats :: "engine \<Rightarrow> nat \<times> nat" where
  "cross_shard_stats e = (length (e_pending_cross_shard e), length (e_completed_cross_shard e))"

definition lock_expired :: "u64 \<Rightarrow> u64 \<Rightarrow> u64 \<Rightarrow> cross_shard_proof \<Rightarrow> bool" where
  "lock_expired timeout_ms now_ms round p \<longleftrightarrow>
     saturating_sub now_ms (xs_locked_at_ms p) > timeout_ms \<or>
     saturating_sub round (xs_locked_at_round p) > MAX_LOCK_ROUNDS"

definition expire_locks :: "u64 \<Rightarrow> u64 \<Rightarrow> engine \<Rightarrow> nat \<times> engine" where
  "expire_locks timeout_ms now_ms e =
     (let expired = map fst (filter (\<lambda>(_, p). lock_expired timeout_ms now_ms (e_current_round e) p)
            (e_pending_cross_shard e))
      in (length expired, abort_all expired e))"

definition expire_stale_locks :: "u64 \<Rightarrow> engine \<Rightarrow> nat \<times> engine" where
  "expire_stale_locks now_ms e = expire_locks CROSS_SHARD_LOCK_TIMEOUT_MS now_ms e"

definition expire_stale_locks_with_timeout :: "u64 \<Rightarrow> u64 \<Rightarrow> engine \<Rightarrow> nat \<times> engine" where
  "expire_stale_locks_with_timeout timeout_secs now_ms e = expire_locks (timeout_secs * 1000) now_ms e"

section \<open>Shard assignment\<close>

definition from_le_bytes :: "u8 list \<Rightarrow> 'a::len word" where
  "from_le_bytes bs = foldr (\<lambda>b acc. ucast b + push_bit 8 acc) bs 0"

definition shard_of :: "address \<Rightarrow> u16 \<Rightarrow> u16" where
  "shard_of a num_shards =
     (if num_shards = 0 then 0
      else ucast ((from_le_bytes (take 8 (hash_as_bytes a)) :: u64) mod ucast num_shards))"

text \<open>\<open>None\<close> is the division by zero of \<open>val % num_shards\<close>.\<close>

definition assign_shard :: "hash256 \<Rightarrow> u16 \<Rightarrow> u16 option" where
  "assign_shard a num_shards =
     (if num_shards = 0 then None
      else Some ((from_le_bytes (take 2 (hash_as_bytes a)) :: u16) mod num_shards))"

definition is_cross_shard :: "hash256 \<Rightarrow> hash256 \<Rightarrow> u16 \<Rightarrow> bool option" where
  "is_cross_shard from_addr to_addr num_shards =
     (if num_shards \<le> 1 then Some False
      else case (assign_shard from_addr num_shards, assign_shard to_addr num_shards) of
        (Some a, Some b) \<Rightarrow> Some (a \<noteq> b) | _ \<Rightarrow> None)"

section \<open>Locks are consistent\<close>

text \<open>A pending lock was taken in a round the engine has reached, so its age in rounds is a plain difference.\<close>

definition locks_ok :: "engine \<Rightarrow> bool" where
  "locks_ok e \<longleftrightarrow> mwf (e_pending_cross_shard e) \<and> mwf (e_completed_cross_shard e) \<and>
     (\<forall>(h, p) \<in> set (e_pending_cross_shard e). xs_tx_hash p = h \<and> xs_status p = Locked \<and>
       xs_locked_at_round p \<le> e_current_round e) \<and>
     (\<forall>(h, p) \<in> set (e_completed_cross_shard e). xs_tx_hash p = h \<and> xs_status p \<noteq> Locked)"

lemma lock_Inr:
  assumes "lock_cross_shard cr w now_ms tx source target blk rnd e = Inr (p, e')"
  shows "\<not> mhas (e_pending_cross_shard e) tx" and "xs_tx_hash p = tx" and "xs_status p = Locked"
    and "xs_locked_at_round p = e_current_round e"
    and "e' = e\<lparr>e_pending_cross_shard := mput tx p (e_pending_cross_shard e)\<rparr>"
  using assms by (auto simp: lock_cross_shard_def result_simps guard_def Let_def split: if_splits)

lemma settle_Inr_iff:
  "settle_cross_shard st tx e = Inr (p', e') \<longleftrightarrow>
     (\<exists>p. map_of (e_pending_cross_shard e) tx = Some p \<and> p' = p\<lparr>xs_status := st\<rparr> \<and>
       e' = e\<lparr>e_pending_cross_shard := mdel tx (e_pending_cross_shard e),
              e_completed_cross_shard := mput tx p' (e_completed_cross_shard e)\<rparr>)"
  by (auto simp: settle_cross_shard_def result_simps Let_def)

lemma settle_ok:
  assumes "locks_ok e" and "st \<noteq> Locked" and "settle_cross_shard st tx e = Inr (p', e')"
  shows "locks_ok e'"
proof -
  obtain p where p: "map_of (e_pending_cross_shard e) tx = Some p" "p' = p\<lparr>xs_status := st\<rparr>"
    and e': "e' = e\<lparr>e_pending_cross_shard := mdel tx (e_pending_cross_shard e),
              e_completed_cross_shard := mput tx p' (e_completed_cross_shard e)\<rparr>"
    using assms(3) by (auto simp: settle_Inr_iff)
  have "xs_tx_hash p = tx" using assms(1) map_of_SomeD [OF p(1)] by (auto simp: locks_ok_def)
  then show ?thesis
    using assms(1,2) p(2) by (auto simp: e' locks_ok_def set_mput mdel_def)
qed

lemma abort_all_ok: "locks_ok e \<Longrightarrow> locks_ok (abort_all txs e)"
  unfolding abort_all_def
  by (induction txs arbitrary: e) (auto simp: abort_cross_shard_def dest: settle_ok split: sum.splits)

lemma abort_all_pending:
  "map_of (e_pending_cross_shard (abort_all txs e)) h =
     (if h \<in> set txs then None else map_of (e_pending_cross_shard e) h)"
  unfolding abort_all_def
proof (induction txs arbitrary: e)
  case (Cons tx txs)
  have "map_of (e_pending_cross_shard (case abort_cross_shard tx e of Inl _ \<Rightarrow> e | Inr (_, e') \<Rightarrow> e')) h =
      (if h = tx then None else map_of (e_pending_cross_shard e) h)"
    by (auto simp: abort_cross_shard_def settle_cross_shard_def Let_def map_of_mdel ok_or_def
        split: option.splits)
  then show ?case using Cons.IH by auto
qed simp

lemma abort_all_completed:
  assumes "h \<notin> set txs"
  shows "map_of (e_completed_cross_shard (abort_all txs e)) h = map_of (e_completed_cross_shard e) h"
  unfolding abort_all_def using assms
proof (induction txs arbitrary: e)
  case (Cons tx txs)
  have "map_of (e_completed_cross_shard (case abort_cross_shard tx e of Inl _ \<Rightarrow> e | Inr (_, e') \<Rightarrow> e')) h =
      map_of (e_completed_cross_shard e) h"
    using Cons.prems
    by (auto simp: abort_cross_shard_def settle_cross_shard_def Let_def map_of_mput ok_or_def
        split: option.splits)
  then show ?case using Cons by auto
qed simp

text \<open>A batch extends the pending locks by the proofs it has made so far, or rolls all of them back.\<close>

lemma batch_loop_outcome:
  assumes "batch_loop cr w now_ms txs shards proofs e = Some (res, e')"
    and "\<forall>p \<in> set proofs. mhas (e_pending_cross_shard e) (xs_tx_hash p)"
  shows "case res of
      Inl _ \<Rightarrow> map_of (e_pending_cross_shard e') =
        (\<lambda>h. if h \<in> xs_tx_hash ` set proofs then None else map_of (e_pending_cross_shard e) h)
    | Inr ps \<Rightarrow> \<exists>new. ps = proofs @ new \<and> map xs_tx_hash new = txs \<and> distinct txs \<and>
        (\<forall>p \<in> set new. xs_status p = Locked \<and> \<not> mhas (e_pending_cross_shard e) (xs_tx_hash p)) \<and>
        map_of (e_pending_cross_shard e') = map_of (e_pending_cross_shard e) ++ map_of (map (\<lambda>p. (xs_tx_hash p, p)) new)"
  using assms
proof (induction cr w now_ms txs shards proofs e rule: batch_loop.induct)
  case (3 cr w now_ms tx txs source target shards proofs e)
  let ?lock = "lock_cross_shard cr w now_ms tx source target (hash_bytes cr (ascii ''batch_source'')) 0 e"
  show ?case
  proof (cases ?lock)
    case (Inl err)
    then show ?thesis using "3.prems"(1) abort_all_pending [of "map xs_tx_hash proofs" e] by (auto simp: fun_eq_iff)
  next
    case (Inr b)
    then obtain p e1 where lock: "?lock = Inr (p, e1)" by (cases b) auto
    note l = lock_Inr [OF lock]
    have known: "\<forall>q \<in> set (proofs @ [p]). mhas (e_pending_cross_shard e1) (xs_tx_hash q)"
      using "3.prems"(2) l by (auto simp: mhas_mput)
    note IH = "3.IH" [OF lock refl]
    have run: "batch_loop cr w now_ms txs shards (proofs @ [p]) e1 = Some (res, e')"
      using "3.prems"(1) lock by simp
    show ?thesis
    proof (cases res)
      case (Inl err)
      then show ?thesis
        using IH [OF run known] l by (auto simp: fun_eq_iff map_of_mput mhas_def)
    next
      case (Inr ps)
      then obtain new where new: "ps = (proofs @ [p]) @ new" "map xs_tx_hash new = txs" "distinct txs"
        "\<forall>q \<in> set new. xs_status q = Locked \<and> \<not> mhas (e_pending_cross_shard e1) (xs_tx_hash q)"
        "map_of (e_pending_cross_shard e') = map_of (e_pending_cross_shard e1) ++ map_of (map (\<lambda>p. (xs_tx_hash p, p)) new)"
        using IH [OF run known] by auto
      have "\<forall>q \<in> set new. xs_tx_hash q \<noteq> tx" using new(4) l by (auto simp: mhas_mput)
      then have "tx \<notin> set txs" by (auto simp: new(2) [symmetric])
      then have "map_of (map (\<lambda>p. (xs_tx_hash p, p)) new) tx = None"
        using new(2) by (auto simp: map_of_eq_None_iff)
      then have "map_of (e_pending_cross_shard e') =
          map_of (e_pending_cross_shard e) ++ map_of (map (\<lambda>p. (xs_tx_hash p, p)) (p # new))"
        using new(5) l by (auto simp: fun_eq_iff map_of_mput map_add_def split: option.splits)
      then show ?thesis
        using Inr new \<open>tx \<notin> set txs\<close> l by (auto simp: mhas_mput intro!: exI [of _ "p # new"])
    qed
  qed
qed auto

section \<open>The lock machine\<close>

datatype lock_call =
    Lock_Tx u64 hash256 u16 u16 hash256 u64
  | Commit_Tx hash256
  | Abort_Tx hash256
  | Batch_Tx u64 "hash256 list" "(u16 \<times> u16) list"
  | Expire_Locks u64
  | Expire_With_Timeout u64 u64

fun lock_step :: "'z crypto_scheme \<Rightarrow> wire \<Rightarrow> engine \<Rightarrow> lock_call \<Rightarrow> engine" where
  "lock_step cr w e (Lock_Tx now_ms tx s t b r) =
     (case lock_cross_shard cr w now_ms tx s t b r e of Inl _ \<Rightarrow> e | Inr (_, e') \<Rightarrow> e')"
| "lock_step cr w e (Commit_Tx tx) = (case commit_cross_shard tx e of Inl _ \<Rightarrow> e | Inr (_, e') \<Rightarrow> e')"
| "lock_step cr w e (Abort_Tx tx) = (case abort_cross_shard tx e of Inl _ \<Rightarrow> e | Inr (_, e') \<Rightarrow> e')"
| "lock_step cr w e (Batch_Tx now_ms txs shards) =
     (case atomic_cross_shard_batch cr w now_ms txs shards e of None \<Rightarrow> e | Some (_, e') \<Rightarrow> e')"
| "lock_step cr w e (Expire_Locks now_ms) = snd (expire_stale_locks now_ms e)"
| "lock_step cr w e (Expire_With_Timeout secs now_ms) = snd (expire_stale_locks_with_timeout secs now_ms e)"

lemma lock_ok: "locks_ok e \<Longrightarrow> lock_cross_shard cr w now_ms tx s t b r e = Inr (p, e') \<Longrightarrow> locks_ok e'"
  using lock_Inr [of cr w now_ms tx s t b r e p e'] by (auto simp: locks_ok_def set_mput)

lemma batch_ok:
  "locks_ok e \<Longrightarrow> batch_loop cr w now_ms txs shards proofs e = Some (res, e') \<Longrightarrow> locks_ok e'"
  by (induction cr w now_ms txs shards proofs e rule: batch_loop.induct)
    (auto dest: lock_ok intro: abort_all_ok split: sum.splits)

lemma expire_ok: "locks_ok e \<Longrightarrow> locks_ok (snd (expire_locks t now_ms e))"
  by (simp add: expire_locks_def Let_def abort_all_ok)

lemma lock_step_ok: "locks_ok e \<Longrightarrow> locks_ok (lock_step cr w e c)"
  by (cases c)
    (auto simp: commit_cross_shard_def abort_cross_shard_def atomic_cross_shard_batch_def expire_stale_locks_def
      expire_stale_locks_with_timeout_def expire_ok dest: lock_ok settle_ok batch_ok split: sum.splits option.splits)

interpretation locks: machine "lock_step cr w" locks_ok for cr w
  by unfold_locales (rule lock_step_ok)

lemma expire_pending:
  assumes "mwf (e_pending_cross_shard e)"
  shows "map_of (e_pending_cross_shard (snd (expire_locks t now_ms e))) h = Some p \<longleftrightarrow>
    map_of (e_pending_cross_shard e) h = Some p \<and> \<not> lock_expired t now_ms (e_current_round e) p"
proof -
  have "h \<in> fst ` set (filter (\<lambda>(_, p). lock_expired t now_ms (e_current_round e) p) (e_pending_cross_shard e)) \<longleftrightarrow>
      (\<exists>p. map_of (e_pending_cross_shard e) h = Some p \<and> lock_expired t now_ms (e_current_round e) p)"
    using assms by (force simp: map_of_iff_set)
  then show ?thesis by (auto simp: expire_locks_def Let_def abort_all_pending)
qed

section \<open>What a lock operation leaves alone\<close>

text \<open>A step that changes the cross-shard tables only.\<close>

definition locks_only :: "engine \<Rightarrow> engine \<Rightarrow> bool" where
  "locks_only e e' \<longleftrightarrow> (\<exists>p c. e' = e\<lparr>e_pending_cross_shard := p, e_completed_cross_shard := c\<rparr>)"

lemma locks_onlyI: "e' = e\<lparr>e_pending_cross_shard := p, e_completed_cross_shard := c\<rparr> \<Longrightarrow> locks_only e e'"
  by (auto simp: locks_only_def)

lemma locks_only_refl [simp]: "locks_only e e"
  by (rule locks_onlyI [where p = "e_pending_cross_shard e" and c = "e_completed_cross_shard e"]) simp

lemma locks_only_trans: "locks_only e1 e2 \<Longrightarrow> locks_only e2 e3 \<Longrightarrow> locks_only e1 e3"
  unfolding locks_only_def by (elim exE) (simp, blast)

lemma settle_locks_only: "settle_cross_shard st tx e = Inr (p, e') \<Longrightarrow> locks_only e e'"
  by (rule locks_onlyI [where p = "e_pending_cross_shard e'" and c = "e_completed_cross_shard e'"])
    (auto simp: settle_cross_shard_def Let_def result_simps)

lemma lock_locks_only: "lock_cross_shard cr w now_ms tx s t b r e = Inr (p, e') \<Longrightarrow> locks_only e e'"
  by (rule locks_onlyI [where p = "e_pending_cross_shard e'" and c = "e_completed_cross_shard e"])
    (auto simp: lock_cross_shard_def Let_def result_simps)

lemma abort_all_locks_only: "locks_only e (abort_all txs e)"
proof (induction txs arbitrary: e)
  case (Cons tx txs)
  have "locks_only e (abort_all [tx] e)"
    by (auto simp: abort_all_def abort_cross_shard_def dest: settle_locks_only split: sum.splits)
  moreover have "abort_all (tx # txs) e = abort_all txs (abort_all [tx] e)" by (simp add: abort_all_def)
  ultimately show ?case using Cons.IH [of "abort_all [tx] e"] locks_only_trans by simp
qed (simp add: abort_all_def)

lemma expire_locks_only: "locks_only e (snd (expire_locks t n e))"
  by (simp add: expire_locks_def Let_def abort_all_locks_only)

lemma batch_locks_only:
  "batch_loop cr w now_ms txs shards proofs e = Some (res, e') \<Longrightarrow> locks_only e e'"
proof (induction cr w now_ms txs shards proofs e rule: batch_loop.induct)
  case (3 cr w now_ms tx txs source target shards proofs e)
  show ?case
  proof (cases "lock_cross_shard cr w now_ms tx source target (hash_bytes cr (ascii ''batch_source'')) 0 e")
    case (Inr r)
    obtain p e1 where r: "r = (p, e1)" by (cases r)
    then have "locks_only e1 e'" using 3 Inr by auto
    then show ?thesis using lock_locks_only Inr r locks_only_trans by blast
  qed (use 3 in \<open>auto simp: abort_all_locks_only\<close>)
qed auto

lemma lock_step_locks_only: "locks_only e (lock_step cr w e call)"
  by (cases call)
    (auto simp: commit_cross_shard_def abort_cross_shard_def atomic_cross_shard_batch_def expire_stale_locks_def
      expire_stale_locks_with_timeout_def expire_locks_only
      dest: lock_locks_only settle_locks_only batch_locks_only split: sum.splits option.splits)

lemma expire_fields [frame]:
  "e_last_committed_round (snd (expire_locks t n e)) = e_last_committed_round e"
  "e_current_round (snd (expire_locks t n e)) = e_current_round e"
  "e_dag (snd (expire_locks t n e)) = e_dag e" "e_rounds (snd (expire_locks t n e)) = e_rounds e"
  "e_author_round_blocks (snd (expire_locks t n e)) = e_author_round_blocks e"
  using expire_locks_only [of e t n] by (auto simp: locks_only_def)

lemma expire_stale_fields [frame]:
  "snd (expire_stale_locks n e) = snd (expire_locks CROSS_SHARD_LOCK_TIMEOUT_MS n e)"
  "snd (expire_stale_locks_with_timeout s n e) = snd (expire_locks (s * 1000) n e)"
  by (simp_all add: expire_stale_locks_def expire_stale_locks_with_timeout_def)

section \<open>Properties\<close>

text \<open>C23: a batch of cross-shard locks is atomic: when it fails, the table of pending locks is the one it
  found, so a transaction that was pending before stays pending and none is added; when it succeeds, its transactions are distinct, none was locked before, each now
  has a proof with status \<open>Locked\<close>, and no other lock changed.\<close>

theorem cross_shard_batch_atomic:
  assumes "atomic_cross_shard_batch cr w now_ms txs shards e = Some (res, e')"
  shows "case res of
      Inl _ \<Rightarrow> map_of (e_pending_cross_shard e') = map_of (e_pending_cross_shard e)
    | Inr ps \<Rightarrow> map xs_tx_hash ps = txs \<and> distinct txs \<and>
        (\<forall>p \<in> set ps. xs_status p = Locked \<and> \<not> mhas (e_pending_cross_shard e) (xs_tx_hash p)) \<and>
        map_of (e_pending_cross_shard e') =
          map_of (e_pending_cross_shard e) ++ map_of (map (\<lambda>p. (xs_tx_hash p, p)) ps)"
  using batch_loop_outcome [OF assms [unfolded atomic_cross_shard_batch_def]] by (cases res) auto

definition sample_wire :: wire where
  "sample_wire = \<lparr>wire_transactions = (\<lambda>_. None), wire_lock = (\<lambda>_ _ _. Some []), wire_inclusion = (\<lambda>_ _. None),
     wire_signature = (\<lambda>_. None)\<rparr>"

theorem cross_shard_batch_atomic_witness:
  "\<exists>res e'. atomic_cross_shard_batch toy_crypto sample_wire 0 [1, 1] [(0, 1), (0, 1)] (engine_new solo_set 32 None False) =
      Some (res, e') \<and> res = Inl (CrossShardLockFailed ''batch failed'') \<and>
      map_of (e_pending_cross_shard e') 1 = None"
proof -
  let ?e = "engine_new solo_set 32 None False"
  obtain e' where run: "atomic_cross_shard_batch toy_crypto sample_wire 0 [1, 1] [(0, 1), (0, 1)] ?e =
      Some (Inl (CrossShardLockFailed ''batch failed''), e')"
    by (simp add: atomic_cross_shard_batch_def lock_cross_shard_def sample_wire_def guard_def mhas_def
        engine_new_def Let_def)
  have "map_of (e_pending_cross_shard e') = map_of (e_pending_cross_shard ?e)"
    using cross_shard_batch_atomic [OF run] by simp
  then show ?thesis using run by (simp add: engine_new_def)
qed

end
