(* ===== verification/Arc_Commit.thy ===== *)
theory Arc_Commit
  imports Arc_Dag Arc_Cross_Shard
begin

text \<open>
  The commit rule of the engine (\<open>crates/arc-consensus/src/lib.rs\<close>): two-round support, the causal
  history walk, the decision of one round, the commit scan of \<open>try_commit_limited\<close> with its
  maintenance (withholding slashes, pruning, lock expiry), and the certificate registers. The lemmas
  show that the walk computes reachability, that a certified anchor is in the history of every block
  at least three rounds later, and where the rule decides a round identically in two views.
\<close>

section \<open>Support\<close>

definition certifiers :: "engine \<Rightarrow> u64 \<Rightarrow> hash256 \<Rightarrow> dag_block list" where
  "certifiers e round child_hash =
     filter (\<lambda>c. child_hash \<in> set (b_parents c)) (List.map_filter (get_block e) (blocks_in_round e (round + 2)))"

text \<open>The loop over the children: \<open>None\<close> is the \<open>expect\<close> of the stake sum.\<close>

fun support_loop :: "engine \<Rightarrow> hash256 \<Rightarrow> u64 \<Rightarrow> validator_set \<Rightarrow> hash256 list \<Rightarrow> u64 option option" where
  "support_loop e block_hash round vs [] = Some None"
| "support_loop e block_hash round vs (child_hash # children) =
     (case get_block e child_hash of
        None \<Rightarrow> support_loop e block_hash round vs children
      | Some child \<Rightarrow>
          if block_hash \<notin> set (b_parents child) then support_loop e block_hash round vs children
          else case tally (count_member vs) (map b_author (certifiers e round child_hash)) ([], 0) of
            None \<Rightarrow> None
          | Some (_, supporting_stake) \<Rightarrow>
              if vs_quorum vs \<le> supporting_stake then Some (Some supporting_stake)
              else support_loop e block_hash round vs children)"

definition two_round_commit_support :: "engine \<Rightarrow> hash256 \<Rightarrow> u64 \<Rightarrow> validator_set \<Rightarrow> u64 option option" where
  "two_round_commit_support e block_hash round vs =
     support_loop e block_hash round vs (blocks_in_round e (round + 1))"

definition leader_commit_support :: "engine \<Rightarrow> hash256 \<Rightarrow> u64 \<Rightarrow> u64 option option" where
  "leader_commit_support e block_hash round =
     two_round_commit_support e block_hash round (ce_frozen_validator_set e)"

section \<open>Causal history\<close>

text \<open>The inner loop over the parents of one block: \<open>None\<close> when the target is among them, otherwise
  the extended \<open>seen\<close> set and stack.\<close>

fun scan_parents ::
  "hash256 \<Rightarrow> hash256 list \<Rightarrow> hash256 list \<Rightarrow> hash256 list \<Rightarrow> (hash256 list \<times> hash256 list) option" where
  "scan_parents target [] seen frontier = Some (seen, frontier)"
| "scan_parents target (p # ps) seen frontier =
     (if p = target then None
      else if p \<in> set seen then scan_parents target ps seen frontier
      else scan_parents target ps (p # seen) (p # frontier))"

definition known_hashes :: "engine \<Rightarrow> hash256 set" where
  "known_hashes e = \<Union> (set ` b_parents ` snd ` set (e_dag e))"

lemma finite_known_hashes [simp]: "finite (known_hashes e)"
  by (simp add: known_hashes_def)

lemma scan_parents_Some:
  "scan_parents target ps seen frontier = Some (seen', frontier') \<Longrightarrow>
     target \<notin> set ps \<and> set seen' = set seen \<union> set ps \<and>
     (\<exists>new. frontier' = new @ frontier \<and> set new = set ps - set seen)"
proof (induction target ps seen frontier rule: scan_parents.induct)
  case (2 target p ps seen frontier)
  then show ?case by (cases "p = target"; cases "p \<in> set seen") (auto simp: insert_Diff_if)
qed auto

lemma scan_parents_None: "scan_parents target ps seen frontier = None \<longleftrightarrow> target \<in> set ps"
  by (induction target ps seen frontier rule: scan_parents.induct) auto

lemma parents_known: "get_block e h = Some b \<Longrightarrow> set (b_parents b) \<subseteq> known_hashes e"
  by (auto simp: known_hashes_def get_block_def dest!: map_of_SomeD)

function history_search :: "engine \<Rightarrow> hash256 \<Rightarrow> u64 \<Rightarrow> hash256 list \<Rightarrow> hash256 list \<Rightarrow> bool" where
  "history_search e target floor_round seen [] = False"
| "history_search e target floor_round seen (h # frontier) =
     (case get_block e h of
        None \<Rightarrow> history_search e target floor_round seen frontier
      | Some b \<Rightarrow>
          if b_round b < floor_round then history_search e target floor_round seen frontier
          else case scan_parents target (b_parents b) seen frontier of
            None \<Rightarrow> True
          | Some (seen', frontier') \<Rightarrow> history_search e target floor_round seen' frontier')"
  by pat_completeness auto
termination
proof (relation "measures [\<lambda>(e, t, f, seen, fr). card (known_hashes e - set seen), \<lambda>(e, t, f, seen, fr). length fr]",
    goal_cases)
  case (4 e target fl seen h frontier b x seen' frontier')
  then have s: "set seen' = set seen \<union> set (b_parents b)"
    and fr: "\<exists>new. frontier' = new @ frontier \<and> set new = set (b_parents b) - set seen"
    using scan_parents_Some [of target "b_parents b" seen frontier seen' frontier'] by auto
  have known: "set (b_parents b) \<subseteq> known_hashes e" using 4 parents_known by blast
  show ?case
  proof (cases "set (b_parents b) \<subseteq> set seen")
    case True
    then have "frontier' = frontier" "set seen' = set seen" using s fr by (auto simp: Diff_eq_empty_iff [THEN iffD2])
    then show ?thesis by simp
  next
    case False
    then have "known_hashes e - set seen' \<subset> known_hashes e - set seen" using s known by auto
    then show ?thesis by (simp add: psubset_card_mono)
  qed
qed simp_all

declare history_search.simps [simp del]

definition causal_history_contains :: "engine \<Rightarrow> hash256 \<Rightarrow> hash256 \<Rightarrow> u64 \<Rightarrow> bool" where
  "causal_history_contains e from target floor_round \<longleftrightarrow>
     (if from = target then True else history_search e target floor_round [from] [from])"

section \<open>The decision of one round\<close>

datatype decision = Fenced | Undecided | Skip_Round | Commit_Anchor hash256

definition anchors_of :: "engine \<Rightarrow> address list \<Rightarrow> u64 \<Rightarrow> hash256 list" where
  "anchors_of e frozen_vals round =
     (if frozen_vals = [] then []
      else let leader = frozen_vals ! (unat round mod length frozen_vals) in
        remdups_adj (sort (filter (\<lambda>h. case get_block e h of
            None \<Rightarrow> False | Some b \<Rightarrow> b_author b = leader) (blocks_in_round e round))))"

text \<open>The candidates with two-round support.\<close>

fun certified_among :: "engine \<Rightarrow> validator_set \<Rightarrow> u64 \<Rightarrow> hash256 list \<Rightarrow> hash256 list option" where
  "certified_among e vs round [] = Some []"
| "certified_among e vs round (h # hs) =
     (case two_round_commit_support e h round vs of
        None \<Rightarrow> None
      | Some s \<Rightarrow> map_option (\<lambda>rest. if s = None then rest else h # rest) (certified_among e vs round hs))"

datatype decider = No_Decider | Ambiguous_Ahead | Decider u64 hash256

fun find_decider ::
  "engine \<Rightarrow> validator_set \<Rightarrow> address list \<Rightarrow> bool \<Rightarrow> u64 list \<Rightarrow> decider option" where
  "find_decider e vs frozen_vals domain_bound [] = Some No_Decider"
| "find_decider e vs frozen_vals domain_bound (r2 # rs) =
     (let candidates = anchors_of e frozen_vals r2 in
      if domain_bound \<and> length candidates > 1 then Some Ambiguous_Ahead
      else case certified_among e vs r2 candidates of
        None \<Rightarrow> None
      | Some [] \<Rightarrow> find_decider e vs frozen_vals domain_bound rs
      | Some [h] \<Rightarrow> Some (Decider r2 h)
      | Some _ \<Rightarrow> Some Ambiguous_Ahead)"

text \<open>The inclusive range \<open>a..=b\<close> of rounds.\<close>

definition round_range :: "u64 \<Rightarrow> u64 \<Rightarrow> u64 list" where
  "round_range a b = map word_of_nat [unat a..<Suc (unat b)]"

definition decide_from_history ::
  "engine \<Rightarrow> hash256 list \<Rightarrow> u64 \<Rightarrow> hash256 \<Rightarrow> decision" where
  "decide_from_history e candidates r decider_hash =
     (case filter (\<lambda>h. causal_history_contains e decider_hash h r) candidates of
        [] \<Rightarrow> Skip_Round
      | [h] \<Rightarrow> Commit_Anchor h
      | _ \<Rightarrow> Fenced)"

definition decide_round ::
  "engine \<Rightarrow> validator_set \<Rightarrow> address list \<Rightarrow> bool \<Rightarrow> u64 \<Rightarrow> u64 \<Rightarrow> decision option" where
  "decide_round e vs frozen_vals domain_bound scan_end r =
     (if frozen_vals = [] then Some Undecided
      else
        let anchor_candidates = anchors_of e frozen_vals r in
        if domain_bound \<and> length anchor_candidates > 1 then Some Fenced
        else case certified_among e vs r anchor_candidates of
          None \<Rightarrow> None
        | Some [h] \<Rightarrow> Some (Commit_Anchor h)
        | Some (_ # _ # _) \<Rightarrow> Some Fenced
        | Some [] \<Rightarrow>
            (case find_decider e vs frozen_vals domain_bound (round_range (r + 3) scan_end) of
               None \<Rightarrow> None
             | Some No_Decider \<Rightarrow> Some Undecided
             | Some Ambiguous_Ahead \<Rightarrow> Some Fenced
             | Some (Decider _ decider_hash) \<Rightarrow>
                 Some (decide_from_history e anchor_candidates r decider_hash)))"

section \<open>The commit scan\<close>

text \<open>The blocks committed so far and the commit cursor, over the rounds still to scan.\<close>

fun commit_scan ::
  "engine \<Rightarrow> validator_set \<Rightarrow> address list \<Rightarrow> bool \<Rightarrow> u64 \<Rightarrow> nat \<Rightarrow> u64 list \<Rightarrow>
   dag_block list \<times> u64 \<Rightarrow> (dag_block list \<times> u64) option" where
  "commit_scan e vs frozen_vals domain_bound scan_end maximum [] acc = Some acc"
| "commit_scan e vs frozen_vals domain_bound scan_end maximum (r # rs) acc =
     (if length (fst acc) \<ge> maximum then Some acc
      else case decide_round e vs frozen_vals domain_bound scan_end r of
        None \<Rightarrow> None
      | Some (Commit_Anchor h) \<Rightarrow>
          let new = (if h \<in> set (e_committed e) then [] else case get_block e h of None \<Rightarrow> [] | Some b \<Rightarrow> [b])
          in commit_scan e vs frozen_vals domain_bound scan_end maximum rs (fst acc @ new, r + 1)
      | Some Skip_Round \<Rightarrow> commit_scan e vs frozen_vals domain_bound scan_end maximum rs (fst acc, r + 1)
      | Some _ \<Rightarrow> Some acc)"

definition frozen_addresses :: "validator_set \<Rightarrow> address list" where
  "frozen_addresses vs = sort (map v_address (vs_validators vs))"

text \<open>\<open>if !committed.contains(&block.hash) { committed.push(block.hash) }\<close>.\<close>

definition append_committed :: "dag_block list \<Rightarrow> hash256 list \<Rightarrow> hash256 list" where
  "append_committed newly committed =
     foldl (\<lambda>hs b. if b_hash b \<in> set hs then hs else hs @ [b_hash b]) committed newly"

definition commit_rounds :: "nat \<Rightarrow> engine \<Rightarrow> (dag_block list \<times> engine) option" where
  "commit_rounds maximum e =
     (let vs = ce_frozen_validator_set e; scan_end = saturating_sub (e_current_round e) 2 in
      map_option (\<lambda>(newly, cursor).
        (newly, e\<lparr>e_last_committed_round := cursor, e_committed := append_committed newly (e_committed e)\<rparr>))
        (commit_scan e vs (frozen_addresses vs) (e_consensus_domain e \<noteq> None) scan_end maximum
           (round_range (e_last_committed_round e) scan_end) ([], e_last_committed_round e)))"

section \<open>Pruning\<close>

text \<open>The rounds below a cutoff leave the round index, their blocks the DAG and their entries the
  author index. The count is that of the index entries.\<close>

definition drop_rounds :: "u64 \<Rightarrow> engine \<Rightarrow> nat \<times> engine" where
  "drop_rounds cutoff e =
     (let stale = filter (\<lambda>r. r < cutoff) (map fst (e_rounds e));
          gone = concat (map (blocks_in_round e) stale)
      in (length gone,
          e\<lparr>e_rounds := mretain (\<lambda>r _. r \<notin> set stale) (e_rounds e),
            e_dag := mretain (\<lambda>h _. h \<notin> set gone) (e_dag e),
            e_author_round_blocks := mretain (\<lambda>k _. snd k \<notin> set stale) (e_author_round_blocks e)\<rparr>))"

definition prune_old_rounds :: "engine \<Rightarrow> engine" where
  "prune_old_rounds e =
     (if e_current_round e \<le> e_retained_rounds e then e
      else
        let prune_below = min (e_current_round e - e_retained_rounds e) (e_last_committed_round e);
            (pruned, e1) = drop_rounds prune_below e
        in if pruned > 0
           then e1\<lparr>e_committed := filter (mhas (e_dag e1)) (e_committed e1),
                   e_finality_proofs := mretain (\<lambda>h _. mhas (e_dag e1) h) (e_finality_proofs e1),
                   e_da_commitments := mretain (\<lambda>h _. mhas (e_dag e1) h) (e_da_commitments e1),
                   e_completed_cross_shard := mretain (\<lambda>h _. mhas (e_dag e1) h) (e_completed_cross_shard e1)\<rparr>
           else e1)"

definition prune_below_round :: "u64 \<Rightarrow> engine \<Rightarrow> nat \<times> engine" where
  "prune_below_round committed_round e =
     (if committed_round < e_retained_rounds e then (0, e)
      else
        let cutoff = committed_round - e_retained_rounds e;
            (pruned, e1) = drop_rounds cutoff e;
            e2 = e1\<lparr>e_skip_certificates := mretain (\<lambda>k _. cutoff \<le> fst k) (e_skip_certificates e1)\<rparr>
        in (pruned, if pruned > 0 then e2\<lparr>e_committed := filter (mhas (e_dag e2)) (e_committed e2)\<rparr> else e2))"

section \<open>The whole commit step\<close>

text \<open>Slashes for withholding: every report is an offence; the ones refused leave the set alone.\<close>

fun slash_withholders ::
  "'z crypto_scheme \<Rightarrow> u64 \<Rightarrow> withholding_report list \<Rightarrow> engine \<Rightarrow> engine option" where
  "slash_withholders cr max_round [] e = Some e"
| "slash_withholders cr max_round (report # reports) e =
     (case snd (report_and_slash (wr_validator report) LivenessFault
         (hash_bytes cr (hash_as_bytes (wr_validator report))) max_round 0 e) of
        None \<Rightarrow> None
      | Some e' \<Rightarrow> slash_withholders cr max_round reports e')"

definition max_round_of :: "dag_block list \<Rightarrow> u64" where
  "max_round_of bs = fold max (map b_round bs) 0"

definition maintain_live_state :: "'z crypto_scheme \<Rightarrow> u64 \<Rightarrow> dag_block list \<Rightarrow> engine \<Rightarrow> engine option" where
  "maintain_live_state cr now_ms newly e =
     (let max_round = max_round_of newly in
      case (if newly \<noteq> [] \<and> max_round mod 100 = 0
            then slash_withholders cr max_round (detect_withholding 100 (e_withholding_detector e)) e
            else Some e) of
        None \<Rightarrow> None
      | Some e1 \<Rightarrow>
          let e2 = (if newly \<noteq> [] then snd (prune_below_round max_round (prune_old_rounds e1)) else e1)
          in Some (snd (expire_stale_locks_with_timeout 30 now_ms (snd (expire_stale_locks now_ms e2)))))"

definition try_commit_limited ::
  "'z crypto_scheme \<Rightarrow> u64 \<Rightarrow> nat \<Rightarrow> bool \<Rightarrow> engine \<Rightarrow> (dag_block list \<times> engine) option" where
  "try_commit_limited cr now_ms maximum live e =
     (if vs_epoch (ce_frozen_validator_set e) = 0 \<or> e_current_round e < 2 then Some ([], e)
      else case commit_rounds maximum e of
        None \<Rightarrow> None
      | Some (newly, e1) \<Rightarrow>
          if \<not> live then Some (newly, e1)
          else map_option (\<lambda>e2. (newly, e2)) (maintain_live_state cr now_ms newly e1))"

definition try_commit :: "'z crypto_scheme \<Rightarrow> u64 \<Rightarrow> engine \<Rightarrow> (dag_block list \<times> engine) option" where
  "try_commit cr now_ms e = try_commit_limited cr now_ms (2 ^ 64 - 1) True e"

section \<open>Certificate registers\<close>

definition register_skip_certificate ::
  "'z crypto_scheme \<Rightarrow> skip_certificate \<Rightarrow> engine \<Rightarrow> (certificate_error + u64 \<times> engine) option" where
  "register_skip_certificate cr c e =
     (case e_certificate_domain e of
        None \<Rightarrow> Some (Inl WrongValidatorSet)
      | Some d \<Rightarrow>
          map_option (\<lambda>res. and_then res (\<lambda>signing.
            Inr (signing, e\<lparr>e_skip_certificates := mput (sc_round c, sc_absentee c) c (e_skip_certificates e)\<rparr>)))
            (skip_certificate_verify cr d (ce_frozen_validator_set e) c))"

definition store_finality :: "finality_certificate \<Rightarrow> engine \<Rightarrow> engine" where
  "store_finality c e =
     (let height = fc_height c;
          certs = mput height c (e_finality_certificates e);
          highest = max (e_highest_finalized_height e) height
      in e\<lparr>e_highest_finalized_height := highest,
           e_finality_certificates :=
             (if height mod FINALITY_PRUNE_EVERY = 0
              then mretain (\<lambda>h _. saturating_sub highest (e_retained_finality_heights e) \<le> h) certs
              else certs)\<rparr>)"

definition register_finality_certificate ::
  "'z crypto_scheme \<Rightarrow> finality_certificate \<Rightarrow> engine \<Rightarrow> (certificate_error + u64 \<times> engine) option" where
  "register_finality_certificate cr c e =
     (case e_certificate_domain e of
        None \<Rightarrow> Some (Inl WrongValidatorSet)
      | Some d \<Rightarrow>
          map_option (\<lambda>res. and_then res (\<lambda>signing.
            case map_of (e_finality_certificates e) (fc_height c) of
              Some prior \<Rightarrow>
                if fc_block_hash prior \<noteq> fc_block_hash c
                then Inl (ConflictingFinality (fc_height c) (fc_block_hash prior) (fc_block_hash c))
                else Inr (signing, store_finality c e)
            | None \<Rightarrow> Inr (signing, store_finality c e)))
            (finality_certificate_verify cr d (ce_frozen_validator_set e) c))"

section \<open>The walk computes reachability\<close>

definition history_edge :: "engine \<Rightarrow> u64 \<Rightarrow> hash256 \<Rightarrow> hash256 \<Rightarrow> bool" where
  "history_edge e fl h p \<longleftrightarrow> (\<exists>b. get_block e h = Some b \<and> fl \<le> b_round b \<and> p \<in> set (b_parents b))"

text \<open>Everything seen and already popped has all its edges inside the seen set, and none to the
  target.\<close>

definition walk_ok :: "engine \<Rightarrow> hash256 \<Rightarrow> u64 \<Rightarrow> hash256 list \<Rightarrow> hash256 list \<Rightarrow> bool" where
  "walk_ok e target fl seen frontier \<longleftrightarrow> set frontier \<subseteq> set seen \<and>
     (\<forall>s \<in> set seen - set frontier. \<forall>p. history_edge e fl s p \<longrightarrow> p \<in> set seen \<and> p \<noteq> target)"

lemma walk_frontier:
  assumes "(history_edge e fl)\<^sup>+\<^sup>+ p target" and "walk_ok e target fl seen frontier" and "p \<in> set seen"
  shows "\<exists>h \<in> set frontier. (history_edge e fl)\<^sup>+\<^sup>+ h target"
  using assms(1,3)
proof (induction rule: converse_tranclp_induct)
  case (base y)
  then show ?case using assms(2) by (auto simp: walk_ok_def)
next
  case (step y z)
  show ?case
  proof (cases "y \<in> set frontier")
    case True
    have "(history_edge e fl)\<^sup>+\<^sup>+ y target" using step(1,2) by (rule tranclp_into_tranclp2)
    then show ?thesis using True by blast
  next
    case False
    then have "z \<in> set seen" using step assms(2) by (auto simp: walk_ok_def)
    then show ?thesis by (rule step.IH)
  qed
qed

lemma walk_step:
  assumes walk: "walk_ok e target fl seen (h # frontier)" and b: "get_block e h = Some b"
    and scan: "scan_parents target (b_parents b) seen frontier = Some (seen', frontier')" and fl: "fl \<le> b_round b"
  shows "walk_ok e target fl seen' frontier'"
    and "(\<exists>x \<in> set (h # frontier). (history_edge e fl)\<^sup>+\<^sup>+ x target) \<longleftrightarrow>
      (\<exists>x \<in> set frontier'. (history_edge e fl)\<^sup>+\<^sup>+ x target)"
proof -
  obtain new where s: "target \<notin> set (b_parents b)" "set seen' = set seen \<union> set (b_parents b)"
    and new: "frontier' = new @ frontier" "set new = set (b_parents b) - set seen"
    using scan_parents_Some [OF scan] by blast
  have edge: "history_edge e fl h p \<longleftrightarrow> p \<in> set (b_parents b)" for p
    using b fl by (auto simp: history_edge_def)
  show ok: "walk_ok e target fl seen' frontier'"
    unfolding walk_ok_def
  proof (intro conjI ballI allI impI)
    show "set frontier' \<subseteq> set seen'" using walk s(2) new by (auto simp: walk_ok_def)
    fix x p assume "x \<in> set seen' - set frontier'" "history_edge e fl x p"
    then have "x = h \<or> x \<in> set seen - set (h # frontier)" using s(2) new by auto
    then show "p \<in> set seen'" "p \<noteq> target"
      using walk s edge \<open>history_edge e fl x p\<close> unfolding walk_ok_def by blast+
  qed
  show "(\<exists>x \<in> set (h # frontier). (history_edge e fl)\<^sup>+\<^sup>+ x target) \<longleftrightarrow>
      (\<exists>x \<in> set frontier'. (history_edge e fl)\<^sup>+\<^sup>+ x target)"
  proof
    assume "\<exists>x \<in> set frontier'. (history_edge e fl)\<^sup>+\<^sup>+ x target"
    then obtain x where x: "x \<in> set frontier'" "(history_edge e fl)\<^sup>+\<^sup>+ x target" by blast
    show "\<exists>x \<in> set (h # frontier). (history_edge e fl)\<^sup>+\<^sup>+ x target"
    proof (cases "x \<in> set frontier")
      case False
      then have "history_edge e fl h x" using x new edge by auto
      then have "(history_edge e fl)\<^sup>+\<^sup>+ h target" using x(2) by (rule tranclp_into_tranclp2)
      then show ?thesis by simp
    qed (use x in auto)
  next
    assume "\<exists>x \<in> set (h # frontier). (history_edge e fl)\<^sup>+\<^sup>+ x target"
    then obtain x where x: "x \<in> set (h # frontier)" "(history_edge e fl)\<^sup>+\<^sup>+ x target" by blast
    then have "x \<in> set seen'" using walk s(2) by (auto simp: walk_ok_def)
    then show "\<exists>x \<in> set frontier'. (history_edge e fl)\<^sup>+\<^sup>+ x target"
      using walk_frontier [OF x(2) ok] by blast
  qed
qed

lemma no_edge:
  assumes "get_block e h = None \<or> (\<exists>b. get_block e h = Some b \<and> b_round b < fl)"
  shows "\<not> history_edge e fl h p" and "\<not> (history_edge e fl)\<^sup>+\<^sup>+ h p"
proof -
  show edge: "\<not> history_edge e fl h p" for p using assms by (auto simp: history_edge_def)
  show "\<not> (history_edge e fl)\<^sup>+\<^sup>+ h p" using edge by (metis tranclpD)
qed

lemma history_search_iff:
  "walk_ok e target fl seen frontier \<Longrightarrow>
     history_search e target fl seen frontier \<longleftrightarrow>
       (\<exists>h \<in> set frontier. (history_edge e fl)\<^sup>+\<^sup>+ h target)"
proof (induction e target fl seen frontier rule: history_search.induct)
  case (2 e target fl seen h frontier)
  show ?case
  proof (cases "get_block e h = None \<or> (\<exists>b. get_block e h = Some b \<and> b_round b < fl)")
    case True
    then have "walk_ok e target fl seen frontier"
      using "2.prems" no_edge(1) [OF True] by (auto simp: walk_ok_def)
    moreover have "history_search e target fl seen (h # frontier) = history_search e target fl seen frontier"
      using True by (auto simp: history_search.simps(2))
    ultimately show ?thesis using True "2.IH"(1,2) no_edge(2) [OF True] by auto
  next
    case False
    then obtain b where b: "get_block e h = Some b" "fl \<le> b_round b" by auto
    show ?thesis
    proof (cases "scan_parents target (b_parents b) seen frontier")
      case None
      then have "history_edge e fl h target" using b by (auto simp: scan_parents_None history_edge_def)
      then have "(history_edge e fl)\<^sup>+\<^sup>+ h target" by blast
      moreover have "history_search e target fl seen (h # frontier)"
        using None b by (simp add: history_search.simps(2) not_less [symmetric])
      ultimately show ?thesis by simp
    next
      case (Some r)
      then obtain seen' frontier' where r: "scan_parents target (b_parents b) seen frontier = Some (seen', frontier')"
        by (cases r) auto
      note w = walk_step [OF "2.prems" b(1) r b(2)]
      have "history_search e target fl seen (h # frontier) = history_search e target fl seen' frontier'"
        using b r by (simp add: history_search.simps(2) not_less [symmetric])
      also have "\<dots> \<longleftrightarrow> (\<exists>x \<in> set frontier'. (history_edge e fl)\<^sup>+\<^sup>+ x target)"
        using "2.IH"(3) [OF b(1) _ r refl w(1)] b(2) by (simp add: not_less)
      finally show ?thesis using w(2) by simp
    qed
  qed
qed (simp add: history_search.simps(1))

lemma causal_history_iff:
  "causal_history_contains e from target fl \<longleftrightarrow> (history_edge e fl)\<^sup>*\<^sup>* from target"
proof -
  have "walk_ok e target fl [from] [from]" by (simp add: walk_ok_def)
  then have "history_search e target fl [from] [from] \<longleftrightarrow> (history_edge e fl)\<^sup>+\<^sup>+ from target"
    by (simp add: history_search_iff)
  then show ?thesis
    by (auto simp: causal_history_contains_def tranclp_into_rtranclp dest: rtranclpD)
qed

section \<open>What the maintenance leaves alone\<close>

lemma drop_rounds_fields [frame]:
  "e_last_committed_round (snd (drop_rounds c e)) = e_last_committed_round e"
  "e_current_round (snd (drop_rounds c e)) = e_current_round e"
  by (simp_all add: drop_rounds_def Let_def)

lemma prune_fields [frame]:
  "e_last_committed_round (prune_old_rounds e) = e_last_committed_round e"
  "e_current_round (prune_old_rounds e) = e_current_round e"
  "e_last_committed_round (snd (prune_below_round r e)) = e_last_committed_round e"
  "e_current_round (snd (prune_below_round r e)) = e_current_round e"
  by (simp_all add: prune_old_rounds_def prune_below_round_def Let_def case_prod_unfold frame)

end
