(* ===== verification/Arc_Safety.thy ===== *)
theory Arc_Safety
  imports Arc_Commit
begin

text \<open>
  Safety of the commit rule across views. Two engines are two views of one execution: the same block
  has the same contents in both, and an author outside the faulty set has one block per round. A
  certified anchor is then in the causal history of every block at least three rounds later, so no
  view skips a round that another view committed by two-round support. A second part shows the limits
  of the rule with concrete views.
\<close>

section \<open>Well-formed views\<close>

text \<open>The round index and the DAG agree.\<close>

definition indexed :: "engine \<Rightarrow> bool" where
  "indexed e \<longleftrightarrow>
     (\<forall>h b. get_block e h = Some b \<longrightarrow> b_hash b = h \<and> h \<in> set (blocks_in_round e (b_round b))) \<and>
     (\<forall>r h b. h \<in> set (blocks_in_round e r) \<longrightarrow> get_block e h = Some b \<longrightarrow> b_round b = r)"

text \<open>Every block above the base round has all its parents in the DAG, one round below it, from a
  quorum of authors. This is what \<open>receive_block\<close> checks of a block it accepts
  (\<open>accepted_parents\<close>).\<close>

definition linked :: "validator_set \<Rightarrow> nat \<Rightarrow> engine \<Rightarrow> bool" where
  "linked vs base e \<longleftrightarrow> (\<forall>h b. get_block e h = Some b \<longrightarrow> base < unat (b_round b) \<longrightarrow>
     (\<forall>p \<in> set (b_parents b). \<exists>pb. get_block e p = Some pb \<and> unat (b_round pb) + 1 = unat (b_round b)) \<and>
     has_quorum vs (map b_author (held_parents e b)))"

definition views_agree :: "address set \<Rightarrow> engine \<Rightarrow> engine \<Rightarrow> bool" where
  "views_agree F e1 e2 \<longleftrightarrow>
     (\<forall>h b1 b2. get_block e1 h = Some b1 \<longrightarrow> get_block e2 h = Some b2 \<longrightarrow> b1 = b2) \<and>
     (\<forall>h1 h2 b1 b2. get_block e1 h1 = Some b1 \<longrightarrow> get_block e2 h2 = Some b2 \<longrightarrow>
        b_author b1 = b_author b2 \<longrightarrow> b_round b1 = b_round b2 \<longrightarrow> b_author b1 \<notin> F \<longrightarrow> h1 = h2)"

lemma map_filter_set: "x \<in> set (List.map_filter f xs) \<longleftrightarrow> (\<exists>y \<in> set xs. f y = Some x)"
  by (induction xs) (auto simp: List.map_filter_simps split: option.splits)

lemma held_parents_iff:
  "p \<in> set (held_parents e b) \<longleftrightarrow> (\<exists>h \<in> set (b_parents b). get_block e h = Some p) \<and> b_round p = b_round b - 1"
  by (auto simp: held_parents_def map_filter_set)

section \<open>Support is a quorum of certifiers\<close>

text \<open>A block is certified in a view when some child of it is a parent of a quorum of blocks two rounds
  above.\<close>

definition certified :: "engine \<Rightarrow> validator_set \<Rightarrow> hash256 \<Rightarrow> u64 \<Rightarrow> bool" where
  "certified e vs h r \<longleftrightarrow> (\<exists>c \<in> set (blocks_in_round e (r + 1)). \<exists>cb. get_block e c = Some cb \<and>
     h \<in> set (b_parents cb) \<and> has_quorum vs (map b_author (certifiers e r c)))"

lemma certifier_tally:
  assumes "valid_set vs"
  shows "\<exists>seen s. tally (count_member vs) (map b_author (certifiers e r c)) ([], 0) = Some (seen, s) \<and>
    (vs_quorum vs \<le> s \<longleftrightarrow> has_quorum vs (map b_author (certifiers e r c)))"
proof -
  obtain acc where acc: "tally (count_member vs) (map b_author (certifiers e r c)) ([], 0) = Some acc"
    "tally_ok vs acc" "set (fst acc) = b_author ` set (certifiers e r c) \<inter> members vs"
    using tally_members [OF assms tally_ok_empty, of "map b_author (certifiers e r c)"] by auto
  then have "unat (snd acc) = sum (weight vs) (b_author ` set (certifiers e r c))"
    by (simp add: tally_ok_def sum_weight_inter)
  then show ?thesis
    using acc(1) assms by (intro exI [of _ "fst acc"] exI [of _ "snd acc"])
      (simp add: has_quorum_iff word_le_nat_alt)
qed

lemma support_loop_valid:
  assumes "valid_set vs"
  shows "\<exists>s. support_loop e h r vs cs = Some s \<and>
    (s \<noteq> None \<longleftrightarrow> (\<exists>c \<in> set cs. \<exists>cb. get_block e c = Some cb \<and> h \<in> set (b_parents cb) \<and>
       has_quorum vs (map b_author (certifiers e r c))))"
proof (induction cs)
  case (Cons c cs)
  obtain seen s where "tally (count_member vs) (map b_author (certifiers e r c)) ([], 0) = Some (seen, s)"
    "vs_quorum vs \<le> s \<longleftrightarrow> has_quorum vs (map b_author (certifiers e r c))"
    using certifier_tally [OF assms] by blast
  then show ?case using Cons by (cases "get_block e c") auto
qed simp

lemma two_round_support:
  assumes "valid_set vs"
  shows "two_round_commit_support e h r vs \<noteq> None"
    and "(\<exists>s. two_round_commit_support e h r vs = Some (Some s)) \<longleftrightarrow> certified e vs h r"
  using support_loop_valid [OF assms, of e h r "blocks_in_round e (r + 1)"]
  by (auto simp: two_round_commit_support_def certified_def)

lemma certified_among_eq:
  assumes "valid_set vs"
  shows "certified_among e vs r hs = Some (filter (\<lambda>h. certified e vs h r) hs)"
proof (induction hs)
  case (Cons h hs)
  obtain s where s: "two_round_commit_support e h r vs = Some s"
    using two_round_support(1) [OF assms, of e h r] by auto
  then have "s \<noteq> None \<longleftrightarrow> certified e vs h r"
    using two_round_support(2) [OF assms, of e h r] by auto
  then show ?case using s Cons by auto
qed simp

lemma anchors_of_iff:
  "h \<in> set (anchors_of e vals r) \<longleftrightarrow> vals \<noteq> [] \<and> h \<in> set (blocks_in_round e r) \<and>
     (\<exists>b. get_block e h = Some b \<and> b_author b = vals ! (unat r mod length vals))"
  by (auto simp: anchors_of_def Let_def split: option.splits)

lemma distinct_remdups_adj_sorted: "sorted xs \<Longrightarrow> distinct (remdups_adj xs)"
  by (induction xs rule: remdups_adj.induct) (auto simp: remdups_adj_set)

lemma distinct_anchors: "distinct (anchors_of e vals r)"
  by (auto simp: anchors_of_def Let_def distinct_remdups_adj_sorted)

section \<open>A certified anchor is in every later history\<close>

lemma unat_plus:
  fixes r :: u64
  assumes "unat r + n < 2 ^ 64"
  shows "unat (r + word_of_nat n) = unat r + n"
proof -
  have "unat (word_of_nat n :: u64) = n" using assms by (simp add: unsigned_of_nat take_bit_nat_eq_self)
  then show ?thesis using assms by (simp add: unat_add_no_wrap)
qed

lemma unat_plus_small:
  fixes r :: u64
  assumes "unat r + 3 < 2 ^ 64"
  shows "unat (r + 1) = unat r + 1" "unat (r + 2) = unat r + 2"
  using assms unat_plus [of r 1] unat_plus [of r 2] by simp_all

lemma linkedD:
  assumes "linked vs base e" and "get_block e h = Some b" and "base < unat (b_round b)"
  shows "p \<in> set (b_parents b) \<Longrightarrow> \<exists>pb. get_block e p = Some pb \<and> unat (b_round pb) + 1 = unat (b_round b)"
    and "has_quorum vs (map b_author (held_parents e b))"
  using assms by (auto simp: linked_def)

text \<open>Going down from a block one round at a time, through parents that are all present.\<close>

lemma descend:
  assumes val: "valid_set vs" and lk: "linked vs base e"
    and "get_block e h = Some b" and "base \<le> n" and "n \<le> unat (b_round b)" and "unat fl \<le> n"
  shows "\<exists>h' b'. (history_edge e fl)\<^sup>*\<^sup>* h h' \<and> get_block e h' = Some b' \<and> unat (b_round b') = n"
  using assms(3,5)
proof (induction "unat (b_round b) - n" arbitrary: h b)
  case 0
  then show ?case by auto
next
  case (Suc k)
  then have above: "n < unat (b_round b)" by simp
  then have base: "base < unat (b_round b)" using assms(4) by simp
  have "map b_author (held_parents e b) \<noteq> []"
    using quorum_nonempty [OF val linkedD(2) [OF lk Suc.prems(1) base]] by auto
  then obtain pb where "pb \<in> set (held_parents e b)" by (cases "held_parents e b") auto
  then obtain p where p: "p \<in> set (b_parents b)" "get_block e p = Some pb" by (auto simp: held_parents_iff)
  then have lower: "unat (b_round pb) + 1 = unat (b_round b)"
    using linkedD(1) [OF lk Suc.prems(1) base, of p] by auto
  have "\<exists>h' b'. (history_edge e fl)\<^sup>*\<^sup>* p h' \<and> get_block e h' = Some b' \<and> unat (b_round b') = n"
    using Suc.hyps(1) [OF _ p(2)] Suc.hyps(2) lower above by simp
  moreover have "history_edge e fl h p"
    using p Suc.prems(1) above assms(6) by (auto simp: history_edge_def word_le_nat_alt)
  ultimately show ?case using converse_rtranclp_into_rtranclp [of "history_edge e fl" h p] by blast
qed

text \<open>A quorum of certifiers in one view and a quorum of authors of the same round in another share a
  correct author, whose only block of that round is in both.\<close>

lemma shared_certifier:
  assumes val: "valid_set vs" and F: "finite F" "sum (weight vs) F \<le> unat (fault_tolerance_stake vs)"
    and agree: "views_agree F e1 e2" and idx: "indexed e1"
    and cert: "has_quorum vs (map b_author (certifiers e1 r c))"
    and ps: "has_quorum vs (map b_author ps)" "\<forall>p \<in> set ps. b_round p = r + 2 \<and> (\<exists>h. get_block e2 h = Some p)"
  shows "\<exists>w wb. get_block e1 w = Some wb \<and> get_block e2 w = Some wb \<and> wb \<in> set ps \<and> c \<in> set (b_parents wb)"
proof -
  obtain a where a: "a \<in> b_author ` set (certifiers e1 r c)" "a \<in> b_author ` set ps" "a \<notin> F"
    using quorum_overlap [OF val cert ps(1) F] by auto
  then obtain x p where x: "x \<in> set (certifiers e1 r c)" "b_author x = a" and p: "p \<in> set ps" "b_author p = a" by auto
  obtain w where w: "w \<in> set (blocks_in_round e1 (r + 2))" "get_block e1 w = Some x" "c \<in> set (b_parents x)"
    using x(1) by (auto simp: certifiers_def map_filter_set)
  have "b_round x = r + 2" using w(1,2) idx by (auto simp: indexed_def)
  moreover obtain h where h: "get_block e2 h = Some p" "b_round p = r + 2" using ps(2) p(1) by blast
  ultimately have "w = h" using agree w(2) h(1) x(2) p(2) a(3) unfolding views_agree_def by metis
  then have "x = p" using agree w(2) h(1) unfolding views_agree_def by blast
  then show ?thesis using w h \<open>w = h\<close> p(1) by blast
qed

lemma certified_parent_present:
  assumes lk: "linked vs base e2" and base: "base \<le> unat r" and bound: "unat r + 3 < 2 ^ 64"
    and agree: "views_agree F e1 e2"
    and w: "get_block e2 w = Some wb" "b_round wb = r + 2" "c \<in> set (b_parents wb)"
    and c: "get_block e1 c = Some cb" "h \<in> set (b_parents cb)"
  shows "get_block e2 c = Some cb" and "b_round cb = r + 1" and "\<exists>hb. get_block e2 h = Some hb \<and> b_round hb = r"
proof -
  note small = unat_plus_small [OF bound]
  obtain cb2 where c2: "get_block e2 c = Some cb2" "unat (b_round cb2) + 1 = unat (r + 2)"
    using linkedD(1) [OF lk w(1) _ w(3)] base small w(2) by auto
  then have "cb2 = cb" using agree c(1) unfolding views_agree_def by blast
  then show c': "get_block e2 c = Some cb" using c2 by simp
  have "unat (b_round cb) = unat (r + 1)" using c2 \<open>cb2 = cb\<close> small by simp
  then show "b_round cb = r + 1" by (simp add: word_unat_eq_iff)
  then obtain hb where "get_block e2 h = Some hb" "unat (b_round hb) + 1 = unat (r + 1)"
    using linkedD(1) [OF lk c' _ c(2)] base small by auto
  then show "\<exists>hb. get_block e2 h = Some hb \<and> b_round hb = r"
    using small by (auto simp: word_unat_eq_iff)
qed

lemma certified_in_history:
  assumes val: "valid_set vs" and F: "finite F" "sum (weight vs) F \<le> unat (fault_tolerance_stake vs)"
    and agree: "views_agree F e1 e2" and idx: "indexed e1"
    and lk: "linked vs base e2" and base: "base \<le> unat r"
    and cert: "certified e1 vs h r"
    and d: "get_block e2 d = Some db" "unat r + 3 \<le> unat (b_round db)"
  shows "causal_history_contains e2 d h r" and "\<exists>hb. get_block e2 h = Some hb \<and> b_round hb = r"
proof -
  have bound: "unat r + 3 < 2 ^ 64" using d(2) unat_less_64 [of "b_round db"] by simp
  note small = unat_plus_small [OF bound]
  obtain c cb where c: "get_block e1 c = Some cb" "h \<in> set (b_parents cb)"
    "has_quorum vs (map b_author (certifiers e1 r c))"
    using cert by (auto simp: certified_def)
  obtain x xb where x: "(history_edge e2 r)\<^sup>*\<^sup>* d x" "get_block e2 x = Some xb" "unat (b_round xb) = unat r + 3"
    using descend [OF val lk d(1) _ d(2), of r] base by auto
  have xr: "b_round xb - 1 = r + 2"
    using x(3) small unat_sub [of 1 "b_round xb"] by (simp add: word_unat_eq_iff word_le_nat_alt)
  have q: "has_quorum vs (map b_author (held_parents e2 xb))" using linkedD(2) [OF lk x(2)] x(3) base by simp
  have "\<forall>p \<in> set (held_parents e2 xb). b_round p = r + 2 \<and> (\<exists>h. get_block e2 h = Some p)"
    using xr by (auto simp: held_parents_iff)
  then obtain w wb where w: "get_block e1 w = Some wb" "get_block e2 w = Some wb" "wb \<in> set (held_parents e2 xb)"
    "c \<in> set (b_parents wb)"
    using shared_certifier [OF val F agree idx c(3) q] by blast
  then have wr: "b_round wb = r + 2" using xr by (simp add: held_parents_iff)
  note present = certified_parent_present [OF lk base bound agree w(2) wr w(4) c(1,2)]
  obtain w' where w': "w' \<in> set (b_parents xb)" "get_block e2 w' = Some wb"
    using w(3) by (auto simp: held_parents_iff)
  have "history_edge e2 r x w'" using w' x(2,3) by (auto simp: history_edge_def word_le_nat_alt)
  moreover have "history_edge e2 r w' c" using w' w(4) wr small by (auto simp: history_edge_def word_le_nat_alt)
  moreover have "history_edge e2 r c h" using present c small by (auto simp: history_edge_def word_le_nat_alt)
  ultimately have "(history_edge e2 r)\<^sup>*\<^sup>* d h" using x(1) by (meson rtranclp.rtrancl_into_rtrancl)
  then show "causal_history_contains e2 d h r" by (simp add: causal_history_iff)
  show "\<exists>hb. get_block e2 h = Some hb \<and> b_round hb = r" by (rule present(3))
qed

section \<open>No view skips a certified round\<close>

lemma set_round_range:
  "x \<in> set (round_range a b) \<longleftrightarrow> unat a \<le> unat x \<and> unat x \<le> unat b"
proof
  assume "x \<in> set (round_range a b)"
  then obtain n where n: "unat a \<le> n" "n \<le> unat b" "x = word_of_nat n" by (auto simp: round_range_def)
  then have "unat x = n"
    using unat_less_64 [of b] by (simp add: unsigned_of_nat take_bit_nat_eq_self)
  then show "unat a \<le> unat x \<and> unat x \<le> unat b" using n by simp
next
  assume "unat a \<le> unat x \<and> unat x \<le> unat b"
  then have "unat x \<in> set [unat a..<Suc (unat b)]" by (simp only: set_upt atLeastLessThan_iff less_Suc_eq_le)
  then have "word_of_nat (unat x) \<in> set (round_range a b)" unfolding round_range_def set_map by (rule imageI)
  then show "x \<in> set (round_range a b)" by simp
qed

lemma find_decider_Decider:
  assumes "valid_set vs" and "find_decider e vs vals db rs = Some (Decider r2 d)"
  shows "r2 \<in> set rs \<and> d \<in> set (anchors_of e vals r2) \<and> certified e vs d r2"
  using assms(2)
proof (induction rs)
  case (Cons r rs)
  let ?cs = "filter (\<lambda>h. certified e vs h r) (anchors_of e vals r)"
  show ?case
  proof (cases ?cs)
    case (Cons h hs)
    then have "h \<in> set ?cs" by simp
    then have "h \<in> set (anchors_of e vals r)" "certified e vs h r" by simp_all
    then show ?thesis
      using Cons Cons.prems assms(1)
      by (cases hs) (auto simp: Let_def certified_among_eq split: if_splits)
  qed (use Cons assms(1) in \<open>auto simp: Let_def certified_among_eq split: if_splits\<close>)
qed simp

lemma decide_round_cases:
  assumes val: "valid_set vs" and dec: "decide_round e vs vals db scan_end r = Some dec" and "vals \<noteq> []"
  obtains (fenced) "dec = Fenced" | (undecided) "dec = Undecided"
  | (direct) h where "dec = Commit_Anchor h" "h \<in> set (anchors_of e vals r)" "certified e vs h r"
      "db \<Longrightarrow> length (anchors_of e vals r) \<le> 1"
  | (history) r2 d where "dec = decide_from_history e (anchors_of e vals r) r d"
      "r2 \<in> set (round_range (r + 3) scan_end)" "d \<in> set (anchors_of e vals r2)" "certified e vs d r2"
      "db \<Longrightarrow> length (anchors_of e vals r) \<le> 1" "\<forall>h \<in> set (anchors_of e vals r). \<not> certified e vs h r"
proof (cases "db \<and> length (anchors_of e vals r) > 1")
  case True
  then show ?thesis using dec assms(3) fenced by (simp add: decide_round_def Let_def)
next
  case False
  let ?cs = "filter (\<lambda>h. certified e vs h r) (anchors_of e vals r)"
  show ?thesis
  proof (cases ?cs)
    case Nil
    then have none: "\<forall>h \<in> set (anchors_of e vals r). \<not> certified e vs h r" by (simp add: filter_empty_conv)
    have d: "(case find_decider e vs vals db (round_range (r + 3) scan_end) of
               None \<Rightarrow> None | Some No_Decider \<Rightarrow> Some Undecided | Some Ambiguous_Ahead \<Rightarrow> Some Fenced
             | Some (Decider _ d) \<Rightarrow> Some (decide_from_history e (anchors_of e vals r) r d)) = Some dec"
      using dec assms(3) False Nil
      by (simp add: decide_round_def Let_def certified_among_eq [OF val] split: if_splits)
    show ?thesis
    proof (cases "find_decider e vs vals db (round_range (r + 3) scan_end)")
      case (Some x)
      show ?thesis
      proof (cases x)
        case (Decider r2 dh)
        then show ?thesis
          using history [of dh r2] find_decider_Decider [OF val, of e vals db _ r2 dh] Some d False none by auto
      qed (use d Some fenced undecided in auto)
    qed (use d in simp)
  next
    case (Cons h hs)
    then have "h \<in> set ?cs" by simp
    then have "h \<in> set (anchors_of e vals r)" "certified e vs h r" by simp_all
    then show ?thesis
      using direct [of h] fenced dec assms(3) False Cons
      by (cases hs) (auto simp: decide_round_def Let_def certified_among_eq [OF val] split: if_splits)
  qed
qed

lemma certified_twins:
  assumes val: "valid_set vs" and F: "finite F" "sum (weight vs) F \<le> unat (fault_tolerance_stake vs)"
    and agree: "views_agree F e1 e2" and idx: "indexed e1" "indexed e2"
    and lk: "linked vs base e2" and base: "base \<le> unat r" and bound: "unat r + 3 < 2 ^ 64"
    and cert: "certified e1 vs h r" "certified e2 vs h2 r"
  shows "\<exists>hb. get_block e2 h = Some hb \<and> b_round hb = r"
proof -
  obtain c cb where c: "get_block e1 c = Some cb" "h \<in> set (b_parents cb)"
    "has_quorum vs (map b_author (certifiers e1 r c))"
    using cert(1) by (auto simp: certified_def)
  obtain c2 where q: "has_quorum vs (map b_author (certifiers e2 r c2))"
    using cert(2) by (auto simp: certified_def)
  have "\<forall>p \<in> set (certifiers e2 r c2). b_round p = r + 2 \<and> (\<exists>h. get_block e2 h = Some p)"
    using idx(2) by (auto simp: certifiers_def map_filter_set indexed_def)
  then obtain w wb where "get_block e2 w = Some wb" "b_round wb = r + 2" "c \<in> set (b_parents wb)"
    using shared_certifier [OF val F agree idx(1) c(3) q] by blast
  then show ?thesis using certified_parent_present(3) [OF lk base bound agree _ _ _ c(1,2)] by blast
qed

lemma anchor_in_other_view:
  assumes "h \<in> set (anchors_of e1 vals r)" and "views_agree F e1 e2" and "indexed e2"
    and "get_block e2 h = Some hb" and "b_round hb = r"
  shows "h \<in> set (anchors_of e2 vals r)"
  using assms unfolding anchors_of_iff views_agree_def indexed_def by metis

text \<open>What a view decides about a round whose anchor another view has certified.\<close>

lemma certified_decision:
  assumes val: "valid_set vs" and F: "finite F" "sum (weight vs) F \<le> unat (fault_tolerance_stake vs)"
    and agree: "views_agree F e1 e2" and idx: "indexed e1" "indexed e2"
    and lk: "linked vs base e2" and base: "base \<le> unat r" and bound: "unat r + 3 < 2 ^ 64"
    and vals: "vals = frozen_addresses vs" "vals \<noteq> []"
    and anchor: "h \<in> set (anchors_of e1 vals r)"
    and support: "two_round_commit_support e1 h r vs = Some (Some s)"
    and leader: "db \<or> vals ! (unat r mod length vals) \<notin> F"
    and dec: "decide_round e2 vs vals db scan_end r = Some dec"
  shows "dec \<in> {Commit_Anchor h, Undecided, Fenced}"
proof -
  have cert: "certified e1 vs h r" using support two_round_support(2) [OF val] by blast
  have only: "h' = h" if h': "h' \<in> set (anchors_of e2 vals r)" "db \<Longrightarrow> length (anchors_of e2 vals r) \<le> 1"
    "h \<in> set (anchors_of e2 vals r)" for h'
  proof (cases db)
    case True
    then show ?thesis using h' by (cases "anchors_of e2 vals r") auto
  next
    case False
    then have l: "vals ! (unat r mod length vals) \<notin> F" using leader by simp
    obtain b1 b2 where "get_block e1 h = Some b1" "get_block e2 h' = Some b2" "b_author b1 = vals ! (unat r mod length vals)"
      "b_author b2 = vals ! (unat r mod length vals)" "b_round b1 = r" "b_round b2 = r"
      using anchor h'(1) idx unfolding anchors_of_iff indexed_def by metis
    then show ?thesis using agree l unfolding views_agree_def by metis
  qed
  show ?thesis using val dec vals(2)
  proof (cases rule: decide_round_cases)
    case (direct h')
    then have "h \<in> set (anchors_of e2 vals r)"
      using certified_twins [OF val F agree idx lk base bound cert] anchor_in_other_view [OF anchor agree idx(2)] by blast
    then show ?thesis using direct only by auto
  next
    case (history r2 d)
    have "unat r + 3 \<le> unat r2"
      using history(2) bound unat_plus [of r 3] by (simp add: set_round_range)
    then obtain db' where d: "get_block e2 d = Some db'" "unat r + 3 \<le> unat (b_round db')"
      using history(3) idx(2) unfolding anchors_of_iff indexed_def by metis
    note hist = certified_in_history [OF val F agree idx(1) lk base cert d]
    have mem: "h \<in> set (anchors_of e2 vals r)"
      using hist(2) anchor_in_other_view [OF anchor agree idx(2)] by blast
    define found where "found = filter (\<lambda>h. causal_history_contains e2 d h r) (anchors_of e2 vals r)"
    have "h \<in> set found" using hist(1) mem by (simp add: found_def)
    then show ?thesis
      using history(1) unfolding decide_from_history_def found_def [symmetric] by (auto split: list.splits)
  qed auto
qed

section \<open>Properties\<close>

text \<open>C5: if an anchor is certified by two-round support in one view, then another view that decides its round
  commits that same anchor; it never skips the round and never commits another block there. The views agree
  on every block they share and on the blocks of correct authors, the faulty authors hold at most the fault
  tolerance of the frozen set, the deciding view is linked above a base not beyond the round, and either it
  is bound to a recovery domain or the leader of the round is correct.\<close>

theorem certified_round_never_skipped:
  assumes val: "valid_set vs" and F: "finite F" "sum (weight vs) F \<le> unat (fault_tolerance_stake vs)"
    and agree: "views_agree F e1 e2" and idx: "indexed e1" "indexed e2"
    and lk: "linked vs base e2" and base: "base \<le> unat r" and bound: "unat r + 3 < 2 ^ 64"
    and vals: "vals = frozen_addresses vs" "vals \<noteq> []"
    and anchor: "h \<in> set (anchors_of e1 vals r)"
    and support: "two_round_commit_support e1 h r vs = Some (Some s)"
    and leader: "db \<or> vals ! (unat r mod length vals) \<notin> F"
    and dec: "decide_round e2 vs vals db scan_end r = Some dec"
  shows "dec \<in> {Commit_Anchor h, Undecided, Fenced}"
  by (rule certified_decision [OF val F agree idx lk base bound vals anchor support leader dec])

end
