(* ===== verification/Arc_Agreement.thy ===== *)
theory Arc_Agreement
  imports Arc_Safety
begin

text \<open>
  Agreement of commit decisions in a recovery domain, and the commit scan. In a domain every block has a
  parent of every member that is not excused (\<open>complete\<close>); this makes the decisions of two views agree
  with no bound on the faulty stake. The scan of \<open>try_commit_limited\<close> is shown to return the anchors of
  the rounds it passes, in order.
\<close>

section \<open>Full participation\<close>

text \<open>In a recovery domain every block above the base has a parent of every member with stake, unless a
  skip certificate excuses the member for that round.\<close>

definition complete :: "validator_set \<Rightarrow> nat \<Rightarrow> engine \<Rightarrow> bool" where
  "complete vs base e \<longleftrightarrow> (\<forall>h b. get_block e h = Some b \<longrightarrow> base < unat (b_round b) \<longrightarrow>
     (\<forall>v \<in> set (vs_validators vs). v_stake v > 0 \<longrightarrow>
       v_address v \<in> b_author ` set (held_parents e b) \<or> is_excused_for_round e (b_round b - 1) (v_address v)))"

text \<open>A member with stake that no certificate excuses in a round.\<close>

definition expected_in :: "engine \<Rightarrow> validator_set \<Rightarrow> u64 \<Rightarrow> address \<Rightarrow> bool" where
  "expected_in e vs r a \<longleftrightarrow>
     (\<exists>v \<in> set (vs_validators vs). v_address v = a \<and> v_stake v > 0) \<and> \<not> is_excused_for_round e r a"

lemma completeD:
  assumes "complete vs base e" and "get_block e h = Some b" and "base < unat (b_round b)"
    and "expected_in e vs (b_round b - 1) a"
  shows "\<exists>p pb. p \<in> set (b_parents b) \<and> get_block e p = Some pb \<and> b_author pb = a \<and> b_round pb = b_round b - 1"
proof -
  have "a \<in> b_author ` set (held_parents e b)" using assms by (auto simp: complete_def expected_in_def)
  then obtain pb where "pb \<in> set (held_parents e b)" "b_author pb = a" by auto
  then show ?thesis unfolding held_parents_iff by blast
qed

lemma author_in_history:
  assumes val: "valid_set vs" and lk: "linked vs base e" and cm: "complete vs base e"
    and d: "get_block e d = Some db" "unat r < unat (b_round db)" and base: "base \<le> unat r"
    and a: "expected_in e vs r a"
  shows "\<exists>x xb p pb. (history_edge e r)\<^sup>*\<^sup>* d x \<and> get_block e x = Some xb \<and> unat (b_round xb) = unat r + 1 \<and>
    p \<in> set (b_parents xb) \<and> get_block e p = Some pb \<and> b_author pb = a \<and> b_round pb = r \<and>
    causal_history_contains e d p r"
proof -
  obtain x xb where x: "(history_edge e r)\<^sup>*\<^sup>* d x" "get_block e x = Some xb" "unat (b_round xb) = unat r + 1"
    using descend [OF val lk d(1), of "unat r + 1" r] d(2) base by auto
  have below: "b_round xb - 1 = r"
    using x(3) unat_sub [of 1 "b_round xb"] by (simp add: word_unat_eq_iff word_le_nat_alt)
  have "base < unat (b_round xb)" using x(3) base by simp
  then obtain p pb where p: "p \<in> set (b_parents xb)" "get_block e p = Some pb" "b_author pb = a" "b_round pb = r"
    using completeD [OF cm x(2)] a unfolding below by blast
  have "history_edge e r x p" using x p by (auto simp: history_edge_def word_le_nat_alt)
  then have "(history_edge e r)\<^sup>*\<^sup>* d p" using x(1) by (meson rtranclp.rtrancl_into_rtrancl)
  then show ?thesis using x p unfolding causal_history_iff by blast
qed

lemma expected_anchor:
  assumes "indexed e" and "get_block e p = Some pb" and "b_author pb = vals ! (unat r mod length vals)"
    and "b_round pb = r" and "vals \<noteq> []"
  shows "p \<in> set (anchors_of e vals r)"
  using assms by (auto simp: anchors_of_iff indexed_def)

text \<open>A view that decides a round holds a block at least two rounds above it.\<close>

lemma deciding_view:
  assumes val: "valid_set vs" and idx: "indexed e" and bound: "unat r + 3 < 2 ^ 64" and "vals \<noteq> []"
    and dec: "decide_round e vs vals True scan_end r = Some dec" "dec \<notin> {Undecided, Fenced}"
  shows "length (anchors_of e vals r) \<le> 1" and "\<exists>d db. get_block e d = Some db \<and> unat r + 2 \<le> unat (b_round db)"
proof -
  have "length (anchors_of e vals r) \<le> 1 \<and> (\<exists>d db. get_block e d = Some db \<and> unat r + 2 \<le> unat (b_round db))"
    using val dec(1) assms(4)
  proof (cases rule: decide_round_cases)
    case (direct h)
    obtain c where q: "has_quorum vs (map b_author (certifiers e r c))" using direct(3) by (auto simp: certified_def)
    obtain x where "x \<in> set (certifiers e r c)" using quorum_nonempty [OF val q] by (cases "certifiers e r c") auto
    then obtain w where "w \<in> set (blocks_in_round e (r + 2))" "get_block e w = Some x"
      by (auto simp: certifiers_def map_filter_set)
    then show ?thesis using idx direct(4) unat_plus_small [OF bound] unfolding indexed_def by fastforce
  next
    case (history r2 d)
    have "unat r + 3 \<le> unat r2" using history(2) bound unat_plus [of r 3] by (simp add: set_round_range)
    moreover obtain db where "get_block e d = Some db" "b_round db = r2"
      using history(3) idx unfolding anchors_of_iff indexed_def by metis
    ultimately have "get_block e d = Some db" "unat r + 2 \<le> unat (b_round db)" by simp_all
    then show ?thesis using history(5) by blast
  qed (use dec(2) in auto)
  then show "length (anchors_of e vals r) \<le> 1" "\<exists>d db. get_block e d = Some db \<and> unat r + 2 \<le> unat (b_round db)"
    by blast+
qed

text \<open>If two views decide a round, one correct member that both expect one round above puts one and the
  same anchor into both.\<close>

lemma shared_anchor:
  assumes val: "valid_set vs" and agree: "views_agree F e1 e2" and idx: "indexed e1" "indexed e2"
    and lk: "linked vs base1 e1" "linked vs base2 e2" and cm: "complete vs base1 e1" "complete vs base2 e2"
    and base: "base1 \<le> unat r" "base2 \<le> unat r" and bound: "unat r + 3 < 2 ^ 64"
    and vals: "vals \<noteq> []" and leader: "expected_in e1 vs r (vals ! (unat r mod length vals))"
    and v: "v \<notin> F" "expected_in e1 vs (r + 1) v" "expected_in e2 vs (r + 1) v"
    and d1: "get_block e1 d1 = Some db1" "unat r + 2 \<le> unat (b_round db1)"
    and d2: "get_block e2 d2 = Some db2" "unat r + 2 \<le> unat (b_round db2)"
  shows "\<exists>p. p \<in> set (anchors_of e1 vals r) \<and> p \<in> set (anchors_of e2 vals r)"
proof -
  note small = unat_plus_small [OF bound]
  have up: "base1 \<le> unat (r + 1)" "base2 \<le> unat (r + 1)" "unat (r + 1) < unat (b_round db1)"
    "unat (r + 1) < unat (b_round db2)" using base small d1(2) d2(2) by simp_all
  obtain w1 wb1 where w1: "get_block e1 w1 = Some wb1" "b_author wb1 = v" "b_round wb1 = r + 1"
    using author_in_history [OF val lk(1) cm(1) d1(1) up(3) up(1) v(2)] by blast
  obtain w2 wb2 where w2: "get_block e2 w2 = Some wb2" "b_author wb2 = v" "b_round wb2 = r + 1"
    using author_in_history [OF val lk(2) cm(2) d2(1) up(4) up(2) v(3)] by blast
  have same: "w1 = w2" "wb1 = wb2" using agree w1 w2 v(1) unfolding views_agree_def by metis+
  have r1: "b_round wb1 - 1 = r" using w1(3) by simp
  have above: "base1 < unat (b_round wb1)" "base2 < unat (b_round wb1)" using base small w1(3) by simp_all
  obtain p pb where p: "p \<in> set (b_parents wb1)" "get_block e1 p = Some pb"
    "b_author pb = vals ! (unat r mod length vals)" "b_round pb = r"
    using completeD [OF cm(1) w1(1) above(1)] leader unfolding r1 by blast
  then obtain pb2 where "get_block e2 p = Some pb2"
    using linkedD(1) [OF lk(2) w2(1)] above(2) same by blast
  then have "get_block e2 p = Some pb" using agree p(2) unfolding views_agree_def by metis
  then show ?thesis using expected_anchor [OF idx(1) p(2-4) vals] expected_anchor [OF idx(2) _ p(3,4) vals] by blast
qed

lemma domain_agreement:
  assumes val: "valid_set vs" and agree: "views_agree F e1 e2" and idx: "indexed e1" "indexed e2"
    and lk: "linked vs base1 e1" "linked vs base2 e2" and cm: "complete vs base1 e1" "complete vs base2 e2"
    and base: "base1 \<le> unat r" "base2 \<le> unat r" and bound: "unat r + 3 < 2 ^ 64"
    and vals: "vals = frozen_addresses vs" "vals \<noteq> []"
    and leader: "expected_in e1 vs r (vals ! (unat r mod length vals))"
      "expected_in e2 vs r (vals ! (unat r mod length vals))"
    and v: "v \<notin> F" "expected_in e1 vs (r + 1) v" "expected_in e2 vs (r + 1) v"
    and dec1: "decide_round e1 vs vals True scan_end1 r = Some (Commit_Anchor h)"
    and dec2: "decide_round e2 vs vals True scan_end2 r = Some dec"
  shows "dec \<in> {Commit_Anchor h, Undecided, Fenced}"
proof (rule ccontr)
  assume other: "dec \<notin> {Commit_Anchor h, Undecided, Fenced}"
  then have other2: "dec \<notin> {Undecided, Fenced}" by simp
  obtain d1 db1 where d1: "get_block e1 d1 = Some db1" "unat r + 2 \<le> unat (b_round db1)"
    and one1: "length (anchors_of e1 vals r) \<le> 1"
    using deciding_view [OF val idx(1) bound vals(2) dec1] by auto
  obtain d2 db2 where d2: "get_block e2 d2 = Some db2" "unat r + 2 \<le> unat (b_round db2)"
    and one2: "length (anchors_of e2 vals r) \<le> 1"
    using deciding_view [OF val idx(2) bound vals(2) dec2 other2] by auto
  obtain p where p: "p \<in> set (anchors_of e1 vals r)" "p \<in> set (anchors_of e2 vals r)"
    using shared_anchor [OF val agree idx lk cm base bound vals(2) leader(1) v d1 d2] by blast
  have only1: "anchors_of e1 vals r = [p]" and only2: "anchors_of e2 vals r = [p]"
    using one1 one2 p by (cases "anchors_of e1 vals r"; cases "anchors_of e2 vals r"; auto)+
  have "h = p" using val dec1 vals(2)
    by (cases rule: decide_round_cases) (auto simp: only1 decide_from_history_def split: if_splits)
  show False using val dec2 vals(2)
  proof (cases rule: decide_round_cases)
    case (history r2 d)
    have "unat r + 3 \<le> unat r2" using history(2) bound unat_plus [of r 3] by (simp add: set_round_range)
    moreover obtain db where d: "get_block e2 d = Some db" "b_round db = r2"
      using history(3) idx(2) unfolding anchors_of_iff indexed_def by metis
    ultimately obtain q qb where "get_block e2 q = Some qb" "b_author qb = vals ! (unat r mod length vals)"
      "b_round qb = r" "causal_history_contains e2 d q r"
      using author_in_history [OF val lk(2) cm(2) d(1) _ base(2) leader(2)] by auto
    then have "causal_history_contains e2 d p r" using expected_anchor [OF idx(2) _ _ _ vals(2)] only2 by force
    then show False using history(1) other \<open>h = p\<close> by (simp add: only2 decide_from_history_def)
  qed (use other \<open>h = p\<close> only2 in auto)
qed

text \<open>C4: two views bound to a recovery domain never decide a round differently. If one commits an anchor of a
  round, any other view that decides the round commits the same anchor: it neither skips the round nor
  commits another block. No bound on the faulty stake is needed: it is enough that one correct member with
  stake is not excused in the round above, and that the leader of the round is not excused.\<close>

theorem domain_decisions_agree:
  assumes val: "valid_set vs" and agree: "views_agree F e1 e2" and idx: "indexed e1" "indexed e2"
    and lk: "linked vs base1 e1" "linked vs base2 e2" and cm: "complete vs base1 e1" "complete vs base2 e2"
    and base: "base1 \<le> unat r" "base2 \<le> unat r" and bound: "unat r + 3 < 2 ^ 64"
    and vals: "vals = frozen_addresses vs" "vals \<noteq> []"
    and leader: "expected_in e1 vs r (vals ! (unat r mod length vals))"
      "expected_in e2 vs r (vals ! (unat r mod length vals))"
    and v: "v \<notin> F" "expected_in e1 vs (r + 1) v" "expected_in e2 vs (r + 1) v"
    and dec1: "decide_round e1 vs vals True scan_end1 r = Some (Commit_Anchor h)"
    and dec2: "decide_round e2 vs vals True scan_end2 r = Some dec"
  shows "dec \<in> {Commit_Anchor h, Undecided, Fenced}"
  by (rule domain_agreement [OF assms])

section \<open>The commit scan\<close>

lemma find_decider_total: "valid_set vs \<Longrightarrow> \<exists>x. find_decider e vs vals db rs = Some x"
proof (induction rs)
  case (Cons r rs)
  obtain cs where cs: "certified_among e vs r (anchors_of e vals r) = Some cs"
    using certified_among_eq [OF Cons.prems] by blast
  show ?case
  proof (cases cs)
    case (Cons h hs)
    then show ?thesis using cs by (cases hs) (simp_all add: Let_def)
  qed (use cs Cons in \<open>simp add: Let_def\<close>)
qed simp

lemma decide_round_total: "valid_set vs \<Longrightarrow> \<exists>d. decide_round e vs vals db scan_end r = Some d"
proof -
  assume val: "valid_set vs"
  obtain cs where cs: "certified_among e vs r (anchors_of e vals r) = Some cs"
    using certified_among_eq [OF val] by blast
  obtain x where x: "find_decider e vs vals db (round_range (r + 3) scan_end) = Some x"
    using find_decider_total [OF val] by blast
  show ?thesis
  proof (cases cs)
    case Nil
    then show ?thesis using cs x by (cases x) (simp_all add: decide_round_def Let_def)
  next
    case (Cons h hs)
    then show ?thesis using cs by (cases hs) (simp_all add: decide_round_def Let_def)
  qed
qed

text \<open>What one round contributes to the scan, as a function of its decision.\<close>

definition committed_at :: "engine \<Rightarrow> validator_set \<Rightarrow> bool \<Rightarrow> u64 \<Rightarrow> nat \<Rightarrow> dag_block list" where
  "committed_at e vs db scan_end n =
     (case decide_round e vs (frozen_addresses vs) db scan_end (word_of_nat n) of
        Some (Commit_Anchor h) \<Rightarrow>
          if h \<in> set (e_committed e) then [] else (case get_block e h of None \<Rightarrow> [] | Some b \<Rightarrow> [b])
      | _ \<Rightarrow> [])"

definition passes :: "engine \<Rightarrow> validator_set \<Rightarrow> bool \<Rightarrow> u64 \<Rightarrow> nat \<Rightarrow> bool" where
  "passes e vs db scan_end n \<longleftrightarrow>
     (case decide_round e vs (frozen_addresses vs) db scan_end (word_of_nat n) of
        Some (Commit_Anchor _) \<Rightarrow> True | Some Skip_Round \<Rightarrow> True | _ \<Rightarrow> False)"

lemma commit_scan_spec:
  assumes "valid_set vs" and "n \<le> m" and "m < 2 ^ 64"
  shows "\<exists>k. commit_scan e vs (frozen_addresses vs) db scan_end mx (map word_of_nat [n..<m]) (bs, word_of_nat n) =
      Some (bs @ concat (map (committed_at e vs db scan_end) [n..<k]), word_of_nat k) \<and>
    n \<le> k \<and> k \<le> m \<and> (\<forall>i \<in> {n..<k}. passes e vs db scan_end i) \<and>
    (k < m \<longrightarrow> mx \<le> length (bs @ concat (map (committed_at e vs db scan_end) [n..<k])) \<or> \<not> passes e vs db scan_end k)"
  using assms(2)
proof (induction "m - n" arbitrary: n bs)
  case 0
  then show ?case by (intro exI [of _ n]) simp
next
  case (Suc j)
  then have less: "n < m" by simp
  then have list: "map word_of_nat [n..<m] = word_of_nat n # (map word_of_nat [Suc n..<m] :: u64 list)"
    by (simp add: upt_conv_Cons)
  obtain d where d: "decide_round e vs (frozen_addresses vs) db scan_end (word_of_nat n) = Some d"
    using decide_round_total [OF assms(1)] by blast
  show ?case
  proof (cases "mx \<le> length bs \<or> \<not> passes e vs db scan_end n")
    case True
    then show ?thesis
      using d list less by (intro exI [of _ n]) (cases d; auto simp: passes_def)
  next
    case False
    let ?bs = "bs @ committed_at e vs db scan_end n"
    have step: "commit_scan e vs (frozen_addresses vs) db scan_end mx (map word_of_nat [n..<m]) (bs, word_of_nat n) =
        commit_scan e vs (frozen_addresses vs) db scan_end mx (map word_of_nat [Suc n..<m]) (?bs, word_of_nat (Suc n))"
      using False d list by (cases d) (auto simp: passes_def committed_at_def Let_def add.commute)
    have rest: "j = m - Suc n" "Suc n \<le> m" using Suc.hyps(2) less by simp_all
    obtain k where k: "commit_scan e vs (frozen_addresses vs) db scan_end mx (map word_of_nat [Suc n..<m])
        (?bs, word_of_nat (Suc n)) = Some (?bs @ concat (map (committed_at e vs db scan_end) [Suc n..<k]), word_of_nat k)"
      "Suc n \<le> k" "k \<le> m" "\<forall>i \<in> {Suc n..<k}. passes e vs db scan_end i"
      "k < m \<longrightarrow> mx \<le> length (?bs @ concat (map (committed_at e vs db scan_end) [Suc n..<k])) \<or>
        \<not> passes e vs db scan_end k"
      using Suc.hyps(1) [of "Suc n" ?bs, OF rest] by blast
    have split: "[n..<k] = n # [Suc n..<k]" using k(2) by (simp add: upt_conv_Cons)
    have "\<forall>i \<in> {n..<k}. passes e vs db scan_end i" using k(4) False by (auto simp: le_eq_less_or_eq Suc_le_eq)
    then show ?thesis using k step split by (intro exI [of _ k]) auto
  qed
qed

lemma commit_rounds_spec:
  fixes e :: engine and mx :: nat
  defines "vs \<equiv> ce_frozen_validator_set e" and "n \<equiv> unat (e_last_committed_round e)"
    and "scan_end \<equiv> saturating_sub (e_current_round e) 2" and "db \<equiv> e_consensus_domain e \<noteq> None"
  assumes "valid_set vs"
  obtains k newly where "newly = concat (map (committed_at e vs db scan_end) [n..<k])"
    and "commit_rounds mx e = Some (newly, e\<lparr>e_last_committed_round := word_of_nat k,
      e_committed := append_committed newly (e_committed e)\<rparr>)"
    and "n \<le> k" and "k < 2 ^ 64" and "k \<le> max n (Suc (unat scan_end))" and "\<forall>i \<in> {n..<k}. passes e vs db scan_end i"
    and "k \<le> unat scan_end \<longrightarrow> mx \<le> length newly \<or> \<not> passes e vs db scan_end k"
proof -
  let ?m = "max n (Suc (unat scan_end))"
  have "unat (e_current_round e) - 2 < 2 ^ 64 - 1" using unat_less_64 [of "e_current_round e"] by simp
  then have m: "n \<le> ?m" "?m < 2 ^ 64"
    using unat_less_64 [of "e_last_committed_round e"] by (simp_all add: n_def scan_end_def unat_saturating_sub)
  have range: "round_range (e_last_committed_round e) scan_end = map word_of_nat [n..<?m]"
    by (simp add: round_range_def n_def max_def)
  have start: "e_last_committed_round e = word_of_nat n" by (simp add: n_def)
  obtain k where k: "commit_scan e vs (frozen_addresses vs) db scan_end mx (map word_of_nat [n..<?m]) ([], word_of_nat n) =
      Some (concat (map (committed_at e vs db scan_end) [n..<k]), word_of_nat k)" "n \<le> k" "k \<le> ?m"
    "\<forall>i \<in> {n..<k}. passes e vs db scan_end i"
    "k < ?m \<longrightarrow> mx \<le> length (concat (map (committed_at e vs db scan_end) [n..<k])) \<or> \<not> passes e vs db scan_end k"
    using commit_scan_spec [OF assms(5) m, of e db scan_end mx "[]"] by auto
  show thesis
  proof (rule that [OF refl _ k(2) _ k(3,4)])
    show "commit_rounds mx e = Some (concat (map (committed_at e vs db scan_end) [n..<k]),
        e\<lparr>e_last_committed_round := word_of_nat k, e_committed :=
          append_committed (concat (map (committed_at e vs db scan_end) [n..<k])) (e_committed e)\<rparr>)"
      using k(1) unfolding range [symmetric] start [symmetric]
      by (simp add: commit_rounds_def Let_def vs_def scan_end_def db_def)
    show "k < 2 ^ 64" using k(3) m(2) by (rule le_less_trans)
    show "k \<le> unat scan_end \<longrightarrow> mx \<le> length (concat (map (committed_at e vs db scan_end) [n..<k])) \<or>
        \<not> passes e vs db scan_end k" using k(5) by auto
  qed
qed

lemma committed_is_anchor:
  assumes "valid_set vs" and "decide_round e vs vals db fin r = Some (Commit_Anchor h)" and "vals \<noteq> []"
  shows "h \<in> set (anchors_of e vals r)"
  using assms
proof (cases rule: decide_round_cases)
  case (history r2 d)
  then have "filter (\<lambda>h. causal_history_contains e d h r) (anchors_of e vals r) = [h]"
    by (auto simp: decide_from_history_def split: list.splits)
  then have "h \<in> set (filter (\<lambda>h. causal_history_contains e d h r) (anchors_of e vals r))" by simp
  then show ?thesis by simp
qed auto

lemma committed_at_block:
  assumes "valid_set vs" and "indexed e" and "b \<in> set (committed_at e vs db scan_end n)" and "n < 2 ^ 64"
  shows "unat (b_round b) = n \<and> b_author b = frozen_addresses vs ! (n mod length (frozen_addresses vs)) \<and>
    get_block e (b_hash b) = Some b \<and> b_hash b \<notin> set (e_committed e) \<and>
    decide_round e vs (frozen_addresses vs) db scan_end (word_of_nat n) = Some (Commit_Anchor (b_hash b)) \<and>
    committed_at e vs db scan_end n = [b]"
proof -
  obtain dec where dec: "decide_round e vs (frozen_addresses vs) db scan_end (word_of_nat n) = Some dec"
    using decide_round_total [OF assms(1)] by blast
  obtain h where h: "decide_round e vs (frozen_addresses vs) db scan_end (word_of_nat n) = Some (Commit_Anchor h)"
    "h \<notin> set (e_committed e)" "get_block e h = Some b"
    using assms(3) dec by (cases dec) (auto simp: committed_at_def split: option.splits if_split_asm)
  have ne: "frozen_addresses vs \<noteq> []" using h(1) by (auto simp: decide_round_def)
  have u: "unat (word_of_nat n :: u64) = n" using assms(4) by (simp add: unsigned_of_nat take_bit_nat_eq_self)
  have "h \<in> set (anchors_of e (frozen_addresses vs) (word_of_nat n))"
    by (rule committed_is_anchor [OF assms(1) h(1) ne])
  then have "h \<in> set (blocks_in_round e (word_of_nat n))"
    "b_author b = frozen_addresses vs ! (n mod length (frozen_addresses vs))"
    using h(3) u by (auto simp: anchors_of_iff)
  moreover have "b_hash b = h" "b_round b = word_of_nat n"
    using assms(2) h(3) \<open>h \<in> set (blocks_in_round e (word_of_nat n))\<close> unfolding indexed_def by blast+
  ultimately show ?thesis using h u by (simp add: committed_at_def)
qed

lemma committed_sorted:
  assumes "valid_set vs" and "indexed e" and "m \<le> 2 ^ 64"
  shows "sorted_wrt (\<lambda>b c. b_round b < b_round c) (concat (map (committed_at e vs db scan_end) [n..<m]))"
  using assms(3)
proof (induction m)
  case (Suc m)
  have one: "committed_at e vs db scan_end m = [] \<or> (\<exists>b. committed_at e vs db scan_end m = [b] \<and> unat (b_round b) = m)"
    using committed_at_block [OF assms(1,2), of _ db scan_end m] Suc.prems
    by (cases "committed_at e vs db scan_end m") auto
  moreover have "\<forall>b \<in> set (concat (map (committed_at e vs db scan_end) [n..<m])). unat (b_round b) < m"
    using committed_at_block [OF assms(1,2)] Suc.prems by force
  moreover have "sorted_wrt (\<lambda>b c. b_round b < b_round c) (concat (map (committed_at e vs db scan_end) [n..<m]))"
    using Suc by simp
  ultimately show ?case
    by (cases "n \<le> m") (auto simp del: set_concat simp: sorted_wrt_append word_less_nat_alt)
qed simp

lemma commit_rounds_blocks:
  assumes "valid_set (ce_frozen_validator_set e)" and "indexed e"
  obtains newly c where "commit_rounds mx e = Some (newly, e\<lparr>e_last_committed_round := c,
      e_committed := append_committed newly (e_committed e)\<rparr>)"
    and "e_last_committed_round e \<le> c"
    and "sorted_wrt (\<lambda>b c. b_round b < b_round c) newly"
    and "\<And>b. b \<in> set newly \<Longrightarrow> e_last_committed_round e \<le> b_round b \<and> b_round b < c \<and>
      get_block e (b_hash b) = Some b \<and> b_hash b \<notin> set (e_committed e) \<and>
      b_author b = frozen_addresses (ce_frozen_validator_set e) !
        (unat (b_round b) mod length (frozen_addresses (ce_frozen_validator_set e))) \<and>
      decide_round e (ce_frozen_validator_set e) (frozen_addresses (ce_frozen_validator_set e))
        (e_consensus_domain e \<noteq> None) (saturating_sub (e_current_round e) 2) (b_round b) = Some (Commit_Anchor (b_hash b))"
    and "\<And>r. e_last_committed_round e \<le> r \<Longrightarrow> r < c \<Longrightarrow>
      passes e (ce_frozen_validator_set e) (e_consensus_domain e \<noteq> None) (saturating_sub (e_current_round e) 2) (unat r)"
    and "c \<le> saturating_sub (e_current_round e) 2 \<Longrightarrow> length newly < mx \<Longrightarrow>
      \<not> passes e (ce_frozen_validator_set e) (e_consensus_domain e \<noteq> None) (saturating_sub (e_current_round e) 2) (unat c)"
    and "unat c \<le> max (unat (e_last_committed_round e)) (Suc (unat (saturating_sub (e_current_round e) 2)))"
    and "\<And>r h b. e_last_committed_round e \<le> r \<Longrightarrow> r < c \<Longrightarrow>
      decide_round e (ce_frozen_validator_set e) (frozen_addresses (ce_frozen_validator_set e))
        (e_consensus_domain e \<noteq> None) (saturating_sub (e_current_round e) 2) r = Some (Commit_Anchor h) \<Longrightarrow>
      h \<notin> set (e_committed e) \<Longrightarrow> get_block e h = Some b \<Longrightarrow> b \<in> set newly"
proof -
  let ?vs = "ce_frozen_validator_set e" and ?db = "e_consensus_domain e \<noteq> None" and ?fin = "saturating_sub (e_current_round e) 2"
  obtain k newly where newly: "newly = concat (map (committed_at e ?vs ?db ?fin) [unat (e_last_committed_round e)..<k])"
    and run: "commit_rounds mx e = Some (newly, e\<lparr>e_last_committed_round := word_of_nat k,
      e_committed := append_committed newly (e_committed e)\<rparr>)"
    and k: "unat (e_last_committed_round e) \<le> k" "k < 2 ^ 64"
      "k \<le> max (unat (e_last_committed_round e)) (Suc (unat ?fin))"
    and passed: "\<forall>i \<in> {unat (e_last_committed_round e)..<k}. passes e ?vs ?db ?fin i"
    and stop: "k \<le> unat ?fin \<longrightarrow> mx \<le> length newly \<or> \<not> passes e ?vs ?db ?fin k"
    by (rule commit_rounds_spec [OF assms(1), of mx])
  have u: "unat (word_of_nat k :: u64) = k" using k(2) by (simp add: unsigned_of_nat take_bit_nat_eq_self)
  show thesis
  proof (rule that [OF run])
    show "e_last_committed_round e \<le> word_of_nat k" using k(1) by (simp add: word_le_nat_alt u)
    show "sorted_wrt (\<lambda>b c. b_round b < b_round c) newly"
      unfolding newly by (rule committed_sorted [OF assms]) (use k(2) in simp)
    fix b assume "b \<in> set newly"
    then obtain n where n: "unat (e_last_committed_round e) \<le> n" "n < k" "b \<in> set (committed_at e ?vs ?db ?fin n)"
      unfolding newly by auto
    then have "unat (b_round b) = n" using committed_at_block [OF assms n(3)] k(2) by simp
    then show "e_last_committed_round e \<le> b_round b \<and> b_round b < word_of_nat k \<and>
      get_block e (b_hash b) = Some b \<and> b_hash b \<notin> set (e_committed e) \<and>
      b_author b = frozen_addresses ?vs ! (unat (b_round b) mod length (frozen_addresses ?vs)) \<and>
      decide_round e ?vs (frozen_addresses ?vs) ?db ?fin (b_round b) = Some (Commit_Anchor (b_hash b))"
      using committed_at_block [OF assms n(3)] n k(2) unfolding word_le_nat_alt word_less_nat_alt u by force
  next
    fix r assume "e_last_committed_round e \<le> r" "r < word_of_nat k"
    then show "passes e ?vs ?db ?fin (unat r)" using passed by (simp add: word_le_nat_alt word_less_nat_alt u)
  next
    assume "word_of_nat k \<le> ?fin" "length newly < mx"
    then show "\<not> passes e ?vs ?db ?fin (unat (word_of_nat k :: u64))"
      using stop by (simp add: word_le_nat_alt u)
  next
    show "unat (word_of_nat k :: u64) \<le> max (unat (e_last_committed_round e)) (Suc (unat ?fin))"
      unfolding u by (rule k(3))
  next
    fix r h b assume "e_last_committed_round e \<le> r" "r < word_of_nat k"
      "decide_round e ?vs (frozen_addresses ?vs) ?db ?fin r = Some (Commit_Anchor h)" "h \<notin> set (e_committed e)"
      "get_block e h = Some b"
    then have "b \<in> set (committed_at e ?vs ?db ?fin (unat r))" "unat r \<in> set [unat (e_last_committed_round e)..<k]"
      by (simp_all add: committed_at_def word_le_nat_alt word_less_nat_alt u)
    then show "b \<in> set newly" unfolding newly by auto
  qed
qed

text \<open>C7: one run of the commit rule. On a valid frozen set it returns (no panic), moves the cursor forward, and
  commits the anchors of the rounds it passes in strictly increasing round order: at most one block a
  round, written by the leader of its round, held in the DAG and not committed before. Every passed round
  was decided (committed or skipped); when it stops below the scan end with its limit not reached, the
  next round is not decided.\<close>

theorem commit_rounds_in_order:
  assumes "valid_set (ce_frozen_validator_set e)" and "indexed e"
  shows "\<exists>newly e'. commit_rounds mx e = Some (newly, e') \<and>
    sorted_wrt (\<lambda>b c. b_round b < b_round c) newly \<and>
    e_last_committed_round e \<le> e_last_committed_round e' \<and>
    (\<forall>b \<in> set newly. e_last_committed_round e \<le> b_round b \<and> b_round b < e_last_committed_round e' \<and>
      get_block e (b_hash b) = Some b \<and> b_hash b \<notin> set (e_committed e) \<and>
      b_author b = frozen_addresses (ce_frozen_validator_set e) !
        (unat (b_round b) mod length (frozen_addresses (ce_frozen_validator_set e)))) \<and>
    (\<forall>r. e_last_committed_round e \<le> r \<and> r < e_last_committed_round e' \<longrightarrow>
      passes e (ce_frozen_validator_set e) (e_consensus_domain e \<noteq> None)
        (saturating_sub (e_current_round e) 2) (unat r)) \<and>
    (e_last_committed_round e' \<le> saturating_sub (e_current_round e) 2 \<and> length newly < mx \<longrightarrow>
      \<not> passes e (ce_frozen_validator_set e) (e_consensus_domain e \<noteq> None)
        (saturating_sub (e_current_round e) 2) (unat (e_last_committed_round e')))"
proof -
  obtain newly c where "commit_rounds mx e = Some (newly, e\<lparr>e_last_committed_round := c,
      e_committed := append_committed newly (e_committed e)\<rparr>)" and rest: "e_last_committed_round e \<le> c"
    "sorted_wrt (\<lambda>b c. b_round b < b_round c) newly"
    and "\<forall>b \<in> set newly. e_last_committed_round e \<le> b_round b \<and> b_round b < c \<and>
      get_block e (b_hash b) = Some b \<and> b_hash b \<notin> set (e_committed e) \<and>
      b_author b = frozen_addresses (ce_frozen_validator_set e) !
        (unat (b_round b) mod length (frozen_addresses (ce_frozen_validator_set e)))"
    and "\<forall>r. e_last_committed_round e \<le> r \<and> r < c \<longrightarrow>
      passes e (ce_frozen_validator_set e) (e_consensus_domain e \<noteq> None) (saturating_sub (e_current_round e) 2) (unat r)"
    and "c \<le> saturating_sub (e_current_round e) 2 \<and> length newly < mx \<longrightarrow>
      \<not> passes e (ce_frozen_validator_set e) (e_consensus_domain e \<noteq> None) (saturating_sub (e_current_round e) 2) (unat c)"
    by (rule commit_rounds_blocks [OF assms, of mx]) blast
  then show ?thesis
    by (intro exI [of _ newly] exI [of _ "e\<lparr>e_last_committed_round := c,
      e_committed := append_committed newly (e_committed e)\<rparr>"]) simp
qed

section \<open>Witnesses\<close>

text \<open>A single member, bound to a domain, with one block in each of the rounds 0, 1 and 2.\<close>

definition duty_set :: validator_set where
  "duty_set = solo_set\<lparr>vs_epoch := 1\<rparr>"

lemma duty_set_valid: "valid_set duty_set"
  using solo_set_valid by (simp add: valid_set_def duty_set_def)

definition solo_block :: "hash256 \<Rightarrow> u64 \<Rightarrow> hash256 list \<Rightarrow> dag_block" where
  "solo_block h r ps = \<lparr>b_author = 32, b_round = r, b_parents = ps, b_transactions = [], b_timestamp = 0,
     b_hash = h, b_signature = [], b_ordering = 0\<rparr>"

definition solo_view :: engine where
  "solo_view = (engine_new duty_set 32 None False)
     \<lparr>e_dag := [(1, solo_block 1 0 []), (2, solo_block 2 1 [1]), (3, solo_block 3 2 [2])],
      e_rounds := [(0, [1]), (1, [2]), (2, [3])], e_current_round := 2, e_consensus_domain := Some sample_domain\<rparr>"

lemma solo_lookup:
  "get_block solo_view h = (if h = 1 then Some (solo_block 1 0 []) else if h = 2 then Some (solo_block 2 1 [1])
     else if h = 3 then Some (solo_block 3 2 [2]) else None)"
  "blocks_in_round solo_view r = (if r = 0 then [1] else if r = 1 then [2] else if r = 2 then [3] else [])"
  "is_excused_for_round solo_view r a = False" "ce_frozen_validator_set solo_view = duty_set"
  by (simp_all add: solo_view_def get_block_def blocks_in_round_def is_excused_for_round_def engine_new_def mhas_def)

lemma solo_validator: "get_validator duty_set 32 = Some \<lparr>v_address = 32, v_stake = 50000000, v_tier = Core, v_shard = 0\<rparr>"
  "vs_quorum duty_set = 33333334" "frozen_addresses duty_set = [32]"
  by (simp_all add: duty_set_def solo_set_def get_validator_def frozen_addresses_def)

lemma solo_parents:
  "held_parents solo_view (solo_block 2 1 [1]) = [solo_block 1 0 []]"
  "held_parents solo_view (solo_block 3 2 [2]) = [solo_block 2 1 [1]]"
  by (simp_all add: held_parents_def List.map_filter_simps solo_lookup solo_block_def)

lemma solo_ok:
  "indexed solo_view" "linked duty_set 0 solo_view" "complete duty_set 0 solo_view" "views_agree {} solo_view solo_view"
  "expected_in solo_view duty_set r 32"
proof -
  have q: "has_quorum duty_set [32]"
    by (simp add: has_quorum_iff [OF duty_set_valid] weight_def solo_validator)
  have fields: "b_author (solo_block h n ps) = 32" "b_round (solo_block h n ps) = n" "b_hash (solo_block h n ps) = h"
    "b_parents (solo_block h n ps) = ps" for h n ps by (simp_all add: solo_block_def)
  show "indexed solo_view" by (auto simp: indexed_def solo_lookup fields split: if_splits)
  show "linked duty_set 0 solo_view"
    using q by (auto simp: linked_def solo_lookup fields solo_parents split: if_splits)
  show "complete duty_set 0 solo_view"
    by (auto simp: complete_def solo_lookup fields solo_parents duty_set_def solo_set_def split: if_splits)
  show "views_agree {} solo_view solo_view" by (auto simp: views_agree_def solo_lookup fields split: if_splits)
  show "expected_in solo_view duty_set r 32" by (simp add: expected_in_def solo_lookup) (simp add: duty_set_def solo_set_def)
qed

lemma solo_decides: "decide_round solo_view duty_set [32] True 0 0 = Some (Commit_Anchor 1)"
  by (simp add: decide_round_def anchors_of_def two_round_commit_support_def certifiers_def List.map_filter_simps
      solo_lookup count_member_def solo_validator checked_add_def solo_block_def)

theorem domain_decisions_agree_witness:
  "decide_round solo_view duty_set [32] True 0 0 = Some (Commit_Anchor 1) \<and>
   Commit_Anchor 1 \<in> {Commit_Anchor 1, Undecided, Fenced}"
proof -
  have "Commit_Anchor 1 \<in> {Commit_Anchor 1, Undecided, Fenced}"
    by (rule domain_decisions_agree [where vs = duty_set and F = "{}" and ?e1.0 = solo_view and ?e2.0 = solo_view
        and ?base1.0 = 0 and ?base2.0 = 0 and r = 0 and vals = "[32]" and v = 32 and ?scan_end1.0 = 0 and ?scan_end2.0 = 0,
        OF duty_set_valid solo_ok(4) solo_ok(1) solo_ok(1) solo_ok(2) solo_ok(2) solo_ok(3) solo_ok(3)])
      (simp_all add: solo_validator solo_ok solo_decides)
  then show ?thesis using solo_decides by blast
qed

theorem commit_rounds_in_order_witness:
  "\<exists>newly e'. commit_rounds 5 solo_view = Some (newly, e') \<and> sorted_wrt (\<lambda>b c. b_round b < b_round c) newly \<and>
     e_last_committed_round solo_view \<le> e_last_committed_round e'"
  using commit_rounds_in_order [of solo_view 5] duty_set_valid solo_ok(1) unfolding solo_lookup by blast

end
