(* ===== verification/Arc_Fork.thy ===== *)
theory Arc_Fork
  imports Arc_Safety
begin

text \<open>
  A limit of the commit rule. Five correct validators, no recovery domain, two views of one execution in
  which every block has a quorum of parents and no author has two blocks in a round. The left view
  decides round 0 from the anchor of round 3, which is certified there; the right view, where that
  anchor is not certified yet, decides round 0 from the anchor of round 4, whose history does not hold
  the block of round 0. One view commits the block, the other passes the round without it.
\<close>

section \<open>Two views\<close>

definition fork_set :: validator_set where
  "fork_set = \<lparr>vs_validators = map (\<lambda>(a, s). \<lparr>v_address = a, v_stake = s, v_tier = Arc, v_shard = 0\<rparr>)
       [(1, 5000000), (2, 10000000), (3, 10000000), (4, 5000000), (5, 5000000)],
     vs_total_stake = 35000000, vs_epoch = 1, vs_quorum = 23333334, vs_slashed_total = 0, vs_slash_history = []\<rparr>"

definition fork_block :: "hash256 \<Rightarrow> u64 \<Rightarrow> address \<Rightarrow> hash256 list \<Rightarrow> dag_block" where
  "fork_block h r a ps = \<lparr>b_author = a, b_round = r, b_parents = ps, b_transactions = [], b_timestamp = 0,
     b_hash = h, b_signature = [], b_ordering = 0\<rparr>"

definition fork_common :: "dag_block list" where
  "fork_common =
    [fork_block 1 0 1 [], fork_block 2 0 2 [], fork_block 3 0 3 [], fork_block 4 0 4 [], fork_block 5 0 5 [],
     fork_block 11 1 1 [1, 2, 3], fork_block 12 1 2 [2, 3, 5], fork_block 13 1 3 [2, 3, 5],
     fork_block 14 1 4 [2, 3, 4], fork_block 15 1 5 [2, 3, 5],
     fork_block 21 2 1 [11, 12, 13], fork_block 22 2 2 [12, 13, 15], fork_block 23 2 3 [12, 13, 15],
     fork_block 24 2 4 [12, 13, 14], fork_block 25 2 5 [12, 13, 15],
     fork_block 32 3 2 [22, 23, 25], fork_block 33 3 3 [22, 23, 25], fork_block 34 3 4 [21, 22, 23, 24],
     fork_block 35 3 5 [22, 23, 25],
     fork_block 42 4 2 [32, 33, 35], fork_block 43 4 3 [32, 33, 35], fork_block 44 4 4 [32, 33, 34],
     fork_block 45 4 5 [32, 33, 35],
     fork_block 52 5 2 [42, 43, 44], fork_block 53 5 3 [42, 43, 44]]"

definition fork_view :: "u64 \<Rightarrow> dag_block list \<Rightarrow> engine" where
  "fork_view current blocks = (engine_new fork_set 1 None False)
     \<lparr>e_dag := map (\<lambda>b. (b_hash b, b)) blocks,
      e_rounds := map (\<lambda>r. (r, map b_hash (filter (\<lambda>b. b_round b = r) blocks))) [0, 1, 2, 3, 4, 5, 6],
      e_current_round := current\<rparr>"

definition left_view :: engine where
  "left_view = fork_view 5 (fork_common @ [fork_block 54 5 4 [42, 43, 44]])"

definition right_view :: engine where
  "right_view = fork_view 6 (fork_common @ [fork_block 55 5 5 [42, 43, 45],
     fork_block 62 6 2 [52, 53, 55], fork_block 63 6 3 [52, 53, 55], fork_block 65 6 5 [52, 53, 55]])"

section \<open>Evaluation\<close>

lemma fork_dag:
  "e_dag (fork_view c bs) = map (\<lambda>b. (b_hash b, b)) bs"
  "e_rounds (fork_view c bs) = map (\<lambda>r. (r, map b_hash (filter (\<lambda>b. b_round b = r) bs))) [0, 1, 2, 3, 4, 5, 6]"
  "e_current_round (fork_view c bs) = c" "e_last_committed_round (fork_view c bs) = 0"
  "e_consensus_domain (fork_view c bs) = None" "e_committed (fork_view c bs) = []"
  "ce_frozen_validator_set (fork_view c bs) = fork_set"
  by (simp_all add: fork_view_def engine_new_def)

lemma left_blocks:
  "get_block left_view 1 = Some (fork_block 1 0 1 [])"
  "get_block left_view 2 = Some (fork_block 2 0 2 [])"
  "get_block left_view 3 = Some (fork_block 3 0 3 [])"
  "get_block left_view 4 = Some (fork_block 4 0 4 [])"
  "get_block left_view 5 = Some (fork_block 5 0 5 [])"
  "get_block left_view 11 = Some (fork_block 11 1 1 [1, 2, 3])"
  "get_block left_view 12 = Some (fork_block 12 1 2 [2, 3, 5])"
  "get_block left_view 13 = Some (fork_block 13 1 3 [2, 3, 5])"
  "get_block left_view 14 = Some (fork_block 14 1 4 [2, 3, 4])"
  "get_block left_view 15 = Some (fork_block 15 1 5 [2, 3, 5])"
  "get_block left_view 21 = Some (fork_block 21 2 1 [11, 12, 13])"
  "get_block left_view 22 = Some (fork_block 22 2 2 [12, 13, 15])"
  "get_block left_view 23 = Some (fork_block 23 2 3 [12, 13, 15])"
  "get_block left_view 24 = Some (fork_block 24 2 4 [12, 13, 14])"
  "get_block left_view 25 = Some (fork_block 25 2 5 [12, 13, 15])"
  "get_block left_view 32 = Some (fork_block 32 3 2 [22, 23, 25])"
  "get_block left_view 33 = Some (fork_block 33 3 3 [22, 23, 25])"
  "get_block left_view 34 = Some (fork_block 34 3 4 [21, 22, 23, 24])"
  "get_block left_view 35 = Some (fork_block 35 3 5 [22, 23, 25])"
  "get_block left_view 42 = Some (fork_block 42 4 2 [32, 33, 35])"
  "get_block left_view 43 = Some (fork_block 43 4 3 [32, 33, 35])"
  "get_block left_view 44 = Some (fork_block 44 4 4 [32, 33, 34])"
  "get_block left_view 45 = Some (fork_block 45 4 5 [32, 33, 35])"
  "get_block left_view 52 = Some (fork_block 52 5 2 [42, 43, 44])"
  "get_block left_view 53 = Some (fork_block 53 5 3 [42, 43, 44])"
  "get_block left_view 54 = Some (fork_block 54 5 4 [42, 43, 44])"
  by (simp_all add: get_block_def left_view_def fork_dag fork_common_def fork_block_def)

lemma right_blocks:
  "get_block right_view 1 = Some (fork_block 1 0 1 [])"
  "get_block right_view 2 = Some (fork_block 2 0 2 [])"
  "get_block right_view 3 = Some (fork_block 3 0 3 [])"
  "get_block right_view 4 = Some (fork_block 4 0 4 [])"
  "get_block right_view 5 = Some (fork_block 5 0 5 [])"
  "get_block right_view 11 = Some (fork_block 11 1 1 [1, 2, 3])"
  "get_block right_view 12 = Some (fork_block 12 1 2 [2, 3, 5])"
  "get_block right_view 13 = Some (fork_block 13 1 3 [2, 3, 5])"
  "get_block right_view 14 = Some (fork_block 14 1 4 [2, 3, 4])"
  "get_block right_view 15 = Some (fork_block 15 1 5 [2, 3, 5])"
  "get_block right_view 21 = Some (fork_block 21 2 1 [11, 12, 13])"
  "get_block right_view 22 = Some (fork_block 22 2 2 [12, 13, 15])"
  "get_block right_view 23 = Some (fork_block 23 2 3 [12, 13, 15])"
  "get_block right_view 24 = Some (fork_block 24 2 4 [12, 13, 14])"
  "get_block right_view 25 = Some (fork_block 25 2 5 [12, 13, 15])"
  "get_block right_view 32 = Some (fork_block 32 3 2 [22, 23, 25])"
  "get_block right_view 33 = Some (fork_block 33 3 3 [22, 23, 25])"
  "get_block right_view 34 = Some (fork_block 34 3 4 [21, 22, 23, 24])"
  "get_block right_view 35 = Some (fork_block 35 3 5 [22, 23, 25])"
  "get_block right_view 42 = Some (fork_block 42 4 2 [32, 33, 35])"
  "get_block right_view 43 = Some (fork_block 43 4 3 [32, 33, 35])"
  "get_block right_view 44 = Some (fork_block 44 4 4 [32, 33, 34])"
  "get_block right_view 45 = Some (fork_block 45 4 5 [32, 33, 35])"
  "get_block right_view 52 = Some (fork_block 52 5 2 [42, 43, 44])"
  "get_block right_view 53 = Some (fork_block 53 5 3 [42, 43, 44])"
  "get_block right_view 55 = Some (fork_block 55 5 5 [42, 43, 45])"
  "get_block right_view 62 = Some (fork_block 62 6 2 [52, 53, 55])"
  "get_block right_view 63 = Some (fork_block 63 6 3 [52, 53, 55])"
  "get_block right_view 65 = Some (fork_block 65 6 5 [52, 53, 55])"
  by (simp_all add: get_block_def right_view_def fork_dag fork_common_def fork_block_def)

lemma left_rounds:
  "blocks_in_round left_view 0 = [1, 2, 3, 4, 5]"
  "blocks_in_round left_view 1 = [11, 12, 13, 14, 15]"
  "blocks_in_round left_view 2 = [21, 22, 23, 24, 25]"
  "blocks_in_round left_view 3 = [32, 33, 34, 35]"
  "blocks_in_round left_view 4 = [42, 43, 44, 45]"
  "blocks_in_round left_view 5 = [52, 53, 54]"
  "blocks_in_round left_view 6 = []"
  "blocks_in_round left_view 7 = []"
  by (simp_all add: blocks_in_round_def left_view_def fork_dag fork_common_def fork_block_def)

lemma right_rounds:
  "blocks_in_round right_view 0 = [1, 2, 3, 4, 5]"
  "blocks_in_round right_view 1 = [11, 12, 13, 14, 15]"
  "blocks_in_round right_view 2 = [21, 22, 23, 24, 25]"
  "blocks_in_round right_view 3 = [32, 33, 34, 35]"
  "blocks_in_round right_view 4 = [42, 43, 44, 45]"
  "blocks_in_round right_view 5 = [52, 53, 55]"
  "blocks_in_round right_view 6 = [62, 63, 65]"
  "blocks_in_round right_view 7 = []"
  by (simp_all add: blocks_in_round_def right_view_def fork_dag fork_common_def fork_block_def)

lemma fork_validators:
  "get_validator fork_set 1 = Some \<lparr>v_address = 1, v_stake = 5000000, v_tier = Arc, v_shard = 0\<rparr>"
  "get_validator fork_set 2 = Some \<lparr>v_address = 2, v_stake = 10000000, v_tier = Arc, v_shard = 0\<rparr>"
  "get_validator fork_set 3 = Some \<lparr>v_address = 3, v_stake = 10000000, v_tier = Arc, v_shard = 0\<rparr>"
  "get_validator fork_set 4 = Some \<lparr>v_address = 4, v_stake = 5000000, v_tier = Arc, v_shard = 0\<rparr>"
  "get_validator fork_set 5 = Some \<lparr>v_address = 5, v_stake = 5000000, v_tier = Arc, v_shard = 0\<rparr>"
  "vs_quorum fork_set = 23333334"
  by (simp_all add: fork_set_def get_validator_def)

lemma fork_set_valid: "valid_set fork_set"
  by (simp add: fork_set_def valid_set_def checked_validator_total_stake_def from_stake_def checked_add_def
      STAKE_CORE_def STAKE_ARC_def strict_supermajority_threshold_def)

lemma fork_addresses: "frozen_addresses fork_set = [1, 2, 3, 4, 5]" "vs_epoch fork_set \<noteq> 0"
  by (simp_all add: frozen_addresses_def fork_set_def)

lemmas fork_eval = anchors_of_def Let_def two_round_commit_support_def certifiers_def List.map_filter_simps
  count_member_def fork_validators checked_add_def fork_block_def decide_round_def round_range_def
  decide_from_history_def causal_history_contains_def history_search.simps

lemma left_decides:
  "decide_round left_view fork_set [1, 2, 3, 4, 5] False 3 0 = Some (Commit_Anchor 1)"
  "decide_round left_view fork_set [1, 2, 3, 4, 5] False 3 1 = Some (Commit_Anchor 12)"
  "decide_round left_view fork_set [1, 2, 3, 4, 5] False 3 2 = Some (Commit_Anchor 23)"
  "decide_round left_view fork_set [1, 2, 3, 4, 5] False 3 3 = Some (Commit_Anchor 34)"
  by (simp_all add: fork_eval left_rounds left_blocks)

lemma right_decides:
  "decide_round right_view fork_set [1, 2, 3, 4, 5] False 4 0 = Some Skip_Round"
  "decide_round right_view fork_set [1, 2, 3, 4, 5] False 4 1 = Some (Commit_Anchor 12)"
  "decide_round right_view fork_set [1, 2, 3, 4, 5] False 4 2 = Some (Commit_Anchor 23)"
  "decide_round right_view fork_set [1, 2, 3, 4, 5] False 4 3 = Some Undecided"
  by (simp_all add: fork_eval right_rounds right_blocks)

lemma fork_rounds:
  "round_range 0 3 = [0, 1, 2, 3]" "round_range 0 4 = [0, 1, 2, 3, 4]"
  by (simp_all add: round_range_def upt_rec)

lemma left_scan:
  "commit_scan left_view fork_set [1, 2, 3, 4, 5] False 3 (2 ^ 64 - 1) [0, 1, 2, 3] ([], 0) =
     Some ([fork_block 1 0 1 [], fork_block 12 1 2 [2, 3, 5], fork_block 23 2 3 [12, 13, 15],
            fork_block 34 3 4 [21, 22, 23, 24]], 4)"
  by (simp add: left_decides left_blocks Let_def) (simp add: left_view_def fork_dag)

lemma right_scan:
  "commit_scan right_view fork_set [1, 2, 3, 4, 5] False 4 (2 ^ 64 - 1) [0, 1, 2, 3, 4] ([], 0) =
     Some ([fork_block 12 1 2 [2, 3, 5], fork_block 23 2 3 [12, 13, 15]], 3)"
  by (simp add: right_decides right_blocks Let_def) (simp add: right_view_def fork_dag)

lemma left_fields:
  "ce_frozen_validator_set left_view = fork_set" "e_current_round left_view = 5"
  "e_last_committed_round left_view = 0" "e_consensus_domain left_view = None" "e_committed left_view = []"
  by (simp_all add: left_view_def fork_dag)

lemma right_fields:
  "ce_frozen_validator_set right_view = fork_set" "e_current_round right_view = 6"
  "e_last_committed_round right_view = 0" "e_consensus_domain right_view = None" "e_committed right_view = []"
  by (simp_all add: right_view_def fork_dag)

lemma fork_try_commit:
  assumes "commit_rounds (2 ^ 64 - 1) e = Some (newly, e1)" "ce_frozen_validator_set e = fork_set"
    "2 \<le> e_current_round e" "max_round_of newly mod 100 \<noteq> 0"
  shows "\<exists>e'. try_commit cr now_ms e = Some (newly, e') \<and> e_last_committed_round e' = e_last_committed_round e1"
  using assms
  by (auto simp: try_commit_def try_commit_limited_def fork_addresses maintain_live_state_def Let_def frame not_less)

lemma left_commit_rounds:
  "\<exists>e. commit_rounds (2 ^ 64 - 1) left_view =
     Some ([fork_block 1 0 1 [], fork_block 12 1 2 [2, 3, 5], fork_block 23 2 3 [12, 13, 15],
            fork_block 34 3 4 [21, 22, 23, 24]], e) \<and> e_last_committed_round e = 4"
  using left_scan by (simp add: commit_rounds_def Let_def left_fields fork_addresses saturating_sub_def fork_rounds
      del: commit_scan.simps)

lemma right_commit_rounds:
  "\<exists>e. commit_rounds (2 ^ 64 - 1) right_view =
     Some ([fork_block 12 1 2 [2, 3, 5], fork_block 23 2 3 [12, 13, 15]], e) \<and> e_last_committed_round e = 3"
  using right_scan by (simp add: commit_rounds_def Let_def right_fields fork_addresses saturating_sub_def fork_rounds
      del: commit_scan.simps)

lemma left_commits:
  "\<exists>e. try_commit cr now_ms left_view =
     Some ([fork_block 1 0 1 [], fork_block 12 1 2 [2, 3, 5], fork_block 23 2 3 [12, 13, 15],
            fork_block 34 3 4 [21, 22, 23, 24]], e) \<and> e_last_committed_round e = 4"
  using left_commit_rounds fork_try_commit [of left_view]
  by (fastforce simp: left_fields max_round_of_def fork_block_def)

lemma right_commits:
  "\<exists>e. try_commit cr now_ms right_view =
     Some ([fork_block 12 1 2 [2, 3, 5], fork_block 23 2 3 [12, 13, 15]], e) \<and> e_last_committed_round e = 3"
  using right_commit_rounds fork_try_commit [of right_view]
  by (fastforce simp: right_fields max_round_of_def fork_block_def)

section \<open>The views are those of correct validators\<close>

definition fork_all :: "dag_block list" where
  "fork_all = fork_common @ [fork_block 54 5 4 [42, 43, 44], fork_block 55 5 5 [42, 43, 45],
     fork_block 62 6 2 [52, 53, 55], fork_block 63 6 3 [52, 53, 55], fork_block 65 6 5 [52, 53, 55]]"

lemma fork_all_distinct:
  "distinct (map b_hash fork_all)" "distinct (map (\<lambda>b. (b_author b, b_round b)) fork_all)"
  "\<forall>b \<in> set fork_all. b_round b \<in> {0, 1, 2, 3, 4, 5, 6}"
  by (simp_all add: fork_all_def fork_common_def fork_block_def)

lemma fork_get_block:
  assumes "set bs \<subseteq> set fork_all" "distinct (map b_hash bs)"
  shows "get_block (fork_view c bs) h = Some b \<longleftrightarrow> b \<in> set bs \<and> b_hash b = h"
  using assms(2) by (simp add: get_block_def fork_dag comp_def image_iff) auto

lemma fork_views_agree:
  assumes "set bs \<subseteq> set fork_all" "distinct (map b_hash bs)" "set bs' \<subseteq> set fork_all" "distinct (map b_hash bs')"
  shows "views_agree {} (fork_view c bs) (fork_view c' bs')"
proof -
  have hash: "inj_on b_hash (set fork_all)" and slot: "inj_on (\<lambda>b. (b_author b, b_round b)) (set fork_all)"
    using fork_all_distinct(1,2) by (simp_all only: distinct_map)
  have "b1 = b2" if "b1 \<in> set bs" "b2 \<in> set bs'" "b_hash b1 = b_hash b2" for b1 b2
    using inj_onD [OF hash that(3)] that(1,2) assms(1,3) by blast
  moreover have "b_hash b1 = b_hash b2"
    if "b1 \<in> set bs" "b2 \<in> set bs'" "b_author b1 = b_author b2" "b_round b1 = b_round b2" for b1 b2
    using inj_onD [OF slot, of b1 b2] that assms(1,3) by auto
  ultimately show ?thesis
    unfolding views_agree_def fork_get_block [OF assms(1,2)] fork_get_block [OF assms(3,4)] by (simp, metis)
qed

lemma fork_indexed:
  assumes "set bs \<subseteq> set fork_all" "distinct (map b_hash bs)"
  shows "indexed (fork_view c bs)"
proof -
  define R :: "u64 list" where "R = [0, 1, 2, 3, 4, 5, 6]"
  have rnd: "h \<in> set (blocks_in_round (fork_view c bs) r) \<longleftrightarrow>
      r \<in> set R \<and> (\<exists>b \<in> set bs. b_round b = r \<and> b_hash b = h)" for h r
    unfolding blocks_in_round_def fork_dag R_def [symmetric] map_of_map_restrict by (auto simp: restrict_map_def)
  have inj: "b1 = b2" if "b1 \<in> set bs" "b2 \<in> set bs" "b_hash b1 = b_hash b2" for b1 b2
    using that assms(2) by (auto simp: distinct_map inj_on_def)
  have known: "b_round b \<in> set R" if "b \<in> set bs" for b
    using bspec [OF fork_all_distinct(3), of b] subsetD [OF assms(1) that] by (simp add: R_def)
  show ?thesis unfolding indexed_def fork_get_block [OF assms] rnd
    by (intro conjI allI impI; elim conjE bexE) (simp_all add: known, blast, metis inj)
qed

lemma views_sub:
  "set (fork_common @ [fork_block 54 5 4 [42, 43, 44]]) \<subseteq> set fork_all"
  "set (fork_common @ [fork_block 55 5 5 [42, 43, 45], fork_block 62 6 2 [52, 53, 55],
     fork_block 63 6 3 [52, 53, 55], fork_block 65 6 5 [52, 53, 55]]) \<subseteq> set fork_all"
  by (auto simp: fork_all_def)

lemma views_distinct:
  "distinct (map b_hash (fork_common @ [fork_block 54 5 4 [42, 43, 44]]))"
  "distinct (map b_hash (fork_common @ [fork_block 55 5 5 [42, 43, 45], fork_block 62 6 2 [52, 53, 55],
     fork_block 63 6 3 [52, 53, 55], fork_block 65 6 5 [52, 53, 55]]))"
  by (simp_all add: fork_common_def fork_block_def)

lemma views_indexed: "indexed left_view" "indexed right_view"
  unfolding left_view_def right_view_def by (rule fork_indexed [OF views_sub(1) views_distinct(1)],
    rule fork_indexed [OF views_sub(2) views_distinct(2)])

lemma views_agreement:
  "views_agree {} left_view left_view" "views_agree {} right_view right_view" "views_agree {} left_view right_view"
  unfolding left_view_def right_view_def
  by (rule fork_views_agree; rule views_sub views_distinct)+

lemma linked_by_blocks:
  assumes "\<And>h b. get_block e h = Some b \<Longrightarrow> b \<in> set bs"
    and "list_all (\<lambda>b. b_round b = 0 \<or>
      list_all (\<lambda>p. case get_block e p of None \<Rightarrow> False | Some pb \<Rightarrow> unat (b_round pb) + 1 = unat (b_round b))
        (b_parents b) \<and> has_quorum vs (map b_author (held_parents e b))) bs"
  shows "linked vs 0 e"
  unfolding linked_def
proof (intro allI impI)
  fix h b
  assume "get_block e h = Some b" "0 < unat (b_round b)"
  then have "b \<in> set bs" "b_round b \<noteq> 0" using assms(1) by auto
  then show "(\<forall>p \<in> set (b_parents b). \<exists>pb. get_block e p = Some pb \<and> unat (b_round pb) + 1 = unat (b_round b)) \<and>
      has_quorum vs (map b_author (held_parents e b))"
    using assms(2) by (fastforce simp: list_all_iff split: option.splits)
qed

lemmas fork_link = fork_common_def fork_block_def held_parents_def List.map_filter_simps has_quorum_def
  stake_for_addresses_def fork_validators checked_add_def

lemma left_linked: "linked fork_set 0 left_view"
proof (rule linked_by_blocks [of _ "fork_common @ [fork_block 54 5 4 [42, 43, 44]]"])
  show "b \<in> set (fork_common @ [fork_block 54 5 4 [42, 43, 44]])" if "get_block left_view h = Some b" for h b
    using that unfolding left_view_def fork_get_block [OF views_sub(1) views_distinct(1)] by blast
qed (simp add: fork_link left_blocks)

lemma right_linked: "linked fork_set 0 right_view"
proof (rule linked_by_blocks [of _ "fork_common @ [fork_block 55 5 5 [42, 43, 45], fork_block 62 6 2 [52, 53, 55],
     fork_block 63 6 3 [52, 53, 55], fork_block 65 6 5 [52, 53, 55]]"])
  show "b \<in> set (fork_common @ [fork_block 55 5 5 [42, 43, 45], fork_block 62 6 2 [52, 53, 55],
     fork_block 63 6 3 [52, 53, 55], fork_block 65 6 5 [52, 53, 55]])" if "get_block right_view h = Some b" for h b
    using that unfolding right_view_def fork_get_block [OF views_sub(2) views_distinct(2)] by blast
qed (simp add: fork_link right_blocks)

section \<open>The fork and the guarantee\<close>

text \<open>C6: The commit rule can fork with no faulty validator. There are two views of one execution of five
  correct validators, outside a recovery domain: every hash names one block and no author has two blocks
  in a round, across both views; every block's parents are held, one round below it, and come from a
  quorum. \<open>try_commit\<close> on the first commits the block of round 0; on the second it moves its cursor past
  round 0 without that block, and the cursor never comes back.\<close>

theorem commit_rule_can_fork:
  "\<exists>vs e1 e2 cs1 cs2 e1' e2' b.
     valid_set vs \<and> ce_frozen_validator_set e1 = vs \<and> ce_frozen_validator_set e2 = vs \<and>
     indexed e1 \<and> indexed e2 \<and> linked vs 0 e1 \<and> linked vs 0 e2 \<and>
     views_agree {} e1 e1 \<and> views_agree {} e2 e2 \<and> views_agree {} e1 e2 \<and>
     e_committed e2 = [] \<and>
     try_commit cr now_ms e1 = Some (cs1, e1') \<and> try_commit cr now_ms e2 = Some (cs2, e2') \<and>
     b \<in> set cs1 \<and> b \<notin> set cs2 \<and>
     b_round b < e_last_committed_round e1' \<and> b_round b < e_last_committed_round e2'"
proof -
  obtain e1' e2' where
    "try_commit cr now_ms left_view = Some ([fork_block 1 0 1 [], fork_block 12 1 2 [2, 3, 5],
       fork_block 23 2 3 [12, 13, 15], fork_block 34 3 4 [21, 22, 23, 24]], e1')" "e_last_committed_round e1' = 4"
    "try_commit cr now_ms right_view = Some ([fork_block 12 1 2 [2, 3, 5], fork_block 23 2 3 [12, 13, 15]], e2')"
    "e_last_committed_round e2' = 3"
    using left_commits right_commits by blast
  then show ?thesis
    using fork_set_valid left_fields(1) right_fields(1,5) views_indexed left_linked right_linked views_agreement
    by (intro exI [of _ fork_set] exI [of _ left_view] exI [of _ right_view] exI [of _ e1'] exI [of _ e2']
        exI [of _ "[fork_block 1 0 1 [], fork_block 12 1 2 [2, 3, 5],
          fork_block 23 2 3 [12, 13, 15], fork_block 34 3 4 [21, 22, 23, 24]]"]
        exI [of _ "[fork_block 12 1 2 [2, 3, 5], fork_block 23 2 3 [12, 13, 15]]"]
        exI [of _ "fork_block 1 0 1 []"]) (simp add: fork_block_def)
qed

theorem certified_round_never_skipped_witness:
  "decide_round right_view fork_set [1, 2, 3, 4, 5] False 4 1 = Some (Commit_Anchor 12) \<and>
   Commit_Anchor 12 \<in> {Commit_Anchor 12, Undecided, Fenced}"
proof -
  have "Commit_Anchor 12 \<in> {Commit_Anchor 12, Undecided, Fenced}"
    by (rule certified_round_never_skipped [where vs = fork_set and F = "{}" and ?e1.0 = left_view and
        ?e2.0 = right_view and base = 0 and r = 1 and vals = "[1, 2, 3, 4, 5]" and s = 30000000 and db = False
        and scan_end = 4, OF fork_set_valid _ _ views_agreement(3) views_indexed right_linked])
      (simp_all add: fork_addresses right_decides, simp_all add: fork_eval left_rounds left_blocks)
  then show ?thesis using right_decides(2) by blast
qed

end
