(* ===== verification/Arc_Node.thy ===== *)
theory Arc_Node
  imports Arc_Agreement
begin

text \<open>
  The invariants of a node and the handlers that keep them. \<open>node_ok\<close> is the invariant of a node bound to a
  recovery domain: its index is exact and every retained block above the commit cursor has its parents from
  a quorum and from every member that is not excused. \<open>all_received\<close> is an invariant of the withholding
  detector of any node. The runs built from the handlers are in \<open>Arc_Runs\<close>.
\<close>

section \<open>The invariant of a node in a recovery domain\<close>

definition node_base :: "engine \<Rightarrow> nat" where
  "node_base e = max (unat (e_last_committed_round e))
     (case e_recovery_bootstrap_round e of None \<Rightarrow> 0 | Some r \<Rightarrow> unat r)"

text \<open>Every listed hash has its block.\<close>

definition populated :: "engine \<Rightarrow> bool" where
  "populated e \<longleftrightarrow> (\<forall>r. \<forall>h \<in> set (blocks_in_round e r). get_block e h \<noteq> None)"

definition node_ok :: "validator_set \<Rightarrow> engine \<Rightarrow> bool" where
  "node_ok vs e \<longleftrightarrow> valid_set vs \<and> ce_validator_set e = vs \<and> ce_frozen_validator_set e = vs \<and>
     e_consensus_domain e \<noteq> None \<and> \<not> e_local_recovery_replay_active e \<and>
     indexed e \<and> populated e \<and> linked vs (node_base e) e \<and> complete vs (node_base e) e"

text \<open>The fields the invariant reads.\<close>

definition node_core where
  "node_core e = (ce_validator_set e, ce_frozen_validator_set e, e_consensus_domain e,
     e_local_recovery_replay_active e, e_dag e, e_rounds e, e_last_committed_round e,
     e_recovery_bootstrap_round e, e_skip_certificates e)"

lemma node_ok_cong: "node_core e = node_core e' \<Longrightarrow> node_ok vs e \<longleftrightarrow> node_ok vs e'"
proof -
  assume core: "node_core e = node_core e'"
  then have "get_block e = get_block e'" "blocks_in_round e = blocks_in_round e'" "node_base e = node_base e'"
    "is_excused_for_round e = is_excused_for_round e'"
    by (auto simp: node_core_def get_block_def blocks_in_round_def node_base_def is_excused_for_round_def fun_eq_iff)
  then show ?thesis
    using core by (simp add: node_ok_def indexed_def populated_def linked_def complete_def held_parents_def) (simp add: node_core_def)
qed

lemma insert_lookup:
  "get_block (insert_block_into_dag b e) h = (if h = b_hash b then Some b else get_block e h)"
  "blocks_in_round (insert_block_into_dag b e) r =
     (if r = b_round b then blocks_in_round e r @ [b_hash b] else blocks_in_round e r)"
  "is_excused_for_round (insert_block_into_dag b e) = is_excused_for_round e"
  "node_base (insert_block_into_dag b e) = node_base e"
  by (auto simp: insert_block_into_dag_def get_block_def blocks_in_round_def store_simps
      is_excused_for_round_def node_base_def fun_eq_iff split: option.splits)

lemma held_parents_cong:
  "\<forall>p \<in> set (b_parents b). get_block e p = get_block e' p \<Longrightarrow> held_parents e b = held_parents e' b"
proof -
  assume "\<forall>p \<in> set (b_parents b). get_block e p = get_block e' p"
  then have "List.map_filter (get_block e) (b_parents b) = List.map_filter (get_block e') (b_parents b)"
    by (induction "b_parents b" arbitrary: b rule: list.induct) (auto simp: List.map_filter_def cong: filter_cong)
  then show ?thesis by (simp add: held_parents_def)
qed

text \<open>What the acceptance test asks of a block above the base.\<close>

definition supported :: "validator_set \<Rightarrow> engine \<Rightarrow> dag_block \<Rightarrow> bool" where
  "supported vs e b \<longleftrightarrow>
     (\<forall>p \<in> set (b_parents b). \<exists>pb. get_block e p = Some pb \<and> unat (b_round pb) + 1 = unat (b_round b)) \<and>
     has_quorum vs (map b_author (held_parents e b)) \<and>
     (\<forall>v \<in> set (vs_validators vs). v_stake v > 0 \<longrightarrow>
       v_address v \<in> b_author ` set (held_parents e b) \<or> is_excused_for_round e (b_round b - 1) (v_address v))"

lemma node_ok_iff:
  "node_ok vs e \<longleftrightarrow> valid_set vs \<and> ce_validator_set e = vs \<and> ce_frozen_validator_set e = vs \<and>
     e_consensus_domain e \<noteq> None \<and> \<not> e_local_recovery_replay_active e \<and> indexed e \<and> populated e \<and>
     (\<forall>h b. get_block e h = Some b \<longrightarrow> node_base e < unat (b_round b) \<longrightarrow> supported vs e b)"
  unfolding node_ok_def linked_def complete_def supported_def by blast

lemma supported_cong:
  assumes "supported vs e b"
    and "\<And>p pb. get_block e p = Some pb \<Longrightarrow> unat (b_round pb) + 1 = unat (b_round b) \<Longrightarrow> get_block e' p = Some pb"
    and "\<And>a. is_excused_for_round e (b_round b - 1) a \<Longrightarrow> is_excused_for_round e' (b_round b - 1) a"
  shows "supported vs e' b"
proof -
  have same: "\<forall>p \<in> set (b_parents b). get_block e p = get_block e' p"
    using assms(1,2) unfolding supported_def by metis
  show ?thesis
    using assms(1,3) same unfolding supported_def held_parents_cong [OF same] by (auto; metis)
qed

lemma indexed_insert:
  assumes "indexed e" and "populated e" and "get_block e (b_hash b) = None"
  shows "indexed (insert_block_into_dag b e)" and "populated (insert_block_into_dag b e)"
proof -
  have new: "b_hash b \<notin> set (blocks_in_round e r)" for r
    using assms(2,3) unfolding populated_def by blast
  show "indexed (insert_block_into_dag b e)"
    using assms(1) new unfolding indexed_def insert_lookup by (auto split: if_splits) metis
  show "populated (insert_block_into_dag b e)"
    using assms(2) unfolding populated_def insert_lookup by auto
qed

lemma insert_ok:
  assumes ok: "node_ok vs e" and fresh: "get_block e (b_hash b) = None"
    and new: "node_base e < unat (b_round b) \<Longrightarrow> supported vs e b"
  shows "node_ok vs (insert_block_into_dag b e)"
proof -
  have keep: "supported vs (insert_block_into_dag b e) x" if "supported vs e x" for x
    by (rule supported_cong [OF that]) (use fresh in \<open>auto simp: insert_lookup\<close>)
  have fields: "ce_validator_set (insert_block_into_dag b e) = ce_validator_set e"
    "ce_frozen_validator_set (insert_block_into_dag b e) = ce_frozen_validator_set e"
    "e_consensus_domain (insert_block_into_dag b e) = e_consensus_domain e"
    "e_local_recovery_replay_active (insert_block_into_dag b e) = e_local_recovery_replay_active e"
    by (simp_all add: insert_block_into_dag_def)
  show ?thesis
    using ok new keep indexed_insert [OF _ _ fresh] unfolding node_ok_iff fields insert_lookup by (auto split: if_splits)
qed

section \<open>Handlers keep the invariant\<close>

lemma not_exempt:
  assumes "node_ok vs e" and "node_base e < unat (b_round b)"
  shows "\<not> exempt_round e False (b_round b)" and "b_round b \<noteq> 0"
  using assms by (auto simp: exempt_round_def node_ok_def node_base_def is_recovery_bootstrap_round_def)

lemma unat_pred:
  fixes r q :: u64
  assumes "q = r - 1" and "r \<noteq> 0"
  shows "unat q + 1 = unat r" and "saturating_sub r 1 = q"
proof -
  have "1 \<le> unat r" using assms(2) by (simp add: Suc_le_eq unat_gt_0)
  then show "unat q + 1 = unat r" "saturating_sub r 1 = q"
    using assms by (simp_all add: unat_sub word_le_nat_alt saturating_sub_def)
qed

lemma accepted_supported:
  assumes ok: "node_ok vs e" and above: "node_base e < unat (b_round b)"
    and parents: "check_parents e False b = Some (Inr ())"
  shows "supported vs e b"
proof -
  have vs: "valid_set vs" "ce_validator_set e = vs" and dom: "e_consensus_domain e \<noteq> None"
    using ok by (auto simp: node_ok_def)
  note ne = not_exempt [OF ok above]
  note acc = accepted_parents [of e False b, unfolded vs(2), OF vs(1) ne(1) parents]
  have "participates e vs (b_round b - 1) (b_author ` set (held_parents e b) \<inter> members vs)"
    using parents check_parents_valid [of e False b, unfolded vs(2), OF vs(1) ne(1)] unat_pred(2) [OF refl ne(2)]
    by (auto simp: Let_def guard_def split: if_splits)
  then have "\<forall>v \<in> set (vs_validators vs). v_stake v > 0 \<longrightarrow>
      v_address v \<in> b_author ` set (held_parents e b) \<or> is_excused_for_round e (b_round b - 1) (v_address v)"
    using dom unfolding participates_def by blast
  moreover have "\<forall>p \<in> set (b_parents b). \<exists>pb. get_block e p = Some pb \<and> unat (b_round pb) + 1 = unat (b_round b)"
    using acc(1) unat_pred(1) [OF _ ne(2)] by blast
  ultimately show ?thesis using acc(2) unfolding supported_def by blast
qed

lemma node_core_security: "node_core (prune_security_history r e) = node_core e"
  by (simp add: prune_security_history_def node_core_def split: option.splits)

lemma node_core_track: "node_core (track_received b e) = node_core e"
  by (simp add: track_received_def Let_def node_core_def)

lemma node_core_insert: "node_core e = node_core e' \<Longrightarrow> node_core (insert_block_into_dag b e) = node_core (insert_block_into_dag b e')"
  by (simp add: insert_block_into_dag_def node_core_def)

lemma note_author_domain:
  assumes "e_consensus_domain e \<noteq> None" and "note_author_round cr b e = Some e1"
  shows "node_core e1 = node_core e"
  using assms by (auto simp: note_author_round_def node_core_def split: option.splits)

text \<open>Outside a domain an equivocation is slashed: the live set changes, the rest of the node does not.\<close>

lemma note_author_eq:
  assumes "note_author_round cr b e = Some e1"
  obtains vs ar where "e1 = e\<lparr>ce_validator_set := vs, e_author_round_blocks := ar\<rparr>"
    and "\<forall>k. mhas (e_author_round_blocks e) k \<longrightarrow> mhas ar k"
proof (cases "detect_equivocation b e")
  case None
  then have "e1 = e\<lparr>ce_validator_set := ce_validator_set e, e_author_round_blocks :=
      mor_insert (b_author b, b_round b) (b_hash b) (e_author_round_blocks e)\<rparr>"
    using assms by (simp add: note_author_round_def)
  then show ?thesis by (rule that) (auto simp: mor_insert_def mhas_mput)
next
  case (Some q)
  then have "e1 = e\<lparr>ce_validator_set := ce_validator_set e\<rparr> \<or> (\<exists>vs. e1 = e\<lparr>ce_validator_set := vs\<rparr>)"
    using assms by (auto simp: note_author_round_def report_and_slash_def split: if_splits sum.splits)
  then obtain vs where "e1 = e\<lparr>ce_validator_set := vs\<rparr>" by blast
  then show ?thesis by (intro that [of "e_author_round_blocks e" vs]) simp_all
qed

lemma receive_eq:
  assumes "receive_block cr b e = Some (Inr e')"
  obtains vs ar st where
    "e' = prune_security_history (b_round b) ((insert_block_into_dag b e)\<lparr>ce_validator_set := vs, e_author_round_blocks := ar,
      e_withholding_detector := report_received (b_author b) (b_round b) (e_withholding_detector e), e_stake_tracker := st\<rparr>)"
    and "\<forall>k. mhas (e_author_round_blocks e) k \<longrightarrow> mhas ar k" and "get_block e (b_hash b) = None"
proof -
  obtain e1 where c: "check_block cr False b e = Some (Inr ())" and e1: "note_author_round cr b e = Some e1"
    and e': "e' = prune_security_history (b_round b) (track_received b (insert_block_into_dag b e1))"
    using assms unfolding receive_block_def receive_Inr_iff by blast
  obtain vs ar where ar: "e1 = e\<lparr>ce_validator_set := vs, e_author_round_blocks := ar\<rparr>"
    "\<forall>k. mhas (e_author_round_blocks e) k \<longrightarrow> mhas ar k" by (rule note_author_eq [OF e1])
  have "\<exists>st. track_received b (insert_block_into_dag b e1) = (insert_block_into_dag b e)\<lparr>ce_validator_set := vs,
      e_author_round_blocks := ar, e_withholding_detector := report_received (b_author b) (b_round b) (e_withholding_detector e),
      e_stake_tracker := st\<rparr>"
    by (rule exI [of _ "e_stake_tracker (track_received b (insert_block_into_dag b e1))"])
      (simp add: ar(1) track_received_def Let_def insert_block_into_dag_def)
  then show ?thesis using that e' ar(2) c unfolding check_block_Inr_iff by (auto simp: mhas_def get_block_def)
qed

lemma receive_ok:
  assumes ok: "node_ok vs e" and acc: "receive_block cr b e = Some (Inr e')"
  shows "node_ok vs e'"
proof -
  obtain e1 where c: "check_block cr False b e = Some (Inr ())" and e1: "note_author_round cr b e = Some e1"
    and e': "e' = prune_security_history (b_round b) (track_received b (insert_block_into_dag b e1))"
    using acc unfolding receive_block_def receive_Inr_iff by blast
  have fresh: "get_block e (b_hash b) = None" and parents: "check_parents e False b = Some (Inr ())"
    using c unfolding check_block_Inr_iff by (auto simp: mhas_def get_block_def)
  have "node_core e1 = node_core e" using note_author_domain [OF _ e1] ok by (auto simp: node_ok_def)
  then have "node_core e' = node_core (insert_block_into_dag b e)"
    unfolding e' node_core_security node_core_track by (rule node_core_insert)
  then show ?thesis
    using node_ok_cong insert_ok [OF ok fresh accepted_supported [OF ok _ parents]] by blast
qed

text \<open>The parents a proposal has selected so far, out of some hashes: known blocks whose authors are the
  authors counted.\<close>

definition selection_ok :: "engine \<Rightarrow> hash256 set \<Rightarrow> hash256 list \<times> address list \<times> u64 \<Rightarrow> bool" where
  "selection_ok e H acc \<longleftrightarrow> tally_ok (ce_validator_set e) (snd acc) \<and> set (fst acc) \<subseteq> H \<and>
     (\<forall>h \<in> set (fst acc). get_block e h \<noteq> None) \<and>
     set (fst (snd acc)) = (\<lambda>h. b_author (the (get_block e h))) ` set (fst acc)"

lemma select_ok:
  assumes "valid_set (ce_validator_set e)" and "selection_ok e H acc" and "h \<in> H"
  shows "\<exists>acc'. select_parent e h acc = Some acc' \<and> selection_ok e H acc'"
proof (cases "get_block e h")
  case (Some b)
  show ?thesis
  proof (cases "get_validator (ce_validator_set e) (b_author b) = None \<or> b_author b \<in> set (fst (snd acc))")
    case True
    then have "select_parent e h acc = Some acc" using Some by (auto simp: select_parent_def split: option.splits)
    then show ?thesis using assms(2) by blast
  next
    case False
    then obtain v where v: "get_validator (ce_validator_set e) (b_author b) = Some v" by auto
    obtain st where st: "checked_add (snd (snd acc)) (v_stake v) = Some st"
      "tally_ok (ce_validator_set e) (b_author b # fst (snd acc), st)"
      using checked_add_weight [OF assms(1) _ _ v, of "snd acc"] False assms(2) unfolding selection_ok_def by blast
    have "select_parent e h acc = Some (fst acc @ [h], b_author b # fst (snd acc), st)"
      using Some v False st(1) by (simp add: select_parent_def)
    moreover have "selection_ok e H (fst acc @ [h], b_author b # fst (snd acc), st)"
      using assms(2,3) Some st(2) by (simp add: selection_ok_def)
    ultimately show ?thesis by blast
  qed
qed (use assms in \<open>simp add: select_parent_def\<close>)

lemma tally_select:
  assumes "valid_set (ce_validator_set e)" and "selection_ok e H acc" and "set hs \<subseteq> H"
  shows "\<exists>acc'. tally (select_parent e) hs acc = Some acc' \<and> selection_ok e H acc'"
  using assms(2,3)
proof (induction hs arbitrary: acc)
  case (Cons h hs)
  obtain acc1 where "select_parent e h acc = Some acc1" "selection_ok e H acc1"
    using select_ok [OF assms(1) Cons.prems(1), of h] Cons.prems(2) by auto
  then show ?case using Cons.IH [of acc1] Cons.prems(2) by auto
qed simp

lemma proposal_parents_supported:
  assumes ok: "node_ok vs e" and above: "node_base e < unat (e_current_round e)"
    and sel: "proposal_parents e (e_current_round e) = Some (Inr parents)"
    and b: "b_round b = e_current_round e" "b_parents b = parents"
  shows "supported vs e b"
proof -
  let ?H = "set (blocks_in_round e (b_round b - 1))"
  have vs: "valid_set vs" "ce_validator_set e = vs" and dom: "e_consensus_domain e \<noteq> None" and idx: "indexed e"
    using ok by (auto simp: node_ok_def)
  have nz: "b_round b \<noteq> 0" "\<not> is_recovery_bootstrap_round e (e_current_round e)"
    using above b(1) by (auto simp: node_base_def is_recovery_bootstrap_round_def)
  have "selection_ok e ?H ([], [], 0)" by (simp add: selection_ok_def)
  then obtain acc where acc: "tally (select_parent e) (sort (blocks_in_round e (b_round b - 1))) ([], [], 0) = Some acc"
    "selection_ok e ?H acc"
    using tally_select [of e ?H "([], [], 0)" "sort (blocks_in_round e (b_round b - 1))"] vs by auto
  obtain ps authors stake where tup: "acc = (ps, authors, stake)" by (cases acc)
  have sok: "tally_ok vs (authors, stake)" "set ps \<subseteq> ?H" "\<forall>h \<in> set ps. get_block e h \<noteq> None"
    "set authors = (\<lambda>h. b_author (the (get_block e h))) ` set ps"
    using acc(2) unfolding tup selection_ok_def vs(2) by simp_all
  have "proposal_parents e (e_current_round e) = Some (
      if round_participation_satisfies_quorum e vs (b_round b - 1) authors stake then Inr ps else Inl InsufficientParents)"
    using acc(1) nz b(1) unfolding proposal_parents_def vs(2) by (simp add: tup)
  then have parts: "ps = parents" "participates e vs (b_round b - 1) (set authors)"
    using sel participation_tally [OF sok(1)] by (simp_all split: if_split_asm)
  have rounds: "\<exists>pb. get_block e p = Some pb \<and> b_round pb = b_round b - 1" if p: "p \<in> set parents" for p
  proof -
    obtain pb where "get_block e p = Some pb" using sok(3) p parts(1) by blast
    then show ?thesis using sok(2) p parts(1) idx unfolding indexed_def by blast
  qed
  have authors: "set authors = b_author ` set (held_parents e b)"
  proof -
    have "x \<in> set (held_parents e b) \<longleftrightarrow> (\<exists>h \<in> set parents. x = the (get_block e h))" for x
      unfolding held_parents_iff b(2) using rounds by (metis option.sel)
    then have "set (held_parents e b) = (\<lambda>h. the (get_block e h)) ` set parents" by blast
    then show ?thesis using sok(4) parts(1) by (simp add: image_image)
  qed
  have "has_quorum vs (map b_author (held_parents e b))"
    using participates_quorum [OF vs(1), of e "b_round b - 1" "map b_author (held_parents e b)"] parts(2) authors by simp
  moreover have "\<forall>p \<in> set (b_parents b). \<exists>pb. get_block e p = Some pb \<and> unat (b_round pb) + 1 = unat (b_round b)"
    using rounds b(2) unat_pred(1) [OF _ nz(1)] by blast
  ultimately show ?thesis
    using parts(2) dom unfolding supported_def participates_def authors by blast
qed

lemma node_core_update [frame]:
  "node_core (e\<lparr>e_withholding_detector := x\<rparr>) = node_core e"
  "node_core (e\<lparr>e_author_round_blocks := y\<rparr>) = node_core e"
  "node_core (store_da_commitment c e) = node_core e"
  "node_core (e\<lparr>e_committed := z\<rparr>) = node_core e"
  by (simp_all add: node_core_def store_da_commitment_def)

lemma record_proposal_eq:
  assumes "record_proposal cr w b e = Some e'"
  shows "\<exists>c. e' = prune_security_history (b_round b) ((store_da_commitment c ((insert_block_into_dag b e)
      \<lparr>e_author_round_blocks := mput (b_author b, b_round b) (b_hash b) (e_author_round_blocks e)\<rparr>))
      \<lparr>e_withholding_detector := report_received (e_local_address e) (b_round b)
         (report_expected (e_local_address e) (b_round b) (e_withholding_detector e))\<rparr>)"
  using assms by (auto simp: record_proposal_def Let_def store_da_commitment_def insert_block_into_dag_def)

lemma node_core_proposal:
  assumes "record_proposal cr w b e = Some e'"
  shows "node_core e' = node_core (insert_block_into_dag b e)"
  using record_proposal_eq [OF assms] by (auto simp: node_core_security frame)

lemma build_block_fields:
  "build_block cr e parents txs ts = Inr b \<Longrightarrow>
     b_round b = e_current_round e \<and> b_parents b = parents \<and> b_author b = e_local_address e \<and>
     b_transactions b = sort txs \<and> b_ordering b = compute_ordering_commitment cr (sort txs) \<and>
     b_hash b = domain_hash_of cr e b"
  by (auto simp: build_block_def Let_def domain_hash_of_def compute_hash_def compute_hash_in_domain_def
      block_body_def split: option.splits)

lemma propose_Inr_iff:
  "propose_block cr w txs ts e = Some (Inr (b, e')) \<longleftrightarrow>
     may_propose e = Inr () \<and> (\<exists>parents. proposal_parents e (e_current_round e) = Some (Inr parents) \<and>
       build_block cr e parents txs ts = Inr b) \<and> record_proposal cr w b e = Some e'"
  by (auto simp: propose_block_def split: sum.splits option.splits)

lemma propose_ok:
  assumes ok: "node_ok vs e" and run: "propose_block cr w txs ts e = Some (Inr (b, e'))"
    and fresh: "get_block e (b_hash b) = None"
  shows "node_ok vs e'"
proof -
  obtain parents where p: "proposal_parents e (e_current_round e) = Some (Inr parents)"
    "b_round b = e_current_round e" "b_parents b = parents" and rec: "record_proposal cr w b e = Some e'"
    using run build_block_fields unfolding propose_Inr_iff by blast
  have "node_ok vs (insert_block_into_dag b e)"
    by (rule insert_ok [OF ok fresh]) (use proposal_parents_supported [OF ok _ p] p(2) in simp)
  then show ?thesis using node_ok_cong node_core_proposal [OF rec] by blast
qed

section \<open>The withholding detector never fires\<close>

text \<open>The engine expects blocks of itself only, and marks each as received in the same step.\<close>

definition all_received :: "withholding_detector \<Rightarrow> bool" where
  "all_received wd \<longleftrightarrow> mwf (wd_expected wd) \<and> mwf (wd_received wd) \<and>
     (\<forall>v rs. map_of (wd_expected wd) v = Some rs \<longrightarrow>
       (\<exists>s. map_of (wd_received wd) v = Some s \<and> set rs \<subseteq> set s))"

lemma all_received_no_report:
  assumes "all_received wd"
  shows "detect_withholding window wd = []"
proof -
  have "missing_rounds wd v (expected_in_window window wd rs) = []" if "(v, rs) \<in> set (wd_expected wd)" for v rs
    using that assms
    by (force simp: all_received_def missing_rounds_def expected_in_window_def filter_empty_conv map_of_iff_set)
  then have "\<forall>p \<in> set (wd_expected wd). (\<lambda>(v, rounds).
       let expected = expected_in_window window wd rounds; missing = missing_rounds wd v expected
       in if length expected = 0 then None
          else if 2 * length missing > length expected
          then Some \<lparr>wr_validator = v, wr_missing_rounds = missing, wr_total_expected = length expected\<rparr>
          else None) p = None" by (auto simp: Let_def)
  then show ?thesis unfolding detect_withholding_def by (simp add: List.map_filter_def filter_empty_conv)
qed

lemma all_received_new [simp]: "all_received detector_new"
  by (simp add: all_received_def detector_new_def)

lemma all_received_report:
  "all_received wd \<Longrightarrow> all_received (report_received v r wd)"
  "all_received wd \<Longrightarrow> all_received (report_received v r (report_expected v r wd))"
  by (force simp: all_received_def report_received_def report_expected_def store_simps
      split: option.splits if_splits)+

lemma map_of_prune_rounds:
  "mwf m \<Longrightarrow> map_of (prune_rounds before m) v = (case map_of m v of None \<Rightarrow> None
     | Some rs \<Rightarrow> if filter (\<lambda>r. before \<le> r) rs = [] then None else Some (filter (\<lambda>r. before \<le> r) rs))"
proof -
  assume wf: "mwf m"
  have "mwf (map (\<lambda>(v, rs). (v, filter (\<lambda>r. before \<le> r) rs)) m)"
    using wf by (simp add: mwf_def comp_def case_prod_unfold)
  moreover have "map_of (map (\<lambda>(v, rs). (v, filter (\<lambda>r. before \<le> r) rs)) m) v =
      map_option (filter (\<lambda>r. before \<le> r)) (map_of m v)" by (simp add: map_of_map)
  ultimately show ?thesis by (simp add: prune_rounds_def map_of_mretain split: option.splits)
qed

lemma all_received_prune: "all_received wd \<Longrightarrow> all_received (detector_prune before wd)"
proof -
  assume ok: "all_received wd"
  have wf: "mwf (prune_rounds before m)" if "mwf m" for m :: "(hash256, u64 list) store"
    unfolding prune_rounds_def using that by (intro mwf_mretain) (simp add: mwf_def comp_def case_prod_unfold)
  show ?thesis
    using ok wf unfolding all_received_def detector_prune_def
    by (auto simp: map_of_prune_rounds filter_empty_conv split: option.splits if_splits) fastforce+
qed

lemma detector_security:
  "all_received (e_withholding_detector e) \<Longrightarrow> all_received (e_withholding_detector (prune_security_history r e))"
  by (simp add: prune_security_history_def all_received_prune split: option.splits)

lemma detector_receive:
  assumes "all_received (e_withholding_detector e)" and "receive_block cr b e = Some (Inr e')"
  shows "all_received (e_withholding_detector e')"
proof -
  obtain vs ar st where "e' = prune_security_history (b_round b) ((insert_block_into_dag b e)\<lparr>ce_validator_set := vs,
      e_author_round_blocks := ar, e_withholding_detector :=
        report_received (b_author b) (b_round b) (e_withholding_detector e), e_stake_tracker := st\<rparr>)"
    by (rule receive_eq [OF assms(2)])
  then show ?thesis using assms(1) by (auto intro!: detector_security simp: all_received_report)
qed

lemma detector_propose:
  assumes "all_received (e_withholding_detector e)" and "propose_block cr w txs ts e = Some (Inr (b, e'))"
  shows "all_received (e_withholding_detector e')"
  using assms record_proposal_eq [of cr w b e e'] unfolding propose_Inr_iff
  by (auto simp: detector_security all_received_report)

section \<open>Pruning and committing\<close>

lemma drop_rounds_lookup:
  assumes idx: "indexed e" and pop: "populated e"
  shows "get_block (snd (drop_rounds c e)) h = (case get_block e h of None \<Rightarrow> None
      | Some b \<Rightarrow> if b_round b < c then None else Some b)" (is ?block)
    and "blocks_in_round (snd (drop_rounds c e)) r = (if r < c then [] else blocks_in_round e r)" (is ?round)
proof -
  define gone where "gone = concat (map (blocks_in_round e) (filter (\<lambda>r. r < c) (map fst (e_rounds e))))"
  have keys: "r \<in> fst ` set (e_rounds e)" if "blocks_in_round e r \<noteq> []" for r
    using that by (cases "map_of (e_rounds e) r") (auto simp: blocks_in_round_def dest!: map_of_SomeD intro: rev_image_eqI)
  have gone: "h \<in> set gone \<longleftrightarrow> (\<exists>r. r < c \<and> h \<in> set (blocks_in_round e r))" for h
  proof -
    have "h \<in> set gone \<longleftrightarrow> (\<exists>r \<in> fst ` set (e_rounds e). r < c \<and> h \<in> set (blocks_in_round e r))"
      by (auto simp: gone_def)
    then show ?thesis using keys by (metis empty_iff list.set(1))
  qed
  have dropped: "get_block (snd (drop_rounds c e)) h = (if h \<in> set gone then None else get_block e h)"
    unfolding drop_rounds_def Let_def gone_def [symmetric] get_block_def by (simp add: map_of_mretain_key)
  show ?block
  proof (cases "get_block e h")
    case (Some b)
    then have "h \<in> set gone \<longleftrightarrow> b_round b < c" unfolding gone using idx unfolding indexed_def by blast
    then show ?thesis using Some dropped by simp
  qed (simp add: dropped)
  show ?round
  proof (cases "r < c \<and> r \<in> fst ` set (e_rounds e)")
    case True
    then show ?thesis by (simp add: drop_rounds_def Let_def blocks_in_round_def map_of_mretain_key)
  next
    case False
    then show ?thesis using keys [of r]
      by (auto simp: drop_rounds_def Let_def blocks_in_round_def map_of_mretain_key)
  qed
qed

lemma drop_rounds_index:
  assumes idx: "indexed e" "populated e"
  shows "get_block (snd (drop_rounds c e)) h = Some b \<longleftrightarrow> get_block e h = Some b \<and> c \<le> b_round b"
    and "indexed (snd (drop_rounds c e))" and "populated (snd (drop_rounds c e))"
proof -
  let ?e = "snd (drop_rounds c e)"
  note look = drop_rounds_lookup [OF idx, of c]
  show get: "get_block ?e h = Some b \<longleftrightarrow> get_block e h = Some b \<and> c \<le> b_round b" for h b
    unfolding look(1) by (auto split: option.splits if_splits)
  show "indexed ?e" using idx(1) unfolding indexed_def get look(2) by (auto simp: not_less)
  have "\<exists>b. get_block ?e h = Some b" if h: "h \<in> set (blocks_in_round ?e r)" for h r
  proof -
    have r: "c \<le> r" "h \<in> set (blocks_in_round e r)" using h look(2) [of r] by (auto split: if_splits)
    then obtain b where b: "get_block e h = Some b" using idx(2) unfolding populated_def by blast
    moreover have "b_round b = r" using b r(2) idx(1) unfolding indexed_def by blast
    ultimately show ?thesis unfolding get using r(1) by blast
  qed
  then show "populated ?e" unfolding populated_def by blast
qed

lemma drop_rounds_ok:
  assumes ok: "node_ok vs e" and c: "unat c \<le> node_base e"
  shows "node_ok vs (snd (drop_rounds c e))"
proof -
  let ?e = "snd (drop_rounds c e)"
  have idx: "indexed e" "populated e" using ok by (auto simp: node_ok_def)
  note get = drop_rounds_index(1) [OF idx, of c]
  have fields: "ce_validator_set ?e = ce_validator_set e" "ce_frozen_validator_set ?e = ce_frozen_validator_set e"
    "e_consensus_domain ?e = e_consensus_domain e" "node_base ?e = node_base e"
    "e_local_recovery_replay_active ?e = e_local_recovery_replay_active e"
    "is_excused_for_round ?e = is_excused_for_round e"
    by (simp_all add: drop_rounds_def Let_def node_base_def is_excused_for_round_def fun_eq_iff)
  have "indexed ?e" "populated ?e" using drop_rounds_index(2,3) [OF idx] by simp_all
  moreover have "supported vs ?e b" if b: "get_block ?e h = Some b" "node_base e < unat (b_round b)" for h b
  proof (rule supported_cong)
    show "supported vs e b" using ok b unfolding node_ok_iff get by blast
  qed (use b(2) c in \<open>auto simp: get fields word_le_nat_alt\<close>)
  ultimately show ?thesis using ok unfolding node_ok_iff fields by blast
qed

lemma cursor_ok:
  assumes "node_ok vs e" and "e_last_committed_round e \<le> c"
  shows "node_ok vs (e\<lparr>e_last_committed_round := c, e_committed := cs\<rparr>)"
proof -
  let ?e = "e\<lparr>e_last_committed_round := c, e_committed := cs\<rparr>"
  have same: "get_block ?e = get_block e" "blocks_in_round ?e = blocks_in_round e"
    "is_excused_for_round ?e = is_excused_for_round e"
    by (auto simp: get_block_def blocks_in_round_def is_excused_for_round_def fun_eq_iff)
  have le: "node_base e \<le> node_base ?e" using assms(2) by (auto simp: node_base_def word_le_nat_alt)
  have "supported vs ?e b" if "get_block e h = Some b" "node_base ?e < unat (b_round b)" for h b
  proof (rule supported_cong [of vs e])
    show "supported vs e b" using that assms(1) le unfolding node_ok_iff by (meson le_less_trans)
  qed (simp_all add: same)
  then show ?thesis using assms(1) unfolding node_ok_iff by (simp add: indexed_def populated_def same)
qed

lemma prune_old_ok: "node_ok vs e \<Longrightarrow> node_ok vs (prune_old_rounds e)"
proof -
  assume ok: "node_ok vs e"
  let ?c = "min (e_current_round e - e_retained_rounds e) (e_last_committed_round e)"
  have dropped: "node_ok vs (snd (drop_rounds ?c e))"
    by (rule drop_rounds_ok [OF ok]) (auto simp: node_base_def min_def word_le_nat_alt)
  show ?thesis
  proof (cases "e_current_round e \<le> e_retained_rounds e")
    case False
    then have "node_core (prune_old_rounds e) = node_core (snd (drop_rounds ?c e))"
      by (simp add: prune_old_rounds_def Let_def case_prod_unfold node_core_def)
    then show ?thesis using dropped node_ok_cong by blast
  qed (use ok in \<open>simp add: prune_old_rounds_def\<close>)
qed

lemma prune_below_dropped:
  assumes "\<not> r < e_retained_rounds e"
  shows "\<exists>cs. snd (prune_below_round r e) = (snd (drop_rounds (r - e_retained_rounds e) e))
    \<lparr>e_skip_certificates := mretain (\<lambda>k _. r - e_retained_rounds e \<le> fst k)
       (e_skip_certificates (snd (drop_rounds (r - e_retained_rounds e) e))), e_committed := cs\<rparr>"
proof -
  obtain n d where d: "drop_rounds (r - e_retained_rounds e) e = (n, d)" by (cases "drop_rounds (r - e_retained_rounds e) e")
  show ?thesis
  proof (cases "n > 0")
    case False
    then show ?thesis using assms d by (intro exI [of _ "e_committed d"]) (simp add: prune_below_round_def)
  qed (use assms d in \<open>simp add: prune_below_round_def Let_def\<close>, blast)
qed

lemma retain_skips_ok:
  assumes d: "node_ok vs e" and c: "unat c \<le> node_base e"
  shows "node_ok vs (e\<lparr>e_skip_certificates := mretain (\<lambda>k _. c \<le> fst k) (e_skip_certificates e), e_committed := cs\<rparr>)"
    (is "node_ok vs ?p")
proof -
  have same: "get_block ?p = get_block e" "blocks_in_round ?p = blocks_in_round e" "node_base ?p = node_base e"
    by (simp_all add: get_block_def blocks_in_round_def node_base_def fun_eq_iff)
  have skips: "is_excused_for_round ?p r a \<longleftrightarrow> c \<le> r \<and> is_excused_for_round e r a" for r a
    by (simp add: is_excused_for_round_def mhas_def map_of_mretain_key)
  have "supported vs ?p b" if b: "get_block e h = Some b" "node_base e < unat (b_round b)" for h b
  proof (rule supported_cong)
    show "supported vs e b" using d b unfolding node_ok_iff by blast
    have "b_round b \<noteq> 0" using b(2) by auto
    then have "unat c \<le> unat (b_round b - 1)" using b(2) c unat_pred(1) [OF refl, of "b_round b"] by simp
    then show "is_excused_for_round ?p (b_round b - 1) a" if "is_excused_for_round e (b_round b - 1) a" for a
      using that unfolding skips by (simp add: word_le_nat_alt)
  qed (simp add: same)
  then show ?thesis using d unfolding node_ok_iff same by (simp add: indexed_def populated_def same)
qed

lemma prune_below_ok:
  assumes ok: "node_ok vs e" and r: "r \<le> e_last_committed_round e"
  shows "node_ok vs (snd (prune_below_round r e))"
proof (cases "r < e_retained_rounds e")
  case False
  define c where "c = r - e_retained_rounds e"
  have "unat c \<le> unat r" using False by (simp add: unat_sub not_less c_def)
  then have c: "unat c \<le> node_base e" using r by (simp add: node_base_def word_le_nat_alt)
  have base: "node_base (snd (drop_rounds c e)) = node_base e" by (simp add: drop_rounds_def Let_def node_base_def)
  have "node_ok vs ((snd (drop_rounds c e))\<lparr>e_skip_certificates :=
      mretain (\<lambda>k _. c \<le> fst k) (e_skip_certificates (snd (drop_rounds c e))), e_committed := cs\<rparr>)" for cs
    by (rule retain_skips_ok [OF drop_rounds_ok [OF ok c]]) (simp only: base c)
  then show ?thesis using prune_below_dropped [OF False] unfolding c_def by metis
qed (use ok in \<open>simp add: prune_below_round_def\<close>)

lemma max_round_le:
  assumes "\<And>b. b \<in> set bs \<Longrightarrow> b_round b \<le> m"
  shows "max_round_of bs \<le> m"
proof -
  have "fold max rs a \<le> m" if "a \<le> m" "\<forall>x \<in> set rs. x \<le> m" for a :: u64 and rs
    using that by (induction rs arbitrary: a) auto
  then show ?thesis using assms by (auto simp: max_round_of_def)
qed

text \<open>Maintenance of a node whose detector holds nothing against anyone: pruning and lock expiry.\<close>

definition tidy :: "u64 \<Rightarrow> dag_block list \<Rightarrow> engine \<Rightarrow> engine" where
  "tidy now_ms newly e =
     (let e2 = (if newly \<noteq> [] then snd (prune_below_round (max_round_of newly) (prune_old_rounds e)) else e)
      in snd (expire_stale_locks_with_timeout 30 now_ms (snd (expire_stale_locks now_ms e2))))"

lemma maintain_tidy:
  "all_received (e_withholding_detector e) \<Longrightarrow> maintain_live_state cr now_ms newly e = Some (tidy now_ms newly e)"
  by (simp add: maintain_live_state_def tidy_def Let_def all_received_no_report)

lemma locks_only_core:
  assumes "locks_only e e'"
  shows "node_core e' = node_core e" and "e_withholding_detector e' = e_withholding_detector e"
    and "e_author_round_blocks e' = e_author_round_blocks e" and "e_current_round e' = e_current_round e"
    and "e_local_address e' = e_local_address e" and "e_last_committed_round e' = e_last_committed_round e"
  using assms by (auto simp: locks_only_def node_core_def)

lemmas node_core_expire [frame] = locks_only_core(1) [OF expire_locks_only]

lemma tidy_ok:
  assumes "node_ok vs e" and "\<And>b. b \<in> set newly \<Longrightarrow> b_round b \<le> e_last_committed_round e"
  shows "node_ok vs (tidy now_ms newly e)"
proof -
  have r: "max_round_of newly \<le> e_last_committed_round (prune_old_rounds e)"
    unfolding prune_fields by (rule max_round_le [OF assms(2)])
  have ok: "node_ok vs (snd (prune_below_round (max_round_of newly) (prune_old_rounds e)))"
    by (rule prune_below_ok [OF prune_old_ok [OF assms(1)] r])
  have "node_core (tidy now_ms newly e) = node_core (if newly \<noteq> []
      then snd (prune_below_round (max_round_of newly) (prune_old_rounds e)) else e)"
    by (simp add: tidy_def Let_def frame)
  then show ?thesis using node_ok_cong [of "tidy now_ms newly e"] ok assms(1) by (cases "newly = []") auto
qed

end
