(* ===== verification/Arc_Runs.thy ===== *)
theory Arc_Runs
  imports Arc_Node
begin

text \<open>
  Runs of a node. The steps of \<open>node_step\<close> are the engine's handlers: receiving and proposing blocks,
  advancing the round, committing (with its pruning), registering certificates, cross-shard locks, and
  repositioning to a checkpoint or to the cursors of the local log. \<open>node_move\<close> adds the reset of the DAG,
  which restarts the rounds at 0. The properties are about every state such runs reach.
\<close>

section \<open>Steps\<close>

text \<open>A proposal step asks that the new block's hash is not one of a block already held.\<close>

inductive node_step :: "'z crypto_scheme \<Rightarrow> wire \<Rightarrow> engine \<Rightarrow> engine \<Rightarrow> bool" for cr w where
  receives: "receive_block cr b e = Some (Inr e') \<Longrightarrow> node_step cr w e e'"
| proposes: "propose_block cr w txs ts e = Some (Inr (b, e')) \<Longrightarrow> get_block e (b_hash b) = None \<Longrightarrow> node_step cr w e e'"
| advances: "advance_round e = Some (ok, e') \<Longrightarrow> node_step cr w e e'"
| forces: "node_step cr w e (force_advance_round e)"
| commits: "try_commit_limited cr now_ms mx live e = Some (cs, e') \<Longrightarrow> node_step cr w e e'"
| excuses: "register_skip_certificate cr c e = Some (Inr (n, e')) \<Longrightarrow> node_step cr w e e'"
| finalises: "register_finality_certificate cr fc e = Some (Inr (n, e')) \<Longrightarrow> node_step cr w e e'"
| locks: "node_step cr w e (lock_step cr w e call)"
| rebases: "rebase_to anchor e = Inr (cursor, e') \<Longrightarrow> node_step cr w e e'"
| restores: "node_step cr w e (restore_round_from_local_wal round committed e)"

definition node_move :: "'z crypto_scheme \<Rightarrow> wire \<Rightarrow> engine \<Rightarrow> engine \<Rightarrow> bool" where
  "node_move cr w e e' \<longleftrightarrow> node_step cr w e e' \<or> e' = reset_dag e"

text \<open>A step that does not take the commit cursor back. Only \<open>restore_round_from_local_wal\<close> can do that, when
  the log it is given has a later round and an earlier commit than the engine.\<close>

definition forward_move :: "'z crypto_scheme \<Rightarrow> wire \<Rightarrow> engine \<Rightarrow> engine \<Rightarrow> bool" where
  "forward_move cr w e e' \<longleftrightarrow> node_move cr w e e' \<and> e_last_committed_round e \<le> e_last_committed_round e'"

lemma advance_eq:
  "advance_round e = Some (ok, e') \<Longrightarrow>
     e' = e \<or> (\<exists>k. checked_add (e_current_round e) 1 = Some k \<and> e' = e\<lparr>e_current_round := k, e_force_advanced := False\<rparr>)"
  by (auto simp: advance_round_def split: if_splits option.splits)

lemma excuse_eq:
  "register_skip_certificate cr c e = Some (Inr (n, e')) \<Longrightarrow> \<exists>m. e' = e\<lparr>e_skip_certificates := m\<rparr>"
  by (auto simp: register_skip_certificate_def result_simps split: option.splits)

lemma finality_eq:
  "register_finality_certificate cr fc e = Some (Inr (n, e')) \<Longrightarrow>
     \<exists>h m. e' = e\<lparr>e_highest_finalized_height := h, e_finality_certificates := m\<rparr>"
  by (auto simp: register_finality_certificate_def store_finality_def Let_def result_simps split: option.splits if_splits)

lemma rebase_eq:
  assumes "rebase_to anchor e = Inr (cursor, e')"
  shows "e' = e\<lparr>e_dag := [], e_rounds := [], e_committed := [], e_author_round_blocks := [],
       e_da_commitments := [], e_finality_proofs := [],
       e_proposal_floor := max (e_proposal_floor e) (e_current_round e), e_current_round := max (e_current_round e) cursor,
       e_last_committed_round := cursor, e_restart_base_round := Some cursor\<rparr>" and "0 < cursor"
  using assms by (auto simp: rebase_to_def check_rebase_def result_simps Let_def checked_add_Some_iff word_less_nat_alt
      split: if_splits)

lemma restore_eq:
  "\<exists>fl. restore_round_from_local_wal round committed e = e\<lparr>e_proposal_floor := fl\<rparr> \<or>
    restore_round_from_local_wal round committed e =
      e\<lparr>e_proposal_floor := fl, e_current_round := round, e_last_committed_round := committed\<rparr> \<and>
    e_current_round e < round \<and> committed \<le> round"
  by (auto simp: restore_round_from_local_wal_def Let_def not_less intro: exI [of _ "e_proposal_floor e"])

section \<open>The withholding detector\<close>

lemma detector_frame:
  "e_withholding_detector (snd (drop_rounds c e)) = e_withholding_detector e"
  "e_withholding_detector (prune_old_rounds e) = e_withholding_detector e"
  "e_withholding_detector (snd (prune_below_round r e)) = e_withholding_detector e"
  "e_withholding_detector (snd (expire_locks t n e)) = e_withholding_detector e"
proof -
  show drop: "e_withholding_detector (snd (drop_rounds c e)) = e_withholding_detector e" for c e
    by (simp add: drop_rounds_def Let_def)
  show "e_withholding_detector (prune_old_rounds e) = e_withholding_detector e"
    by (simp add: prune_old_rounds_def Let_def case_prod_unfold drop)
  show "e_withholding_detector (snd (prune_below_round r e)) = e_withholding_detector e"
    by (simp add: prune_below_round_def Let_def case_prod_unfold drop)
qed (rule locks_only_core(2) [OF expire_locks_only])

lemma detector_tidy: "e_withholding_detector (tidy now_ms newly e) = e_withholding_detector e"
  by (simp add: tidy_def Let_def expire_stale_fields detector_frame)

lemma try_commit_shape:
  assumes det: "all_received (e_withholding_detector e)" and run: "try_commit_limited cr now_ms mx live e = Some (cs, e')"
  obtains (idle) "cs = []" "e' = e"
  | (moved) c e1 where "e1 = e\<lparr>e_last_committed_round := c, e_committed := append_committed cs (e_committed e)\<rparr>"
      "e' = (if live then tidy now_ms cs e1 else e1)" "commit_rounds mx e = Some (cs, e1)" "\<not> e_current_round e < 2"
proof (cases "vs_epoch (ce_frozen_validator_set e) = 0 \<or> e_current_round e < 2")
  case True
  then show ?thesis using run idle by (auto simp: try_commit_limited_def)
next
  case False
  obtain newly e1 where cr: "commit_rounds mx e = Some (newly, e1)"
    using False run by (auto simp: try_commit_limited_def split: option.splits)
  then obtain c where e1: "e1 = e\<lparr>e_last_committed_round := c, e_committed := append_committed newly (e_committed e)\<rparr>"
    by (auto simp: commit_rounds_def Let_def)
  then have "all_received (e_withholding_detector e1)" using det by simp
  then have "try_commit_limited cr now_ms mx live e = Some (newly, if live then tidy now_ms newly e1 else e1)"
    using False cr by (simp add: try_commit_limited_def maintain_tidy)
  then show ?thesis using run moved [of e1 c] e1 cr False by auto
qed

lemma received_move:
  assumes "node_move cr w e e'" and det: "all_received (e_withholding_detector e)"
  shows "all_received (e_withholding_detector e')"
proof -
  consider (step) "node_step cr w e e'" | (reset) "e' = reset_dag e" using assms(1) by (auto simp: node_move_def)
  then show ?thesis
  proof cases
    case step
    then show ?thesis
    proof cases
      case (receives b)
      then show ?thesis by (rule detector_receive [OF det])
    next
      case (proposes txs ts b)
      then show ?thesis using detector_propose [OF det] by blast
    next
      case (advances ok)
      then show ?thesis using det advance_eq [OF advances] by auto
    next
      case (commits now_ms mx live cs)
      show ?thesis using det commits
        by (cases rule: try_commit_shape) (use det in \<open>auto simp: detector_tidy\<close>)
    next
      case (excuses c n)
      then show ?thesis using det excuse_eq [OF excuses] by auto
    next
      case (finalises fc n)
      then show ?thesis using det finality_eq [OF finalises] by auto
    next
      case (locks call)
      then show ?thesis using det by (simp add: locks_only_core(2) [OF lock_step_locks_only])
    next
      case (rebases anchor cursor)
      then show ?thesis using det rebase_eq(1) by fastforce
    next
      case (restores round committed)
      then show ?thesis using det restore_eq [of round committed e] by auto
    qed (use det in \<open>simp add: force_advance_round_def split: option.splits\<close>)
  qed (use det in \<open>simp add: reset_dag_def\<close>)
qed

lemma received_run: "(node_move cr w)\<^sup>*\<^sup>* s e \<Longrightarrow> all_received (e_withholding_detector s) \<Longrightarrow> all_received (e_withholding_detector e)"
  by (induction rule: rtranclp_induct) (blast intro: received_move)+

section \<open>A consistent node\<close>

text \<open>What the commit step needs of any node, bound to a domain or not.\<close>

definition consistent :: "engine \<Rightarrow> bool" where
  "consistent e \<longleftrightarrow> valid_set (ce_frozen_validator_set e) \<and> indexed e \<and> populated e \<and> all_received (e_withholding_detector e)"

definition sound_node :: "engine \<Rightarrow> bool" where
  "sound_node e \<longleftrightarrow> consistent e \<and> e_last_committed_round e \<le> e_current_round e"

definition index_core where
  "index_core e = (ce_frozen_validator_set e, e_dag e, e_rounds e)"

lemma index_core_frame:
  "index_core (prune_security_history r e) = index_core e"
  "index_core (e\<lparr>ce_validator_set := vs, e_author_round_blocks := ar, e_withholding_detector := wd, e_stake_tracker := st\<rparr>) =
     index_core e"
  "index_core ((store_da_commitment c (e\<lparr>e_author_round_blocks := ar\<rparr>))\<lparr>e_withholding_detector := wd\<rparr>) = index_core e"
  "index_core (force_advance_round e) = index_core e"
  by (simp_all add: index_core_def prune_security_history_def store_da_commitment_def force_advance_round_def
      split: option.splits)

lemma consistent_cong:
  assumes "consistent e" and "index_core e' = index_core e" and "all_received (e_withholding_detector e')"
  shows "consistent e'"
proof -
  have "get_block e' = get_block e" "blocks_in_round e' = blocks_in_round e"
    using assms(2) by (auto simp: index_core_def get_block_def blocks_in_round_def fun_eq_iff)
  then show ?thesis using assms by (simp add: consistent_def index_core_def indexed_def populated_def)
qed

lemma consistent_insert:
  assumes "consistent e" and "get_block e (b_hash b) = None"
    and "index_core e' = index_core (insert_block_into_dag b e)" and "all_received (e_withholding_detector e')"
  shows "consistent e'"
proof (rule consistent_cong [OF _ assms(3,4)])
  show "consistent (insert_block_into_dag b e)"
    using assms(1) indexed_insert [OF _ _ assms(2)]
    by (simp add: consistent_def) (simp add: insert_block_into_dag_def)
qed

lemma consistent_empty:
  "consistent e \<Longrightarrow> e_dag e' = [] \<Longrightarrow> e_rounds e' = [] \<Longrightarrow> ce_frozen_validator_set e' = ce_frozen_validator_set e \<Longrightarrow>
     all_received (e_withholding_detector e') \<Longrightarrow> consistent e'"
  by (simp add: consistent_def indexed_def populated_def get_block_def blocks_in_round_def)

lemma sound_new: "valid_set vs \<Longrightarrow> sound_node (engine_new vs a key testnet)"
  by (simp add: sound_node_def consistent_def indexed_def populated_def get_block_def blocks_in_round_def engine_new_def)

lemma consistent_drop: "consistent e \<Longrightarrow> consistent (snd (drop_rounds c e))"
proof -
  assume c: "consistent e"
  have "ce_frozen_validator_set (snd (drop_rounds c e)) = ce_frozen_validator_set e" by (simp add: drop_rounds_def Let_def)
  then show ?thesis using c drop_rounds_index(2,3) by (simp add: consistent_def detector_frame)
qed

lemma consistent_tidy: "consistent e \<Longrightarrow> consistent (tidy now_ms newly e)"
proof -
  assume c: "consistent e"
  let ?k = "min (e_current_round e - e_retained_rounds e) (e_last_committed_round e)"
  have old: "consistent (prune_old_rounds e)"
  proof (cases "e_current_round e \<le> e_retained_rounds e")
    case False
    then have core: "index_core (prune_old_rounds e) = index_core (snd (drop_rounds ?k e))"
      by (simp add: prune_old_rounds_def Let_def case_prod_unfold index_core_def)
    show ?thesis
      by (rule consistent_cong [OF consistent_drop [OF c, of ?k] core]) (use c in \<open>simp add: detector_frame consistent_def\<close>)
  qed (use c in \<open>simp add: prune_old_rounds_def\<close>)
  have "consistent (snd (prune_below_round m x))" if "consistent x" for m x
  proof (cases "m < e_retained_rounds x")
    case False
    obtain cs where "snd (prune_below_round m x) = (snd (drop_rounds (m - e_retained_rounds x) x))
      \<lparr>e_skip_certificates := mretain (\<lambda>k _. m - e_retained_rounds x \<le> fst k)
         (e_skip_certificates (snd (drop_rounds (m - e_retained_rounds x) x))), e_committed := cs\<rparr>"
      using prune_below_dropped [OF False] by blast
    then show ?thesis
      by (intro consistent_cong [OF consistent_drop [OF that, of "m - e_retained_rounds x"]])
        (use that in \<open>simp_all add: index_core_def consistent_def detector_frame\<close>)
  qed (use that in \<open>simp add: prune_below_round_def\<close>)
  then have two: "consistent (if newly \<noteq> [] then snd (prune_below_round (max_round_of newly) (prune_old_rounds e)) else e)"
    using old c by simp
  have lo: "consistent x'" if "consistent x" "locks_only x x'" for x x'
    using consistent_cong [OF that(1), of x'] that by (auto simp: locks_only_def index_core_def consistent_def)
  show ?thesis unfolding tidy_def Let_def expire_stale_fields by (intro lo [OF _ expire_locks_only] two)
qed

lemma consistent_step:
  assumes step: "node_step cr w e e'" and c: "consistent e"
  shows "consistent e'"
proof -
  have det: "all_received (e_withholding_detector e')"
    using received_move [of cr w e e'] step c by (simp add: node_move_def consistent_def)
  note same = consistent_cong [OF c _ det]
  show ?thesis using step
  proof cases
    case (receives b)
    obtain vs ar st where e': "e' = prune_security_history (b_round b) ((insert_block_into_dag b e)\<lparr>ce_validator_set := vs,
        e_author_round_blocks := ar, e_withholding_detector := report_received (b_author b) (b_round b)
          (e_withholding_detector e), e_stake_tracker := st\<rparr>)" and "get_block e (b_hash b) = None"
      by (rule receive_eq [OF receives])
    then show ?thesis by (intro consistent_insert [OF c _ _ det]) (simp_all only: index_core_frame)
  next
    case (proposes txs ts b)
    then have "record_proposal cr w b e = Some e'" unfolding propose_Inr_iff by blast
    then have "index_core e' = index_core (insert_block_into_dag b e)"
      using record_proposal_eq index_core_frame(1,3) by metis
    then show ?thesis by (rule consistent_insert [OF c proposes(2) _ det])
  next
    case (advances ok)
    then have "index_core e' = index_core e" using advance_eq [OF advances] by (auto simp: index_core_def)
    then show ?thesis by (rule same)
  next
    case (commits now_ms mx live cs)
    have "all_received (e_withholding_detector e)" using c by (simp add: consistent_def)
    then show ?thesis using commits
    proof (cases rule: try_commit_shape)
      case (moved k e1)
      then have "consistent e1" using consistent_cong [OF c, of e1] c by (simp add: index_core_def consistent_def)
      then show ?thesis using moved(2) consistent_tidy by simp
    qed (use c in simp)
  next
    case (excuses k n)
    then have "index_core e' = index_core e" using excuse_eq [OF excuses] by (auto simp: index_core_def)
    then show ?thesis by (rule same)
  next
    case (finalises fc n)
    then have "index_core e' = index_core e" using finality_eq [OF finalises] by (auto simp: index_core_def)
    then show ?thesis by (rule same)
  next
    case (locks call)
    then have "index_core e' = index_core e"
      using lock_step_locks_only [of e cr w call] by (auto simp: locks_only_def index_core_def)
    then show ?thesis by (rule same)
  next
    case (rebases anchor cursor)
    then show ?thesis by (intro consistent_empty [OF c _ _ _ det]) (simp_all add: rebase_eq(1) [OF rebases])
  next
    case (restores round committed)
    then have "index_core e' = index_core e" using restore_eq [of round committed e] by (auto simp: index_core_def)
    then show ?thesis by (rule same)
  qed (intro same, simp only: index_core_frame)
qed

lemma try_commit_cases:
  assumes c: "consistent e" and run: "try_commit_limited cr now_ms mx live e = Some (cs, e')"
  obtains (idle) "cs = []" "e' = e"
  | (moved) c e1 where "e1 = e\<lparr>e_last_committed_round := c, e_committed := append_committed cs (e_committed e)\<rparr>"
      "e' = (if live then tidy now_ms cs e1 else e1)" "e_last_committed_round e \<le> c"
      "unat c \<le> max (unat (e_last_committed_round e)) (unat (e_current_round e))" "\<forall>b \<in> set cs. b_round b < c"
      "commit_rounds mx e = Some (cs, e1)"
proof -
  have det: "all_received (e_withholding_detector e)" and val: "valid_set (ce_frozen_validator_set e)"
    and idx: "indexed e" using c by (auto simp: consistent_def)
  show ?thesis using det run
  proof (cases rule: try_commit_shape)
    case (moved k e1)
    obtain newly c where c: "commit_rounds mx e = Some (newly, e\<lparr>e_last_committed_round := c,
        e_committed := append_committed newly (e_committed e)\<rparr>)" "e_last_committed_round e \<le> c"
      and below: "\<forall>b \<in> set newly. b_round b < c"
      and bound: "unat c \<le> max (unat (e_last_committed_round e)) (Suc (unat (saturating_sub (e_current_round e) 2)))"
      by (rule commit_rounds_blocks [OF val idx, of mx]) blast
    have eq: "newly = cs" "e1 = e\<lparr>e_last_committed_round := c, e_committed := append_committed cs (e_committed e)\<rparr>"
      using c(1) moved(3) by auto
    have "2 \<le> unat (e_current_round e)" using moved(4) by (simp add: word_less_nat_alt not_less)
    then have cur: "unat c \<le> max (unat (e_last_committed_round e)) (unat (e_current_round e))"
      using bound unfolding unat_saturating_sub by (simp add: max_def split: if_split_asm; linarith)
    show ?thesis by (rule that(2) [OF eq(2) moved(2) c(2) cur]) (use below eq(1) moved(3) in simp_all)
  qed (rule that(1))
qed

section \<open>Domain-bound nodes\<close>

definition node_inv :: "validator_set \<Rightarrow> engine \<Rightarrow> bool" where
  "node_inv vs e \<longleftrightarrow> node_ok vs e \<and> all_received (e_withholding_detector e)"

lemma node_inv_consistent: "node_inv vs e \<Longrightarrow> consistent e"
  by (auto simp: node_inv_def node_ok_def consistent_def)

lemma commits_ok:
  assumes inv: "node_inv vs e" and run: "try_commit_limited cr now_ms mx live e = Some (cs, e')"
  shows "node_ok vs e'"
  using node_inv_consistent [OF inv] run
proof (cases rule: try_commit_cases)
  case (moved c e1)
  have ok1: "node_ok vs e1" unfolding moved(1) by (rule cursor_ok) (use inv moved(3) in \<open>simp_all add: node_inv_def\<close>)
  have "b_round b \<le> e_last_committed_round e1" if "b \<in> set cs" for b
    using that moved(5) by (auto simp: moved(1))
  then have "node_ok vs (tidy now_ms cs e1)" by (rule tidy_ok [OF ok1])
  then show ?thesis using moved(2) ok1 by simp
qed (use inv in \<open>simp add: node_inv_def\<close>)

lemma register_skip_ok:
  assumes ok: "node_ok vs e" and run: "register_skip_certificate cr c e = Some (Inr (n, e'))"
  shows "node_ok vs e'"
proof -
  have e': "e' = e\<lparr>e_skip_certificates := mput (sc_round c, sc_absentee c) c (e_skip_certificates e)\<rparr>"
    using run by (auto simp: register_skip_certificate_def result_simps split: option.splits)
  have same: "get_block e' = get_block e" "blocks_in_round e' = blocks_in_round e" "node_base e' = node_base e"
    by (simp_all add: e' get_block_def blocks_in_round_def node_base_def fun_eq_iff)
  have "supported vs e' b" if "supported vs e b" for b
    by (rule supported_cong [OF that]) (auto simp: e' get_block_def is_excused_for_round_def mhas_mput)
  then show ?thesis
    using ok unfolding node_ok_iff same by (simp add: indexed_def populated_def same) (simp add: e')
qed

text \<open>Without blocks there is nothing to support.\<close>

lemma cleared_ok:
  assumes "node_ok vs e" and "ce_validator_set e' = ce_validator_set e" "ce_frozen_validator_set e' = ce_frozen_validator_set e"
    "e_consensus_domain e' = e_consensus_domain e" "e_local_recovery_replay_active e' = e_local_recovery_replay_active e"
    "e_dag e' = []" "e_rounds e' = []"
  shows "node_ok vs e'"
  using assms by (simp add: node_ok_iff indexed_def populated_def get_block_def blocks_in_round_def)

lemma restore_ok:
  assumes ok: "node_ok vs e"
    and fwd: "e_last_committed_round e \<le> e_last_committed_round (restore_round_from_local_wal round committed e)"
  shows "node_ok vs (restore_round_from_local_wal round committed e)" (is "node_ok vs ?e")
proof -
  have "node_core ?e = node_core (e\<lparr>e_last_committed_round := e_last_committed_round ?e, e_committed := e_committed e\<rparr>)"
    using restore_eq [of round committed e] by (auto simp: node_core_def)
  then show ?thesis using cursor_ok [OF ok fwd] node_ok_cong by blast
qed

lemma node_step_ok:
  assumes step: "node_step cr w e e'" and fwd: "e_last_committed_round e \<le> e_last_committed_round e'"
    and inv: "node_inv vs e"
  shows "node_ok vs e'"
proof -
  have ok: "node_ok vs e" using inv by (simp add: node_inv_def)
  have same: "node_ok vs e'" if "node_core e' = node_core e" using that ok node_ok_cong by blast
  show ?thesis using step
  proof cases
    case (receives b)
    then show ?thesis by (rule receive_ok [OF ok])
  next
    case (proposes txs ts b)
    then show ?thesis by (rule propose_ok [OF ok])
  next
    case (advances ok)
    then have "node_core e' = node_core e" using advance_eq [OF advances] by (auto simp: node_core_def)
    then show ?thesis by (rule same)
  next
    case forces
    then have "node_core e' = node_core e" by (auto simp: force_advance_round_def node_core_def split: option.splits)
    then show ?thesis by (rule same)
  next
    case (commits now_ms mx live cs)
    then show ?thesis by (rule commits_ok [OF inv])
  next
    case (excuses c n)
    then show ?thesis by (rule register_skip_ok [OF ok])
  next
    case (finalises fc n)
    then have "node_core e' = node_core e" using finality_eq [OF finalises] by (auto simp: node_core_def)
    then show ?thesis by (rule same)
  next
    case (locks call)
    then show ?thesis by (intro same) (simp add: locks_only_core(1) [OF lock_step_locks_only])
  next
    case (rebases anchor cursor)
    then show ?thesis by (intro cleared_ok [OF ok]) (simp_all add: rebase_eq(1) [OF rebases])
  next
    case (restores round committed)
    then show ?thesis using restore_ok [OF ok] fwd by simp
  qed
qed

lemma forward_inv:
  assumes move: "forward_move cr w e e'" and inv: "node_inv vs e"
  shows "node_inv vs e'"
proof -
  have m: "node_move cr w e e'" and fwd: "e_last_committed_round e \<le> e_last_committed_round e'"
    using move by (simp_all add: forward_move_def)
  have "node_ok vs e'"
  proof (cases "node_step cr w e e'")
    case False
    then have "e' = reset_dag e" using m by (simp add: node_move_def)
    moreover have "node_ok vs (reset_dag e)"
      by (rule cleared_ok [of vs e]) (use inv in \<open>simp_all add: node_inv_def reset_dag_def\<close>)
    ultimately show ?thesis by simp
  qed (rule node_step_ok [OF _ fwd inv])
  then show ?thesis using received_move [OF m] inv by (simp add: node_inv_def)
qed

lemma forward_run_inv: "(forward_move cr w)\<^sup>*\<^sup>* e e' \<Longrightarrow> node_inv vs e \<Longrightarrow> node_inv vs e'"
  by (induction rule: rtranclp_induct) (blast intro: forward_inv)+

section \<open>One proposal a round\<close>

text \<open>A round in which this node has signed: it is behind the current one, or it is the current one and the author
  index still holds the block or the proposal floor has reached it.\<close>

definition signed_in :: "u64 \<Rightarrow> engine \<Rightarrow> bool" where
  "signed_in r e \<longleftrightarrow> e_last_committed_round e \<le> e_current_round e \<and>
     (r < e_current_round e \<or> r = e_current_round e \<and>
       (mhas (e_author_round_blocks e) (e_local_address e, r) \<or> 0 < e_proposal_floor e \<and> r \<le> e_proposal_floor e))"

lemma drop_author:
  "mhas (e_author_round_blocks (snd (drop_rounds c e))) (a, r) \<longleftrightarrow>
     mhas (e_author_round_blocks e) (a, r) \<and> \<not> (r < c \<and> r \<in> fst ` set (e_rounds e))"
  by (auto simp: drop_rounds_def Let_def mhas_def map_of_mretain_key)

lemma signed_frame:
  assumes "signed_in r e" and "e_local_address e' = e_local_address e"
    and "e_author_round_blocks e' = e_author_round_blocks e" and "e_current_round e' = e_current_round e"
    and "e_last_committed_round e' = e_last_committed_round e" and "e_proposal_floor e' = e_proposal_floor e"
  shows "signed_in r e'"
  using assms by (simp add: signed_in_def)

lemma drop_signed: "signed_in r e \<Longrightarrow> c \<le> e_last_committed_round e \<Longrightarrow> signed_in r (snd (drop_rounds c e))"
  by (auto simp: signed_in_def drop_author frame) (simp_all add: drop_rounds_def Let_def)

lemma prune_old_signed: "signed_in r e \<Longrightarrow> signed_in r (prune_old_rounds e)"
proof -
  assume signed: "signed_in r e"
  let ?c = "min (e_current_round e - e_retained_rounds e) (e_last_committed_round e)"
  have drop: "signed_in r (snd (drop_rounds ?c e))" using drop_signed [OF signed, of ?c] by simp
  show ?thesis
    by (cases "e_current_round e \<le> e_retained_rounds e")
      (use signed drop in \<open>simp_all add: prune_old_rounds_def Let_def case_prod_unfold signed_in_def\<close>)
qed

lemma prune_below_signed:
  assumes "signed_in r e" and "m \<le> e_last_committed_round e"
  shows "signed_in r (snd (prune_below_round m e))"
proof (cases "m < e_retained_rounds e")
  case False
  then have "m - e_retained_rounds e \<le> e_last_committed_round e"
    using assms(2) by (simp add: word_le_nat_alt unat_sub not_less)
  then have "signed_in r (snd (drop_rounds (m - e_retained_rounds e) e))" by (rule drop_signed [OF assms(1)])
  then show ?thesis using prune_below_dropped [OF False] by (auto simp: signed_in_def)
qed (use assms in \<open>simp add: prune_below_round_def\<close>)

lemma tidy_signed:
  assumes "signed_in r e" and "\<And>b. b \<in> set newly \<Longrightarrow> b_round b \<le> e_last_committed_round e"
  shows "signed_in r (tidy now_ms newly e)"
proof -
  have m: "max_round_of newly \<le> e_last_committed_round (prune_old_rounds e)"
    unfolding prune_fields by (rule max_round_le [OF assms(2)])
  define e2 where "e2 = (if newly \<noteq> [] then snd (prune_below_round (max_round_of newly) (prune_old_rounds e)) else e)"
  have "signed_in r e2" using prune_below_signed [OF prune_old_signed [OF assms(1)] m] assms(1) by (simp add: e2_def)
  moreover have "locks_only e2 (tidy now_ms newly e)"
    unfolding tidy_def e2_def [symmetric] Let_def expire_stale_fields by (meson expire_locks_only locks_only_trans)
  ultimately show ?thesis by (auto simp: locks_only_def signed_in_def)
qed

lemma commits_signed:
  assumes inv: "consistent e" and signed: "signed_in r e"
    and run: "try_commit_limited cr now_ms mx live e = Some (cs, e')"
  shows "signed_in r e'"
  using inv run
proof (cases rule: try_commit_cases)
  case (moved c e1)
  have "unat c \<le> unat (e_current_round e)" using moved(4) signed by (simp add: signed_in_def word_le_nat_alt)
  then have signed1: "signed_in r e1" using signed by (simp add: signed_in_def moved(1) word_le_nat_alt)
  have "b_round b \<le> e_last_committed_round e1" if "b \<in> set cs" for b
    using that moved(5) by (auto simp: moved(1))
  then show ?thesis using moved(2) tidy_signed [OF signed1] signed1 by simp
qed (use signed in simp)

lemma security_fields:
  "e_current_round (prune_security_history r e) = e_current_round e"
  "e_last_committed_round (prune_security_history r e) = e_last_committed_round e"
  "e_local_address (prune_security_history r e) = e_local_address e"
  "e_author_round_blocks (prune_security_history r e) = e_author_round_blocks e"
  "e_proposal_floor (prune_security_history r e) = e_proposal_floor e"
  "e_pending_cross_shard (prune_security_history r e) = e_pending_cross_shard e"
  "e_completed_cross_shard (prune_security_history r e) = e_completed_cross_shard e"
  by (simp_all add: prune_security_history_def split: option.splits)

lemma receive_fields:
  assumes "receive_block cr b e = Some (Inr e')"
  shows "e_current_round e' = e_current_round e" "e_last_committed_round e' = e_last_committed_round e"
    "e_local_address e' = e_local_address e" "e_proposal_floor e' = e_proposal_floor e"
    "e_pending_cross_shard e' = e_pending_cross_shard e" "e_completed_cross_shard e' = e_completed_cross_shard e"
    "mhas (e_author_round_blocks e) k \<Longrightarrow> mhas (e_author_round_blocks e') k"
proof -
  obtain vs ar st where "e' = prune_security_history (b_round b) ((insert_block_into_dag b e)\<lparr>ce_validator_set := vs,
      e_author_round_blocks := ar, e_withholding_detector := report_received (b_author b) (b_round b)
        (e_withholding_detector e), e_stake_tracker := st\<rparr>)"
    and ar: "\<forall>k. mhas (e_author_round_blocks e) k \<longrightarrow> mhas ar k" by (rule receive_eq [OF assms])
  then show "e_current_round e' = e_current_round e" "e_last_committed_round e' = e_last_committed_round e"
    "e_local_address e' = e_local_address e" "e_proposal_floor e' = e_proposal_floor e"
    "e_pending_cross_shard e' = e_pending_cross_shard e" "e_completed_cross_shard e' = e_completed_cross_shard e"
    "mhas (e_author_round_blocks e) k \<Longrightarrow> mhas (e_author_round_blocks e') k"
    by (simp_all add: security_fields insert_block_into_dag_def) (cases k, simp)
qed

lemma record_fields:
  assumes "record_proposal cr w b e = Some e'"
  shows "e_current_round e' = e_current_round e" "e_last_committed_round e' = e_last_committed_round e"
    "e_local_address e' = e_local_address e" "e_proposal_floor e' = e_proposal_floor e"
    "e_pending_cross_shard e' = e_pending_cross_shard e" "e_completed_cross_shard e' = e_completed_cross_shard e"
    "e_author_round_blocks e' = mput (b_author b, b_round b) (b_hash b) (e_author_round_blocks e)"
  using record_proposal_eq [OF assms] by (auto simp: security_fields insert_block_into_dag_def store_da_commitment_def)

lemma signed_grows:
  assumes "signed_in r e" and "e_local_address e' = e_local_address e" "e_current_round e' = e_current_round e"
    "e_last_committed_round e' = e_last_committed_round e" "e_proposal_floor e' = e_proposal_floor e"
    and "mhas (e_author_round_blocks e) (e_local_address e, r) \<Longrightarrow> mhas (e_author_round_blocks e') (e_local_address e, r)"
  shows "signed_in r e'"
  using assms by (auto simp: signed_in_def)

lemma signed_advanced:
  assumes "signed_in r e" and "e_current_round e < e_current_round e'" and "e_last_committed_round e' \<le> e_current_round e'"
  shows "signed_in r e'"
  using assms by (auto simp: signed_in_def)

lemma next_round_signed:
  assumes "signed_in r e" and "checked_add (e_current_round e) 1 = Some k"
  shows "signed_in r (e\<lparr>e_current_round := k, e_force_advanced := fa\<rparr>)"
proof -
  have "e_current_round e < k" using assms(2) by (simp add: checked_add_Some_iff word_less_nat_alt)
  moreover from this have "e_last_committed_round e \<le> k" using assms(1) by (auto simp: signed_in_def)
  ultimately show ?thesis by (intro signed_advanced [OF assms(1)]) simp_all
qed

lemma rebase_signed:
  assumes "signed_in r e" and "rebase_to anchor e = Inr (cursor, e')"
  shows "signed_in r e'"
proof -
  note e' = rebase_eq [OF assms(2)]
  have le: "r \<le> e_current_round e" using assms(1) by (auto simp: signed_in_def)
  show ?thesis
  proof (cases "r < max (e_current_round e) cursor")
    case False
    then have "r = e_current_round e" "cursor \<le> r" using le by (auto simp: less_max_iff_disj not_less)
    moreover from this have "0 < r" using e'(2) by (metis less_le_trans)
    ultimately show ?thesis by (simp add: e'(1) signed_in_def less_max_iff_disj max_absorb1 le_max_iff_disj)
  qed (simp add: e'(1) signed_in_def)
qed

lemma restore_signed:
  assumes "signed_in r e"
  shows "signed_in r (restore_round_from_local_wal round committed e)"
  using assms by (auto simp: restore_round_from_local_wal_def Let_def signed_in_def max_def not_le not_less split: if_splits)

lemma signed_step:
  assumes step: "node_step cr w e e'" and inv: "consistent e" and signed: "signed_in r e"
  shows "signed_in r e'"
  using step
proof cases
  case (receives b)
  note f = receive_fields [OF receives]
  show ?thesis by (rule signed_grows [OF signed]) (simp_all add: f)
next
  case (proposes txs ts b)
  then have "record_proposal cr w b e = Some e'" unfolding propose_Inr_iff by blast
  note f = record_fields [OF this]
  show ?thesis by (rule signed_grows [OF signed]) (simp_all add: f mhas_mput)
next
  case (advances ok)
  then show ?thesis using signed next_round_signed [OF signed] advance_eq [OF advances] by metis
next
  case forces
  then show ?thesis
    by (cases "checked_add (e_current_round e) 1") (simp_all add: force_advance_round_def signed next_round_signed [OF signed])
next
  case (commits now_ms mx live cs)
  then show ?thesis by (rule commits_signed [OF inv signed])
next
  case (excuses c n)
  then obtain m where e': "e' = e\<lparr>e_skip_certificates := m\<rparr>" using excuse_eq by blast
  show ?thesis by (rule signed_grows [OF signed]) (simp_all add: e')
next
  case (finalises fc n)
  then obtain h m where e': "e' = e\<lparr>e_highest_finalized_height := h, e_finality_certificates := m\<rparr>"
    using finality_eq by blast
  show ?thesis by (rule signed_grows [OF signed]) (simp_all add: e')
next
  case (locks call)
  show ?thesis unfolding locks
    by (rule signed_grows [OF signed]) (use lock_step_locks_only [of e cr w call] in \<open>auto simp: locks_only_def\<close>)
next
  case (rebases anchor cursor)
  then show ?thesis by (rule rebase_signed [OF signed])
next
  case (restores round committed)
  then show ?thesis using restore_signed [OF signed] by simp
qed

lemma signed_run:
  assumes "(node_step cr w)\<^sup>*\<^sup>* e e'" and "consistent e" and "signed_in r e"
  shows "consistent e' \<and> signed_in r e'"
  using assms(1)
proof (induction rule: rtranclp_induct)
  case (step y z)
  then show ?case using signed_step consistent_step by blast
qed (use assms in simp)

section \<open>An advanced node can propose\<close>

lemma selection_authors:
  assumes "tally (select_parent e) hs (ps, authors, stake) = Some (ps', authors', stake')"
  shows "set authors' = set authors \<union> (b_author ` set (List.map_filter (get_block e) hs) \<inter> members (ce_validator_set e))"
  using assms
proof (induction hs arbitrary: ps authors stake)
  case (Cons h hs)
  show ?case
  proof (cases "get_block e h")
    case None
    then show ?thesis using Cons by (simp add: select_parent_def List.map_filter_simps)
  next
    case (Some b)
    show ?thesis
    proof (cases "get_validator (ce_validator_set e) (b_author b)")
      case None
      then have "b_author b \<notin> members (ce_validator_set e)" by (simp add: is_validator_def flip: is_validator_iff)
      then show ?thesis using None Some Cons by (simp add: select_parent_def List.map_filter_simps)
    next
      case v: (Some v)
      then have mem: "b_author b \<in> members (ce_validator_set e)" by (simp add: is_validator_def flip: is_validator_iff)
      show ?thesis
      proof (cases "b_author b \<in> set authors")
        case True
        then show ?thesis using v Some Cons by (auto simp: select_parent_def List.map_filter_simps)
      next
        case False
        then obtain st where st: "checked_add stake (v_stake v) = Some st"
          "tally (select_parent e) hs (ps @ [h], b_author b # authors, st) = Some (ps', authors', stake')"
          using v Some Cons.prems by (auto simp: select_parent_def [of e h] split: option.splits)
        then show ?thesis using Cons.IH [OF st(2)] Some mem by (auto simp: List.map_filter_simps)
      qed
    qed
  qed
qed (simp add: List.map_filter_simps)

lemma participates_inter:
  assumes "finite A"
  shows "participates e vs r (A \<inter> members vs) \<longleftrightarrow> participates e vs r A"
  unfolding participates_def sum_weight_inter [OF assms] by (auto simp: members_def)

lemma proposal_parents_exist:
  assumes val: "valid_set (ce_validator_set e)" and nz: "r \<noteq> 0"
    and part: "participates e (ce_validator_set e) (r - 1) (set (round_authors e (r - 1)))"
  shows "\<exists>parents. proposal_parents e r = Some (Inr parents)"
proof -
  let ?hs = "sort (blocks_in_round e (r - 1))" and ?vs = "ce_validator_set e"
  have "selection_ok e (set ?hs) ([], [], 0)" by (simp add: selection_ok_def)
  then obtain ps authors stake where acc: "tally (select_parent e) ?hs ([], [], 0) = Some (ps, authors, stake)"
    and ok: "selection_ok e (set ?hs) (ps, authors, stake)"
    using tally_select [OF val, of "set ?hs" "([], [], 0)" ?hs] by auto
  have "set (List.map_filter (get_block e) ?hs) = set (List.map_filter (get_block e) (blocks_in_round e (r - 1)))"
    by (auto simp: map_filter_set)
  then have "set authors = set (round_authors e (r - 1)) \<inter> members ?vs"
    using selection_authors [OF acc] by (simp add: round_authors_def)
  then have "participates e ?vs (r - 1) (set authors)" using part by (simp add: participates_inter)
  then have "round_participation_satisfies_quorum e ?vs (r - 1) authors stake"
    using ok participation_tally by (auto simp: selection_ok_def)
  then show ?thesis using acc nz by (auto simp: proposal_parents_def)
qed

lemma tidy_cursor: "e_last_committed_round (tidy now_ms newly e) = e_last_committed_round e"
  by (simp add: tidy_def Let_def frame)

text \<open>What a node commits, and what it has decided for every round its cursor passes.\<close>

lemma try_commit_decided:
  assumes inv: "node_inv vs e" and run: "try_commit_limited cr now_ms mx live e = Some (cs, e')"
  shows "b \<in> set cs \<Longrightarrow> e_last_committed_round e \<le> b_round b \<and> get_block e (b_hash b) = Some b \<and>
      b_author b = frozen_addresses vs ! (unat (b_round b) mod length (frozen_addresses vs)) \<and>
      decide_round e vs (frozen_addresses vs) True (saturating_sub (e_current_round e) 2) (b_round b) =
        Some (Commit_Anchor (b_hash b))"
    and "e_last_committed_round e \<le> r \<Longrightarrow> r < e_last_committed_round e' \<Longrightarrow>
      passes e vs True (saturating_sub (e_current_round e) 2) (unat r)"
    and "e_last_committed_round e \<le> r \<Longrightarrow> r < e_last_committed_round e' \<Longrightarrow>
      decide_round e vs (frozen_addresses vs) True (saturating_sub (e_current_round e) 2) r = Some (Commit_Anchor h) \<Longrightarrow>
      h \<notin> set (e_committed e) \<Longrightarrow> get_block e h = Some x \<Longrightarrow> x \<in> set cs"
proof -
  have vs: "ce_frozen_validator_set e = vs" "valid_set vs" "e_consensus_domain e \<noteq> None" "indexed e"
    using inv by (auto simp: node_inv_def node_ok_def)
  have "(b \<in> set cs \<longrightarrow> e_last_committed_round e \<le> b_round b \<and> get_block e (b_hash b) = Some b \<and>
      b_author b = frozen_addresses vs ! (unat (b_round b) mod length (frozen_addresses vs)) \<and>
      decide_round e vs (frozen_addresses vs) True (saturating_sub (e_current_round e) 2) (b_round b) =
        Some (Commit_Anchor (b_hash b))) \<and>
    (e_last_committed_round e \<le> r \<longrightarrow> r < e_last_committed_round e' \<longrightarrow>
      passes e vs True (saturating_sub (e_current_round e) 2) (unat r)) \<and>
    (e_last_committed_round e \<le> r \<longrightarrow> r < e_last_committed_round e' \<longrightarrow>
      decide_round e vs (frozen_addresses vs) True (saturating_sub (e_current_round e) 2) r = Some (Commit_Anchor h) \<longrightarrow>
      h \<notin> set (e_committed e) \<longrightarrow> get_block e h = Some x \<longrightarrow> x \<in> set cs)"
    using node_inv_consistent [OF inv] run
  proof (cases rule: try_commit_cases)
    case (moved c e1)
    have cur: "e_last_committed_round e' = c" using moved(1,2) by (simp add: tidy_cursor)
    have db: "(e_consensus_domain e \<noteq> None) = True" using vs(3) by simp
    show ?thesis
    proof (rule commit_rounds_blocks [of e mx, unfolded vs(1) db, OF vs(2,4)], goal_cases)
      case (1 newly c')
      have e1: "newly = cs" "e1 = e\<lparr>e_last_committed_round := c', e_committed := append_committed newly (e_committed e)\<rparr>"
        using 1(1) moved(6) by simp_all
      have "e_last_committed_round e1 = c'" unfolding e1(2) by simp
      then have "c' = e_last_committed_round e'" unfolding cur moved(1) by simp
      then show ?case using 1(4,5,8) e1(1) by blast
    qed
  qed auto
  then show "b \<in> set cs \<Longrightarrow> e_last_committed_round e \<le> b_round b \<and> get_block e (b_hash b) = Some b \<and>
      b_author b = frozen_addresses vs ! (unat (b_round b) mod length (frozen_addresses vs)) \<and>
      decide_round e vs (frozen_addresses vs) True (saturating_sub (e_current_round e) 2) (b_round b) =
        Some (Commit_Anchor (b_hash b))"
    and "e_last_committed_round e \<le> r \<Longrightarrow> r < e_last_committed_round e' \<Longrightarrow>
      passes e vs True (saturating_sub (e_current_round e) 2) (unat r)"
    and "e_last_committed_round e \<le> r \<Longrightarrow> r < e_last_committed_round e' \<Longrightarrow>
      decide_round e vs (frozen_addresses vs) True (saturating_sub (e_current_round e) 2) r = Some (Commit_Anchor h) \<Longrightarrow>
      h \<notin> set (e_committed e) \<Longrightarrow> get_block e h = Some x \<Longrightarrow> x \<in> set cs" by blast+
qed

lemma committed_anchor_held:
  assumes "valid_set vs" and "decide_round e vs vals db fin r = Some (Commit_Anchor h)"
  shows "\<exists>b. get_block e h = Some b"
proof -
  have ne: "vals \<noteq> []" using assms(2) by (auto simp: decide_round_def)
  have "h \<in> set (anchors_of e vals r)" by (rule committed_is_anchor [OF assms ne])
  then show ?thesis by (auto simp: anchors_of_iff)
qed

lemma build_block_exists:
  "\<forall>sign. e_local_keypair e = Some sign \<longrightarrow> (\<forall>h. sign h \<noteq> None) \<Longrightarrow> \<exists>b. build_block cr e ps txs ts = Inr b"
  by (cases "e_local_keypair e") (auto simp: build_block_def Let_def split: option.split)

lemma propose_fields:
  assumes "propose_block cr w txs ts e = Some (Inr (b, e'))"
  shows "b_round b = e_current_round e" and "b_author b = e_local_address e"
    and "\<not> mhas (e_author_round_blocks e) (e_local_address e, e_current_round e)"
    and "record_proposal cr w b e = Some e'"
  using assms unfolding propose_Inr_iff may_propose_def by (auto simp: result_simps dest!: build_block_fields)

lemma less_plus_one: "(r :: u64) \<noteq> - 1 \<Longrightarrow> r < r + 1"
  using checked_add_one [of r] checked_add_Some_iff [of r 1 "r + 1"] by (simp add: word_less_nat_alt)

lemma can_propose:
  assumes "can_produce_blocks (ce_validator_set e) (e_local_address e)"
    and "\<not> mhas (e_author_round_blocks e) (e_local_address e, e_current_round e)"
    and "e_proposal_floor e = 0 \<or> e_proposal_floor e < e_current_round e"
    and "\<forall>sign. e_local_keypair e = Some sign \<longrightarrow> (\<forall>h. sign h \<noteq> None)"
    and "proposal_parents e (e_current_round e) = Some (Inr ps)"
  shows "\<exists>b e'. propose_block cr w txs ts e = Some (Inr (b, e')) \<and> b_round b = e_current_round e \<and>
    b_author b = e_local_address e \<and> b_parents b = ps \<and> b_transactions b = sort txs \<and>
    b_hash b = domain_hash_of cr e b"
proof -
  obtain b where b: "build_block cr e ps txs ts = Inr b" using build_block_exists [OF assms(4)] by blast
  have "may_propose e = Inr ()" using assms(1-3) by (auto simp: may_propose_def guard_def not_less)
  moreover obtain c where "create_da_commitment cr (case wire_transactions w (b_transactions b) of
      None \<Rightarrow> [] | Some bs \<Rightarrow> bs) (b_hash b) = Some c"
    using encode_exists [of 4 4 cr "case wire_transactions w (b_transactions b) of None \<Rightarrow> [] | Some bs \<Rightarrow> bs"]
    by (auto simp: create_da_commitment_def)
  ultimately have "\<exists>e'. propose_block cr w txs ts e = Some (Inr (b, e'))"
    unfolding propose_Inr_iff using assms(5) b by (auto simp: record_proposal_def Let_def)
  then show ?thesis using build_block_fields [OF b] by blast
qed

lemma propose_floor:
  "propose_block cr w txs ts e = Some (Inr (b, e')) \<Longrightarrow> e_proposal_floor e = 0 \<or> e_proposal_floor e < e_current_round e"
  unfolding propose_Inr_iff may_propose_def by (auto simp: result_simps not_less word_gt_0)

section \<open>Locks along a run\<close>





lemma tidy_set: "ce_validator_set (tidy now_ms newly e) = ce_validator_set e"
proof -
  have lo: "ce_validator_set (snd (expire_locks t n x)) = ce_validator_set x" for t n x
    using expire_locks_only [of x t n] by (auto simp: locks_only_def)
  have "ce_validator_set (snd (drop_rounds c x)) = ce_validator_set x" for c x by (simp add: drop_rounds_def Let_def)
  then have "ce_validator_set (prune_old_rounds x) = ce_validator_set x"
    "ce_validator_set (snd (prune_below_round m x)) = ce_validator_set x" for m x
    by (simp_all add: prune_old_rounds_def prune_below_round_def Let_def case_prod_unfold)
  then show ?thesis by (simp add: tidy_def Let_def expire_stale_fields lo)
qed

section \<open>Properties\<close>

text \<open>What backs a commit of \<open>b\<close> against the other view: no member the rule waits for is excused, namely the leader
  of the round and one correct member in the round above, in both views; or the faulty authors hold at most
  the fault tolerance and the committing view certifies the block by two-round support.\<close>

definition commit_backed :: "address set \<Rightarrow> validator_set \<Rightarrow> engine \<Rightarrow> engine \<Rightarrow> dag_block \<Rightarrow> bool" where
  "commit_backed F vs e1 e2 b \<longleftrightarrow>
     expected_in e1 vs (b_round b) (b_author b) \<and> expected_in e2 vs (b_round b) (b_author b) \<and>
       (\<exists>v. v \<notin> F \<and> expected_in e1 vs (b_round b + 1) v \<and> expected_in e2 vs (b_round b + 1) v) \<or>
     finite F \<and> sum (weight vs) F \<le> unat (fault_tolerance_stake vs) \<and>
       (\<exists>s. two_round_commit_support e1 (b_hash b) (b_round b) vs = Some (Some s))"

lemma backed_decision:
  assumes inv: "node_inv vs e1" "node_inv vs e2" and agree: "views_agree F e1 e2"
    and base: "node_base e1 \<le> unat (b_round b)" "node_base e2 \<le> unat (b_round b)"
    and bound: "unat (b_round b) + 3 < 2 ^ 64" and backed: "commit_backed F vs e1 e2 b"
    and author: "b_author b = frozen_addresses vs ! (unat (b_round b) mod length (frozen_addresses vs))"
    and dec1: "decide_round e1 vs (frozen_addresses vs) True fin1 (b_round b) = Some (Commit_Anchor (b_hash b))"
    and dec2: "decide_round e2 vs (frozen_addresses vs) True fin2 (b_round b) = Some dec"
  shows "dec \<in> {Commit_Anchor (b_hash b), Undecided, Fenced}"
proof -
  have ok: "valid_set vs" "indexed e1" "indexed e2" "linked vs (node_base e1) e1" "linked vs (node_base e2) e2"
    "complete vs (node_base e1) e1" "complete vs (node_base e2) e2"
    using inv by (auto simp: node_inv_def node_ok_def)
  have ne: "frozen_addresses vs \<noteq> []" using dec1 by (auto simp: decide_round_def)
  consider (expected) v where "expected_in e1 vs (b_round b) (b_author b)" "expected_in e2 vs (b_round b) (b_author b)"
      "v \<notin> F" "expected_in e1 vs (b_round b + 1) v" "expected_in e2 vs (b_round b + 1) v"
    | (certified) s where "finite F" "sum (weight vs) F \<le> unat (fault_tolerance_stake vs)"
      "two_round_commit_support e1 (b_hash b) (b_round b) vs = Some (Some s)"
    using backed unfolding commit_backed_def by blast
  then show ?thesis
  proof cases
    case expected
    show ?thesis
      by (rule domain_agreement [OF ok(1) agree ok(2-7) base bound refl ne expected(1,2) [unfolded author] expected(3-5) dec1 dec2])
  next
    case certified
    show ?thesis
      by (rule certified_decision [OF ok(1) certified(1,2) agree ok(2,3,5) base(2) bound refl ne
            committed_is_anchor [OF ok(1) dec1 ne] certified(3) disjI1 [OF TrueI] dec2])
  qed
qed

text \<open>C1: agreement of two running nodes of a recovery domain. Both start in a state that satisfies the node
  invariant for the same validator set and run any sequence of handlers that does not take the commit cursor
  back. If one commits a block and the commit step of the other passes the round of that block, then the other
  commits the same block in that step or had committed it before, provided the two views agree (on every
  block they share and on the blocks of authors outside \<open>F\<close>), the round is not below the base of either node
  or within three of the last round, and the commit is backed: either the leader of the round and one member
  outside \<open>F\<close> in the round above are excused in neither view, or \<open>F\<close> holds at most the fault tolerance and the
  first node certifies the block by two-round support.\<close>

theorem domain_nodes_commit_alike:
  assumes start: "node_inv vs s1" "node_inv vs s2"
    and runs: "(forward_move cr1 w1)\<^sup>*\<^sup>* s1 e1" "(forward_move cr2 w2)\<^sup>*\<^sup>* s2 e2"
    and agree: "views_agree F e1 e2"
    and c1: "try_commit_limited cr1 now1 mx1 live1 e1 = Some (cs1, e1')" "b \<in> set cs1"
    and c2: "try_commit_limited cr2 now2 mx2 live2 e2 = Some (cs2, e2')"
    and passed: "e_last_committed_round e2 \<le> b_round b" "b_round b < e_last_committed_round e2'"
    and base: "node_base e1 \<le> unat (b_round b)" "node_base e2 \<le> unat (b_round b)"
    and bound: "unat (b_round b) + 3 < 2 ^ 64"
    and backed: "commit_backed F vs e1 e2 b"
  shows "b \<in> set cs2 \<or> b_hash b \<in> set (e_committed e2)"
proof -
  have inv: "node_inv vs e1" "node_inv vs e2" using forward_run_inv runs start by blast+
  then have val: "valid_set vs" by (simp add: node_inv_def node_ok_def)
  note d1 = try_commit_decided(1) [OF inv(1) c1]
  let ?vals = "frozen_addresses vs" and ?fin = "saturating_sub (e_current_round e2) 2"
  obtain dec where dec: "decide_round e2 vs ?vals True ?fin (b_round b) = Some dec"
    using decide_round_total [OF val] by blast
  have "dec \<in> {Commit_Anchor (b_hash b), Undecided, Fenced}"
    using backed_decision [OF inv agree base bound backed _ _ dec] d1 by blast
  moreover have "passes e2 vs True ?fin (unat (b_round b))" by (rule try_commit_decided(2) [OF inv(2) c2 passed])
  ultimately have commit: "decide_round e2 vs ?vals True ?fin (b_round b) = Some (Commit_Anchor (b_hash b))"
    using dec by (auto simp: passes_def)
  then obtain b2 where "get_block e2 (b_hash b) = Some b2"
    using committed_anchor_held [OF val commit] by blast
  moreover have "b2 = b" using agree d1 calculation unfolding views_agree_def by blast
  ultimately show ?thesis using try_commit_decided(3) [OF inv(2) c2 passed commit] by blast
qed

text \<open>C2: a node, bound to a domain or not, signs at most one block a round. It starts consistent, with a valid frozen
  set and the commit cursor not beyond the round, as a new engine on a valid set is. Between two of its
  proposals any of the handlers of \<open>node_step\<close> run: pruning of the author index, repositioning to a checkpoint
  (which clears that index) and restoring the cursors of the log included, \<open>reset_dag\<close> excluded. Then the round
  grows strictly. The hash of the first proposal, and of those in between, is not one of a block already held.\<close>

theorem proposes_once_per_round:
  assumes sound: "sound_node e"
    and first: "propose_block cr w txs ts e = Some (Inr (b, e'))" "get_block e (b_hash b) = None"
    and run: "(node_step cr w)\<^sup>*\<^sup>* e' e2"
    and second: "propose_block cr w txs2 ts2 e2 = Some (Inr (b2, e2'))"
  shows "b_round b < b_round b2"
proof -
  have r: "b_round b = e_current_round e" "b_author b = e_local_address e" "b_round b2 = e_current_round e2"
    and free: "\<not> mhas (e_author_round_blocks e2) (e_local_address e2, e_current_round e2)"
    "e_proposal_floor e2 = 0 \<or> e_proposal_floor e2 < e_current_round e2"
    using propose_fields(1-2) [OF first(1)] propose_fields(1,3) [OF second] propose_floor [OF second] by auto
  note f = record_fields [OF propose_fields(4) [OF first(1)]]
  have "signed_in (b_round b) e'" using sound r(1,2) by (simp add: signed_in_def sound_node_def f mhas_mput)
  moreover have "consistent e'"
    using consistent_step [OF proposes [OF first]] sound by (simp add: sound_node_def)
  ultimately have "signed_in (b_round b) e2" using signed_run [OF run] by blast
  then show ?thesis using free r(3) by (auto simp: signed_in_def)
qed

text \<open>C3: progress. When \<open>advance_round\<close> moves a node to a new round, the node can propose there at once,
  provided its live set is valid, it may produce blocks, it has no block of its own in that round yet, the
  round is above its proposal floor and its key signs: \<open>propose_block\<close> returns a block of the new round,
  whatever the transactions.\<close>

theorem advanced_node_can_propose:
  assumes "valid_set (ce_validator_set e)" and adv: "advance_round e = Some (True, e')"
    and "can_produce_blocks (ce_validator_set e) (e_local_address e)"
    and "\<not> mhas (e_author_round_blocks e) (e_local_address e, e_current_round e + 1)"
    and "e_proposal_floor e = 0 \<or> e_proposal_floor e \<le> e_current_round e"
    and "\<forall>sign. e_local_keypair e = Some sign \<longrightarrow> (\<forall>h. sign h \<noteq> None)"
  shows "\<exists>b e''. propose_block cr w txs ts e' = Some (Inr (b, e'')) \<and> b_round b = e_current_round e + 1 \<and>
    b_author b = e_local_address e \<and> b_hash b = domain_hash_of cr e b"
proof -
  have part: "participates e (ce_validator_set e) (e_current_round e) (set (round_authors e (e_current_round e)))"
    and e': "e' = e\<lparr>e_current_round := e_current_round e + 1, e_force_advanced := False\<rparr>" and top: "e_current_round e \<noteq> - 1"
    using adv advance_round_valid [OF assms(1)] by (auto split: if_splits)
  have same: "participates e' = participates e" "round_authors e' = round_authors e"
    by (auto simp: fun_eq_iff participates_def round_authors_def get_block_def blocks_in_round_def is_excused_for_round_def e'
        List.map_filter_def)
  have "e_current_round e + 1 \<noteq> 0" using top by (metis add_eq_0_iff2)
  then obtain ps where ps: "proposal_parents e' (e_current_round e') = Some (Inr ps)"
    using proposal_parents_exist [of e' "e_current_round e + 1"] part assms(1) same by (auto simp: e')
  have "e_current_round e < e_current_round e + 1" by (rule less_plus_one [OF top])
  then have "\<exists>b e''. propose_block cr w txs ts e' = Some (Inr (b, e'')) \<and> b_round b = e_current_round e' \<and>
      b_author b = e_local_address e' \<and> b_parents b = ps \<and> b_transactions b = sort txs \<and>
      b_hash b = domain_hash_of cr e' b"
    by (intro can_propose ps) (use assms(3-6) in \<open>auto simp: e'\<close>)
  then show ?thesis by (auto simp: e' domain_hash_of_def)
qed


text \<open>C25: no node ever slashes for withholding. The detector is told to expect blocks of the local node only, and
  marks each as received in the same step; so in every state a node with a new detector reaches, bound to a
  domain or not, it reports nobody, for any window, however many blocks the other members withhold, and the
  maintenance of a commit step leaves the live validator set alone.\<close>

theorem withholding_never_reported:
  assumes "e_withholding_detector s = detector_new" and "(node_move cr w)\<^sup>*\<^sup>* s e"
  shows "detect_withholding window (e_withholding_detector e) = [] \<and>
    (\<exists>e'. maintain_live_state cr now_ms newly e = Some e' \<and> ce_validator_set e' = ce_validator_set e)"
proof -
  have det: "all_received (e_withholding_detector e)" using received_run [OF assms(2)] assms(1) by simp
  have "ce_validator_set (tidy now_ms newly e) = ce_validator_set e" by (rule tidy_set)
  then show ?thesis using all_received_no_report [OF det] maintain_tidy [OF det] by blast
qed

section \<open>Witnesses\<close>

lemma solo_node: "node_inv duty_set solo_view" "node_base solo_view = 0"
proof -
  show base: "node_base solo_view = 0" by (simp add: node_base_def solo_view_def engine_new_def)
  have "populated solo_view" by (simp add: populated_def solo_lookup)
  then show "node_inv duty_set solo_view"
    using duty_set_valid solo_ok(1-3) base
    by (simp add: node_inv_def node_ok_def solo_lookup) (simp add: solo_view_def engine_new_def)
qed

lemma solo_fields:
  "ce_validator_set solo_view = duty_set" "e_current_round solo_view = 2" "e_last_committed_round solo_view = 0"
  "e_committed solo_view = []" "e_consensus_domain solo_view = Some sample_domain" "e_local_address solo_view = 32"
  "e_local_keypair solo_view = None" "e_author_round_blocks solo_view = []" "e_proposal_floor solo_view = 0"
  "vs_epoch duty_set = 1"
  by (simp_all add: solo_view_def engine_new_def duty_set_def)

lemma solo_authors: "round_authors solo_view 1 = [32]" "round_authors solo_view 2 = [32]"
  by (simp_all add: round_authors_def solo_lookup List.map_filter_simps solo_block_def)

lemma solo_participates: "32 \<in> A \<Longrightarrow> finite A \<Longrightarrow> participates e duty_set r A"
proof -
  assume A: "32 \<in> A" "finite A"
  have "weight duty_set 32 = 50000000" by (simp add: weight_def solo_validator)
  moreover have "weight duty_set 32 \<le> sum (weight duty_set) A" using A by (intro member_le_sum) auto
  ultimately show ?thesis
    using A(1) by (simp add: participates_def solo_validator) (simp add: duty_set_def solo_set_def)
qed

lemma solo_producer: "can_produce_blocks duty_set 32"
  by (simp add: can_produce_blocks_def solo_validator)

text \<open>The single member's view one round later.\<close>

definition ahead :: engine where
  "ahead = solo_view\<lparr>e_current_round := 3, e_force_advanced := False\<rparr>"

lemma solo_advance: "advance_round solo_view = Some (True, ahead)"
proof -
  have "participates solo_view duty_set 2 (set (round_authors solo_view 2))"
    by (rule solo_participates) (simp_all add: solo_authors)
  then show ?thesis using advance_round_valid [of solo_view] duty_set_valid by (simp add: solo_fields ahead_def)
qed

theorem advanced_node_can_propose_witness:
  "\<exists>b e''. propose_block toy_crypto sample_wire [] 0 ahead = Some (Inr (b, e'')) \<and> b_round b = 3"
  using advanced_node_can_propose [OF _ solo_advance, of toy_crypto sample_wire "[]" 0] duty_set_valid solo_producer
  by (auto simp: solo_fields mhas_def)

lemma ahead_lookup:
  "get_block ahead = get_block solo_view" "blocks_in_round ahead = blocks_in_round solo_view"
  "is_excused_for_round ahead r a = False" "ce_frozen_validator_set ahead = duty_set" "ce_validator_set ahead = duty_set"
  "e_current_round ahead = 3" "e_last_committed_round ahead = 0" "e_committed ahead = []"
  "e_consensus_domain ahead = Some sample_domain" "e_local_address ahead = 32" "e_local_keypair ahead = None"
  "e_author_round_blocks ahead = []" "e_proposal_floor ahead = 0" "e_withholding_detector ahead = detector_new"
  "e_recovery_bootstrap_round ahead = None"
  by (auto simp: ahead_def solo_view_def engine_new_def duty_set_def get_block_def blocks_in_round_def
      is_excused_for_round_def mhas_def fun_eq_iff)

lemma ahead_node: "node_inv duty_set ahead" "sound_node ahead"
proof -
  have "forward_move toy_crypto sample_wire solo_view ahead"
    by (simp add: forward_move_def node_move_def advances [OF solo_advance] solo_fields ahead_lookup)
  then show inv: "node_inv duty_set ahead" using forward_inv solo_node(1) by blast
  then show "sound_node ahead" by (simp add: sound_node_def node_inv_consistent ahead_lookup)
qed

lemma ahead_proposes:
  obtains b e' where "propose_block toy_crypto sample_wire [] 0 ahead = Some (Inr (b, e'))" "b_round b = 3"
    "b_author b = 32" "b_hash b = 160"
proof -
  have part: "participates ahead duty_set 2 (set (round_authors solo_view 2))"
    by (rule solo_participates) (simp_all add: solo_authors)
  have "proposal_parents ahead 3 = Some (Inr [3])"
    using part by (simp add: proposal_parents_def is_recovery_bootstrap_round_def ahead_lookup solo_lookup select_parent_def
        solo_block_def solo_validator checked_add_def)
      (simp add: round_participation_satisfies_quorum_def solo_validator requires_full_round_participation_def list_all_iff
        ahead_def solo_view_def engine_new_def duty_set_def solo_set_def)
  then obtain b e' where "propose_block toy_crypto sample_wire [] 0 ahead = Some (Inr (b, e'))" "b_round b = 3"
    "b_author b = 32" "b_parents b = [3]" "b_hash b = domain_hash_of toy_crypto ahead b" "b_transactions b = []"
    using can_propose [of ahead "[3]" toy_crypto sample_wire "[]" 0] solo_producer
    by (auto simp: ahead_lookup mhas_def)
  moreover from this have "b_hash b = 160"
    by (simp add: domain_hash_of_def ahead_lookup compute_hash_in_domain_def domain_be_bytes_def block_body_def toy_crypto_def)
  ultimately show ?thesis using that by blast
qed

text \<open>The view after that proposal: the earlier blocks and the new one.\<close>

lemma proposed_lookup:
  assumes "propose_block toy_crypto sample_wire [] 0 ahead = Some (Inr (b, e'))" and "b_hash b = 160" "b_round b = 3"
  shows "get_block e' h = (if h = 160 then Some b else get_block solo_view h)"
    and "blocks_in_round e' r = (if r = 3 then [160] else blocks_in_round solo_view r)"
    and "ce_validator_set e' = duty_set" "ce_frozen_validator_set e' = duty_set" "e_consensus_domain e' = Some sample_domain"
    and "is_excused_for_round e' r a = False" "e_recovery_bootstrap_round e' = None"
    and "e_local_keypair e' = None" "e_committed e' = []"
proof -
  have rec: "record_proposal toy_crypto sample_wire b ahead = Some e'" using assms(1) unfolding propose_Inr_iff by blast
  obtain c wd where e': "e' = prune_security_history 3 ((store_da_commitment c ((insert_block_into_dag b ahead)
      \<lparr>e_author_round_blocks := mput (b_author b, b_round b) (b_hash b) (e_author_round_blocks ahead)\<rparr>))
      \<lparr>e_withholding_detector := wd\<rparr>)"
    using record_proposal_eq [OF rec] assms(3) by auto
  have core: "e_dag e' = e_dag (insert_block_into_dag b ahead)" "e_rounds e' = e_rounds (insert_block_into_dag b ahead)"
    "e_skip_certificates e' = e_skip_certificates ahead"
    by (simp_all add: e' prune_security_history_def PRUNE_DEPTH_def store_da_commitment_def insert_block_into_dag_def)
  have "get_block e' = get_block (insert_block_into_dag b ahead)" "blocks_in_round e' = blocks_in_round (insert_block_into_dag b ahead)"
    by (simp_all add: get_block_def blocks_in_round_def core fun_eq_iff)
  then show "get_block e' h = (if h = 160 then Some b else get_block solo_view h)"
    "blocks_in_round e' r = (if r = 3 then [160] else blocks_in_round solo_view r)"
    by (simp_all add: insert_lookup ahead_lookup assms solo_lookup)
  show "ce_validator_set e' = duty_set" "ce_frozen_validator_set e' = duty_set" "e_consensus_domain e' = Some sample_domain"
    "e_recovery_bootstrap_round e' = None" "e_local_keypair e' = None" "e_committed e' = []"
    by (simp_all add: e' prune_security_history_def PRUNE_DEPTH_def store_da_commitment_def insert_block_into_dag_def ahead_lookup)
  show "is_excused_for_round e' r a = False"
    using ahead_lookup(3) [of r a] by (simp add: is_excused_for_round_def core)
qed

lemma solo_like_decides:
  assumes "\<And>h. h \<in> {1, 2, 3} \<Longrightarrow> get_block e h = get_block solo_view h"
    and "\<And>r. r \<in> {0, 1, 2} \<Longrightarrow> blocks_in_round e r = blocks_in_round solo_view r"
  shows "decide_round e duty_set [32] True fin 0 = Some (Commit_Anchor 1)"
  by (simp add: decide_round_def anchors_of_def two_round_commit_support_def certifiers_def List.map_filter_simps
      assms solo_lookup count_member_def solo_validator checked_add_def solo_block_def)

lemma solo_like_commits:
  assumes "\<And>h. h \<in> {1, 2, 3} \<Longrightarrow> get_block e h = get_block solo_view h"
    and "\<And>r. r \<in> {0, 1, 2} \<Longrightarrow> blocks_in_round e r = blocks_in_round solo_view r"
    and "ce_frozen_validator_set e = duty_set" "e_consensus_domain e = Some sample_domain" "e_current_round e = 3"
    "e_last_committed_round e = 0" "e_committed e = []"
  shows "\<exists>e'. try_commit_limited toy_crypto 0 1 False e = Some ([solo_block 1 0 []], e') \<and> e_last_committed_round e' = 1"
proof -
  have "round_range 0 1 = [0, 1 :: u64]" by (simp add: round_range_def)
  moreover have "saturating_sub 3 2 = (1 :: u64)" by (simp add: saturating_sub_def)
  ultimately show ?thesis
    using solo_like_decides [OF assms(1,2)]
    by (simp add: try_commit_limited_def commit_rounds_def Let_def assms solo_lookup solo_validator solo_fields)
qed

text \<open>Two different views: the second has received the proposal of round 3, the first has not. Both commit the
  block of round 0.\<close>

theorem domain_nodes_commit_alike_witness:
  "\<exists>b e2 cs e2'. propose_block toy_crypto sample_wire [] 0 ahead = Some (Inr (b, e2)) \<and> get_block ahead (b_hash b) = None \<and>
     try_commit_limited toy_crypto 0 1 False e2 = Some (cs, e2') \<and>
     (solo_block 1 0 [] \<in> set cs \<or> 1 \<in> set (e_committed e2))"
proof -
  obtain b e2 where p: "propose_block toy_crypto sample_wire [] 0 ahead = Some (Inr (b, e2))" "b_round b = 3"
    "b_author b = 32" "b_hash b = 160" by (rule ahead_proposes)
  note look = proposed_lookup [OF p(1,4,2)]
  note f = record_fields [OF propose_fields(4) [OF p(1)], unfolded ahead_lookup]
  have fresh: "get_block ahead (b_hash b) = None" by (simp add: ahead_lookup solo_lookup p(4))
  obtain e1' where c1: "try_commit_limited toy_crypto 0 1 False ahead = Some ([solo_block 1 0 []], e1')"
    using solo_like_commits [of ahead] by (auto simp: ahead_lookup)
  have "\<exists>e'. try_commit_limited toy_crypto 0 1 False e2 = Some ([solo_block 1 0 []], e') \<and> e_last_committed_round e' = 1"
    by (rule solo_like_commits) (auto simp: look f)
  then obtain e2' where c2: "try_commit_limited toy_crypto 0 1 False e2 = Some ([solo_block 1 0 []], e2')" "e_last_committed_round e2' = 1"
    by blast
  have sf: "b_round (solo_block h n ps) = n" "b_author (solo_block h n ps) = 32" "b_hash (solo_block h n ps) = h" for h n ps
    by (simp_all add: solo_block_def)
  have r1: "(forward_move toy_crypto sample_wire)\<^sup>*\<^sup>* solo_view ahead"
    by (rule r_into_rtranclp) (simp add: forward_move_def node_move_def advances [OF solo_advance] solo_fields ahead_lookup)
  have "forward_move toy_crypto sample_wire ahead e2"
    by (simp add: forward_move_def node_move_def proposes [OF p(1) fresh] f ahead_lookup)
  then have r2: "(forward_move toy_crypto sample_wire)\<^sup>*\<^sup>* solo_view e2" using r1 by (rule rtranclp.rtrancl_into_rtrancl [rotated])
  have agree: "views_agree {} ahead e2"
    by (auto simp: views_agree_def ahead_lookup look solo_lookup sf p split: if_splits)
  have exp: "expected_in ahead duty_set n 32" "expected_in e2 duty_set n 32" for n
    by (simp_all add: expected_in_def ahead_lookup look) (simp_all add: duty_set_def solo_set_def)
  have "solo_block 1 0 [] \<in> set [solo_block 1 0 []] \<or> b_hash (solo_block 1 0 []) \<in> set (e_committed e2)"
    by (rule domain_nodes_commit_alike [OF solo_node(1) solo_node(1) r1 r2 agree c1 _ c2(1)])
      (use c2(2) exp in \<open>auto simp: sf f node_base_def ahead_lookup look commit_backed_def\<close>)
  then show ?thesis using p(1) fresh c2(1) by (intro exI conjI) (auto simp: sf)
qed

text \<open>Two proposals of the single member; between them the cursors are restored from the log and the round advances.\<close>

theorem proposes_once_per_round_witness:
  "\<exists>b e' e2 b2 e2'. propose_block toy_crypto sample_wire [] 0 ahead = Some (Inr (b, e')) \<and>
     advance_round (restore_round_from_local_wal 3 0 e') = Some (True, e2) \<and>
     propose_block toy_crypto sample_wire [] 1 e2 = Some (Inr (b2, e2')) \<and> b_round b < b_round b2"
proof -
  obtain b e' where p: "propose_block toy_crypto sample_wire [] 0 ahead = Some (Inr (b, e'))" "b_round b = 3"
    "b_author b = 32" "b_hash b = 160" by (rule ahead_proposes)
  note look = proposed_lookup [OF p(1,4,2)]
  note f = record_fields [OF propose_fields(4) [OF p(1)], unfolded ahead_lookup p]
  have fresh: "get_block ahead (b_hash b) = None" by (simp add: ahead_lookup solo_lookup p(4))
  define x where "x = restore_round_from_local_wal 3 0 e'"
  have x: "x = e'\<lparr>e_proposal_floor := 3\<rparr>" by (simp add: x_def restore_round_from_local_wal_def f max_def)
  define e2 where "e2 = x\<lparr>e_current_round := 4, e_force_advanced := False\<rparr>"
  have authors: "set (round_authors x 3) = {32}" "round_authors e2 3 = round_authors x 3"
    using look(1,2) p(3) unfolding round_authors_def
    by (simp_all add: x e2_def get_block_def blocks_in_round_def List.map_filter_simps)
  have part: "participates y duty_set 3 (set (round_authors x 3))" for y by (rule solo_participates) (simp_all add: authors)
  have adv: "advance_round x = Some (True, e2)"
    using advance_round_valid [of x] duty_set_valid part by (simp add: x e2_def f look)
  obtain ps where "proposal_parents e2 4 = Some (Inr ps)"
    using proposal_parents_exist [of e2 4] part authors duty_set_valid by (auto simp: e2_def x f look)
  then obtain b2 e2' where second: "propose_block toy_crypto sample_wire [] 1 e2 = Some (Inr (b2, e2'))"
    using can_propose [of e2 ps toy_crypto sample_wire "[]" 1] solo_producer by (auto simp: e2_def x f look mhas_def)
  have "node_step toy_crypto sample_wire e' x" unfolding x_def by (rule restores)
  then have run: "(node_step toy_crypto sample_wire)\<^sup>*\<^sup>* e' e2"
    using advances [OF adv, of toy_crypto sample_wire] by (meson rtranclp.simps)
  have "b_round b < b_round b2" by (rule proposes_once_per_round [OF ahead_node(2) p(1) fresh run second])
  then show ?thesis using p(1) adv second unfolding x_def by blast
qed



theorem withholding_never_reported_witness:
  "\<exists>b e e'. propose_block toy_crypto sample_wire [] 0 ahead = Some (Inr (b, e)) \<and>
     wd_expected (e_withholding_detector e) = [(32, [3])] \<and> detect_withholding 100 (e_withholding_detector e) = [] \<and>
     maintain_live_state toy_crypto 0 [] e = Some e' \<and> ce_validator_set e' = duty_set"
proof -
  obtain b e where p: "propose_block toy_crypto sample_wire [] 0 ahead = Some (Inr (b, e))" "b_round b = 3"
    "b_author b = 32" "b_hash b = 160" by (rule ahead_proposes)
  have fresh: "get_block ahead (b_hash b) = None" by (simp add: ahead_lookup solo_lookup p(4))
  have "node_move toy_crypto sample_wire ahead e" by (simp add: node_move_def proposes [OF p(1) fresh])
  then have run: "(node_move toy_crypto sample_wire)\<^sup>*\<^sup>* ahead e" by blast
  have "wd_expected (e_withholding_detector e) = [(32, [3])]"
    using record_proposal_eq [OF propose_fields(4) [OF p(1)]]
    by (auto simp: p ahead_lookup prune_security_history_def PRUNE_DEPTH_def report_received_def report_expected_def
        detector_new_def mentry_def)
  moreover have "detect_withholding 100 (e_withholding_detector e) = [] \<and>
      (\<exists>e'. maintain_live_state toy_crypto 0 [] e = Some e' \<and> ce_validator_set e' = ce_validator_set e)"
    by (rule withholding_never_reported [OF ahead_lookup(14) run])
  ultimately show ?thesis using p(1) proposed_lookup(3) [OF p(1,4,2)] by auto
qed

section \<open>A reset node signs again\<close>

text \<open>\<open>reset_dag\<close> is not a step of \<open>node_step\<close>: it takes the round back to 0 and empties the author index without
  raising the proposal floor, so the node can sign a second block in a round it has signed in.\<close>

lemma reset_signs_again:
  "\<exists>b e' b2 e2. propose_block toy_crypto sample_wire [] 0 (engine_new duty_set 32 None False) = Some (Inr (b, e')) \<and>
     propose_block toy_crypto sample_wire [1] 0 (reset_dag e') = Some (Inr (b2, e2)) \<and>
     b_author b2 = b_author b \<and> b_round b2 = b_round b \<and> b2 \<noteq> b"
proof -
  let ?s = "engine_new duty_set 32 None False"
  have s: "ce_validator_set ?s = duty_set" "e_current_round ?s = 0" "e_local_address ?s = 32" "e_local_keypair ?s = None"
    "e_author_round_blocks ?s = []" "e_proposal_floor ?s = 0" by (simp_all add: engine_new_def)
  obtain b e' where one: "propose_block toy_crypto sample_wire [] 0 ?s = Some (Inr (b, e'))" "b_round b = 0" "b_author b = 32"
    "b_transactions b = []"
    using can_propose [of ?s "[]" toy_crypto sample_wire "[]" 0] solo_producer by (auto simp: s mhas_def proposal_parents_def)
  note f = record_fields [OF propose_fields(4) [OF one(1)], unfolded s]
  have r: "ce_validator_set (reset_dag e') = duty_set" "e_local_keypair (reset_dag e') = None"
    using record_proposal_eq [OF propose_fields(4) [OF one(1)]]
    by (auto simp: reset_dag_def prune_security_history_def store_da_commitment_def insert_block_into_dag_def engine_new_def
        split: option.splits)
  have r2: "e_current_round (reset_dag e') = 0" "e_author_round_blocks (reset_dag e') = []" "e_local_address (reset_dag e') = 32"
    "e_proposal_floor (reset_dag e') = 0" by (simp_all add: reset_dag_def f)
  obtain b2 e2 where "propose_block toy_crypto sample_wire [1] 0 (reset_dag e') = Some (Inr (b2, e2))" "b_round b2 = 0"
    "b_author b2 = 32" "b_transactions b2 = [1]"
    using can_propose [of "reset_dag e'" "[]" toy_crypto sample_wire "[1]" 0] solo_producer
    by (auto simp: r r2 mhas_def proposal_parents_def)
  then show ?thesis using one by (metis list.discI)
qed

end
