(* ===== verification/Arc_Queue.thy ===== *)
theory Arc_Queue
  imports Arc_Prelude
begin

text \<open>
  The fair call queue of \<open>crates/arc-assign/src/queue.rs\<close>: a bounded queue per worker that takes
  turns between requests. Counters of type \<open>usize\<close> are natural numbers; the invariant \<open>fq_ok\<close>
  shows that none of the subtractions goes below zero. The two \<open>expect\<close> calls of \<open>next\<close> are the
  value \<open>None\<close>.

  The queue is a machine over \<open>push\<close>, \<open>cancel\<close> and \<open>next\<close>. Its invariant is kept by every
  operation, \<open>next\<close> never panics, no call is lost or duplicated, and a request waits for at most
  as many other calls as there are requests before it in the turn order.
\<close>

section \<open>Model\<close>

record call =
  call_request :: hash256
  call_id :: hash256
  call_deadline :: u64

datatype queue_error = Full nat

datatype next_call = Run call | Expired "call list" | Idle

record fair_queue =
  fq_capacity :: nat
  fq_len :: nat
  fq_calls :: "(hash256, call list) store"
  fq_order :: "hash256 list"

definition fq_new :: "nat \<Rightarrow> fair_queue" where
  "fq_new capacity = \<lparr>fq_capacity = capacity, fq_len = 0, fq_calls = [], fq_order = []\<rparr>"

definition fq_is_empty :: "fair_queue \<Rightarrow> bool" where
  "fq_is_empty q \<longleftrightarrow> fq_len q = 0"

definition queued :: "fair_queue \<Rightarrow> hash256 \<Rightarrow> call list" where
  "queued q k = (case map_of (fq_calls q) k of None \<Rightarrow> [] | Some cs \<Rightarrow> cs)"

definition fq_push :: "call \<Rightarrow> fair_queue \<Rightarrow> queue_error + fair_queue" where
  "fq_push c q =
     (if fq_len q \<ge> fq_capacity q then Inl (Full (fq_capacity q))
      else let key = call_request c; queue = queued q key in
        Inr (q\<lparr>fq_order := (if queue = [] \<and> key \<notin> set (fq_order q)
                            then fq_order q @ [key] else fq_order q),
               fq_calls := mput key (queue @ [c]) (fq_calls q),
               fq_len := fq_len q + 1\<rparr>))"

definition fq_cancel :: "hash256 \<Rightarrow> fair_queue \<Rightarrow> nat \<times> fair_queue" where
  "fq_cancel request q =
     (let removed = length (queued q request) in
      (removed, q\<lparr>fq_calls := mdel request (fq_calls q),
                  fq_order := filter (\<lambda>k. k \<noteq> request) (fq_order q),
                  fq_len := fq_len q - removed\<rparr>))"

text \<open>The first half of \<open>next\<close>: the calls past their deadline leave every queue, in key order,
  and the requests left without calls leave the turn order.\<close>

definition live_calls :: "u64 \<Rightarrow> (hash256, call list) store \<Rightarrow> (hash256, call list) store" where
  "live_calls now m = map (\<lambda>(k, cs). (k, filter (\<lambda>c. call_deadline c > now) cs)) m"

definition gone_calls :: "u64 \<Rightarrow> (hash256, call list) store \<Rightarrow> call list" where
  "gone_calls now m = concat (map (\<lambda>(_, cs). filter (\<lambda>c. \<not> call_deadline c > now) cs) m)"

definition fq_expire :: "u64 \<Rightarrow> fair_queue \<Rightarrow> call list \<times> fair_queue" where
  "fq_expire now q =
     (let calls = mretain (\<lambda>_ cs. cs \<noteq> []) (live_calls now (fq_calls q));
          expired = gone_calls now (fq_calls q) in
      (expired, q\<lparr>fq_len := fq_len q - length expired,
                  fq_calls := calls,
                  fq_order := filter (mhas calls) (fq_order q)\<rparr>))"

text \<open>The second half: one call of the request whose turn it is.\<close>

definition fq_take :: "fair_queue \<Rightarrow> (next_call \<times> fair_queue) option" where
  "fq_take q =
     (case fq_order q of
        [] \<Rightarrow> Some (Idle, q)
      | key # order \<Rightarrow>
          (case map_of (fq_calls q) key of
             None \<Rightarrow> None
           | Some [] \<Rightarrow> None
           | Some (c # queue) \<Rightarrow>
               Some (Run c,
                 (if queue = []
                  then q\<lparr>fq_order := order, fq_len := fq_len q - 1, fq_calls := mdel key (fq_calls q)\<rparr>
                  else q\<lparr>fq_order := order @ [key], fq_len := fq_len q - 1,
                         fq_calls := mput key queue (fq_calls q)\<rparr>))))"

definition fq_next :: "u64 \<Rightarrow> fair_queue \<Rightarrow> (next_call \<times> fair_queue) option" where
  "fq_next now q =
     (let (expired, q') = fq_expire now q in
      if expired \<noteq> [] then Some (Expired expired, q') else fq_take q')"

section \<open>Invariant\<close>

definition all_queued :: "fair_queue \<Rightarrow> call multiset" where
  "all_queued q = mset (concat (map snd (fq_calls q)))"

definition fq_ok :: "fair_queue \<Rightarrow> bool" where
  "fq_ok q \<longleftrightarrow> mwf (fq_calls q)
     \<and> (\<forall>(k, cs) \<in> set (fq_calls q). cs \<noteq> [] \<and> (\<forall>c \<in> set cs. call_request c = k))
     \<and> distinct (fq_order q) \<and> set (fq_order q) = fst ` set (fq_calls q)
     \<and> fq_len q = size (all_queued q)
     \<and> fq_len q \<le> fq_capacity q"

lemma fq_ok_new: "fq_ok (fq_new n)"
  by (simp add: fq_ok_def fq_new_def all_queued_def)

lemma fq_ok_len: "fq_ok q \<Longrightarrow> fq_len q = size (all_queued q)"
  by (simp add: fq_ok_def)

lemma queued_Some: "map_of (fq_calls q) k = Some cs \<Longrightarrow> queued q k = cs"
  by (simp add: queued_def)

lemma queued_in_order:
  assumes "fq_ok q"
  shows "k \<in> set (fq_order q) \<longleftrightarrow> queued q k \<noteq> []"
proof -
  have "k \<in> set (fq_order q) \<longleftrightarrow> mhas (fq_calls q) k"
    using assms by (simp add: fq_ok_def mhas_iff)
  also have "\<dots> \<longleftrightarrow> queued q k \<noteq> []"
    using assms by (auto simp: mhas_def queued_def fq_ok_def dest!: map_of_SomeD split: option.splits)
  finally show ?thesis .
qed

lemma queued_calls:
  assumes "fq_ok q" "queued q k \<noteq> []"
  shows "map_of (fq_calls q) k = Some (queued q k)" "\<forall>c \<in> set (queued q k). call_request c = k"
proof -
  show *: "map_of (fq_calls q) k = Some (queued q k)"
    using assms by (simp add: queued_def split: option.splits)
  show "\<forall>c \<in> set (queued q k). call_request c = k"
    using assms(1) map_of_SomeD [OF *] by (auto simp: fq_ok_def)
qed

text \<open>How the calls of the whole store change when one queue does.\<close>

lemma mset_mput_queue:
  "mwf m \<Longrightarrow> mset (concat (map snd (mput k cs m))) + mset (case map_of m k of None \<Rightarrow> [] | Some v \<Rightarrow> v)
    = mset (concat (map snd m)) + mset cs"
proof (induction k cs m rule: mput.induct)
  case (2 k cs k' cs' m)
  have "k < k' \<Longrightarrow> map_of m k = None"
    using 2(2) by (fastforce simp: mwf_Cons map_of_eq_None_iff)
  then show ?case using 2 by (auto simp: mwf_Cons ac_simps)
qed simp

lemma mset_mdel_queue:
  "mwf m \<Longrightarrow> mset (concat (map snd (mdel k m))) + mset (case map_of m k of None \<Rightarrow> [] | Some v \<Rightarrow> v)
    = mset (concat (map snd m))"
proof (induction m)
  case (Cons a m)
  obtain k' cs' where a: "a = (k', cs')" by (cases a)
  have "k' = k \<Longrightarrow> map_of m k = None"
    using Cons(2) a by (fastforce simp: mwf_Cons map_of_eq_None_iff)
  moreover have "k' = k \<Longrightarrow> mdel k m = m"
    using Cons(2) a by (intro mdel_absent) (auto simp: mwf_Cons mhas_iff)
  ultimately show ?case
    using Cons a by (auto simp: mwf_Cons mdel_def ac_simps split: option.splits)
qed (simp add: mdel_def)

lemma mset_expire:
  "mset (gone_calls now m) + mset (concat (map snd (mretain (\<lambda>_ cs. cs \<noteq> []) (live_calls now m))))
    = mset (concat (map snd m))"
proof (induction m)
  case (Cons a m)
  obtain k cs where a: "a = (k, cs)" by (cases a)
  have "mset cs = mset (filter (\<lambda>c. \<not> call_deadline c > now) cs) + mset (filter (\<lambda>c. call_deadline c > now) cs)"
    by (simp add: multiset_partition [symmetric] union_commute)
  moreover have "(\<forall>c \<in> set cs. \<not> call_deadline c > now) \<longrightarrow> {#c \<in># mset cs. \<not> call_deadline c > now#} = mset cs"
    by (simp flip: mset_filter)
  ultimately show ?case using Cons a
    by (simp add: gone_calls_def live_calls_def mretain_def ac_simps filter_empty_conv)
qed (simp add: gone_calls_def live_calls_def mretain_def)

section \<open>Operations keep the invariant\<close>

lemma fq_push_all:
  assumes "fq_ok q" and "fq_push c q = Inr q'"
  shows "all_queued q' = add_mset c (all_queued q)"
  using assms mset_mput_queue [of "fq_calls q" "call_request c" "queued q (call_request c) @ [c]"]
  by (auto simp: fq_push_def Let_def all_queued_def fq_ok_def queued_def split: if_splits)

lemma fq_push_ok:
  assumes "fq_ok q" and "fq_push c q = Inr q'"
  shows "fq_ok q'"
proof -
  let ?k = "call_request c"
  have cap: "fq_len q < fq_capacity q" and
    q': "q' = q\<lparr>fq_order := (if queued q ?k = [] \<and> ?k \<notin> set (fq_order q)
        then fq_order q @ [?k] else fq_order q),
      fq_calls := mput ?k (queued q ?k @ [c]) (fq_calls q), fq_len := fq_len q + 1\<rparr>"
    using assms(2) by (auto simp: fq_push_def Let_def split: if_splits)
  have ord: "queued q ?k = [] \<longleftrightarrow> ?k \<notin> set (fq_order q)" using queued_in_order [OF assms(1)] by blast
  have own: "\<forall>d \<in> set (queued q ?k). call_request d = ?k"
    using queued_calls(2) [OF assms(1), of ?k] by (cases "queued q ?k = []") auto
  have len: "fq_len q' = size (all_queued q')"
    using fq_push_all [OF assms] fq_ok_len [OF assms(1)] by (simp add: q')
  show ?thesis
    using assms(1) len cap own ord keys_mput [of ?k "queued q ?k @ [c]" "fq_calls q"]
    by (auto simp: fq_ok_def q' set_mput)
qed

lemma fq_cancel_all:
  assumes "fq_ok q" and "fq_cancel r q = (n, q')"
  shows "all_queued q = mset (queued q r) + all_queued q'" "n = length (queued q r)"
  using assms mset_mdel_queue [of "fq_calls q" r]
  by (auto simp: fq_cancel_def Let_def all_queued_def fq_ok_def queued_def ac_simps)

lemma fq_cancel_ok:
  assumes "fq_ok q" and "fq_cancel r q = (n, q')"
  shows "fq_ok q'"
proof -
  have q': "q' = q\<lparr>fq_calls := mdel r (fq_calls q), fq_order := filter (\<lambda>k. k \<noteq> r) (fq_order q),
      fq_len := fq_len q - length (queued q r)\<rparr>"
    using assms(2) by (auto simp: fq_cancel_def Let_def)
  have l: "fq_len q' = fq_len q - length (queued q r)" by (simp add: q')
  have len: "fq_len q' = size (all_queued q')"
    using fq_cancel_all(1) [OF assms] fq_ok_len [OF assms(1)] by (simp add: l)
  moreover have "fst ` set (mdel r (fq_calls q)) = fst ` set (fq_calls q) - {r}"
    using keys_mdel [of r "fq_calls q"] by simp
  ultimately show ?thesis
    using assms(1) by (auto simp: fq_ok_def q' mdel_def)
qed

lemma live_calls_keys: "map fst (live_calls now m) = map fst m"
  by (auto simp: live_calls_def)

lemma fq_expire_all:
  assumes "fq_expire now q = (ex, q')"
  shows "all_queued q = mset ex + all_queued q'"
  using assms mset_expire [of now "fq_calls q"] by (auto simp: fq_expire_def Let_def all_queued_def)

lemma fq_expire_ok:
  assumes "fq_ok q" and "fq_expire now q = (ex, q')"
  shows "fq_ok q'"
proof -
  let ?m = "mretain (\<lambda>_ cs. cs \<noteq> []) (live_calls now (fq_calls q))"
  have q': "q' = q\<lparr>fq_len := fq_len q - length ex, fq_calls := ?m, fq_order := filter (mhas ?m) (fq_order q)\<rparr>"
    using assms(2) by (auto simp: fq_expire_def Let_def)
  have l: "fq_len q' = fq_len q - length ex" by (simp add: q')
  have len: "fq_len q' = size (all_queued q')"
    using fq_expire_all [OF assms(2)] fq_ok_len [OF assms(1)] by (simp add: l)
  have "mwf (live_calls now (fq_calls q))"
    using assms(1) by (simp add: fq_ok_def mwf_def live_calls_keys)
  moreover have "fst ` set ?m \<subseteq> fst ` set (fq_calls q)"
    by (force simp: mretain_def live_calls_def)
  ultimately show ?thesis
    using assms(1) len by (auto simp: fq_ok_def q' mhas_iff mretain_def live_calls_def)
qed

text \<open>With no call left to expire, the taking half neither panics nor breaks the invariant.\<close>

lemma fq_take_run:
  assumes "fq_ok q" and "fq_order q = key # order"
  obtains c queue q' where "queued q key = c # queue" "fq_take q = Some (Run c, q')"
    "fq_order q' = (if queue = [] then order else order @ [key])"
    "fq_len q' = fq_len q - 1" "fq_capacity q' = fq_capacity q"
    "fq_calls q' = (if queue = [] then mdel key (fq_calls q) else mput key queue (fq_calls q))"
proof -
  have "queued q key \<noteq> []" using assms queued_in_order by force
  then obtain c queue where *: "queued q key = c # queue" by (meson list.exhaust)
  then have "map_of (fq_calls q) key = Some (c # queue)" using queued_calls(1) [OF assms(1)] by fastforce
  then show thesis
    using assms(2) *
    by (intro that [of c queue "if queue = []
          then q\<lparr>fq_order := order, fq_len := fq_len q - 1, fq_calls := mdel key (fq_calls q)\<rparr>
          else q\<lparr>fq_order := order @ [key], fq_len := fq_len q - 1,
                 fq_calls := mput key queue (fq_calls q)\<rparr>"]) (simp_all add: fq_take_def)
qed

lemma fq_take_all:
  assumes "fq_ok q" and "fq_take q = Some (Run c, q')"
  shows "all_queued q = add_mset c (all_queued q')"
proof -
  obtain key order where o: "fq_order q = key # order"
    using assms(2) by (auto simp: fq_take_def split: list.splits)
  obtain c' queue where *: "queued q key = c' # queue" "c' = c"
    "fq_calls q' = (if queue = [] then mdel key (fq_calls q) else mput key queue (fq_calls q))"
    using fq_take_run [OF assms(1) o] assms(2) by (metis option.inject prod.inject next_call.inject(1))
  then show ?thesis
    using assms(1) mset_mdel_queue [of "fq_calls q" key] mset_mput_queue [of "fq_calls q" key queue]
    by (auto simp: all_queued_def fq_ok_def queued_def)
qed

lemma fq_take_ok:
  assumes "fq_ok q" and "fq_take q = Some (Run c, q')"
  shows "fq_ok q'"
proof -
  obtain key order where o: "fq_order q = key # order"
    using assms(2) by (auto simp: fq_take_def split: list.splits)
  obtain c' queue q'' where *: "queued q key = c' # queue" "fq_take q = Some (Run c', q'')"
    "fq_order q'' = (if queue = [] then order else order @ [key])"
    "fq_len q'' = fq_len q - 1" "fq_capacity q'' = fq_capacity q"
    "fq_calls q'' = (if queue = [] then mdel key (fq_calls q) else mput key queue (fq_calls q))"
    by (rule fq_take_run [OF assms(1) o])
  have q': "q'' = q'" using *(2) assms(2) by simp
  have len: "fq_len q' = size (all_queued q')"
    using fq_take_all [OF assms] fq_ok_len [OF assms(1)] *(4) q' by simp
  have own: "\<forall>d \<in> set queue. call_request d = key"
    using queued_calls(2) [OF assms(1), of key] *(1) by simp
  have keys: "fst ` set (mdel key (fq_calls q)) = fst ` set (fq_calls q) - {key}"
    "fst ` set (mput key queue (fq_calls q)) = insert key (fst ` set (fq_calls q))"
    using keys_mdel [of key "fq_calls q"] keys_mput [of key queue "fq_calls q"] by simp_all
  show ?thesis
    using assms(1) len own keys *(3-6) o
    by (auto simp: fq_ok_def q' set_mput mdel_def)
qed

section \<open>Sequences of operations\<close>

datatype queue_op = OPush call | OCancel hash256 | ONext u64

datatype queue_event = Accepted call | Refused call | Cancelled "call list" | Found next_call

fun fq_step :: "fair_queue \<Rightarrow> queue_op \<Rightarrow> (queue_event \<times> fair_queue) option" where
  "fq_step q (OPush c) =
     Some (case fq_push c q of Inl _ \<Rightarrow> (Refused c, q) | Inr q' \<Rightarrow> (Accepted c, q'))"
| "fq_step q (OCancel r) = Some (Cancelled (queued q r), snd (fq_cancel r q))"
| "fq_step q (ONext now) = map_option (\<lambda>(n, q'). (Found n, q')) (fq_next now q)"

fun fq_run :: "fair_queue \<Rightarrow> queue_op list \<Rightarrow> (queue_event list \<times> fair_queue) option" where
  "fq_run q [] = Some ([], q)"
| "fq_run q (op # ops) =
     (case fq_step q op of
        None \<Rightarrow> None
      | Some (ev, q') \<Rightarrow> map_option (\<lambda>(evs, q''). (ev # evs, q'')) (fq_run q' ops))"

text \<open>The calls an event brings into the queue and the ones it takes out.\<close>

fun brought :: "queue_event \<Rightarrow> call multiset" where
  "brought (Accepted c) = {#c#}"
| "brought _ = {#}"

fun taken :: "queue_event \<Rightarrow> call multiset" where
  "taken (Cancelled cs) = mset cs"
| "taken (Found (Run c)) = {#c#}"
| "taken (Found (Expired cs)) = mset cs"
| "taken _ = {#}"

fun ran_call :: "queue_event \<Rightarrow> call list" where
  "ran_call (Found (Run c)) = [c]"
| "ran_call _ = []"

definition served :: "queue_event list \<Rightarrow> call list" where
  "served evs = concat (map ran_call evs)"

lemma fq_next_cases:
  assumes "fq_ok q"
  obtains ex q1 where "fq_expire now q = (ex, q1)" "fq_ok q1" "ex \<noteq> []" "fq_next now q = Some (Expired ex, q1)"
  | q1 where "fq_expire now q = ([], q1)" "fq_ok q1" "fq_order q1 = []" "fq_next now q = Some (Idle, q1)"
  | q1 key order c queue q' where "fq_expire now q = ([], q1)" "fq_ok q1" "fq_order q1 = key # order"
      "queued q1 key = c # queue" "fq_next now q = Some (Run c, q')" "fq_take q1 = Some (Run c, q')"
      "fq_order q' = (if queue = [] then order else order @ [key])"
      "fq_calls q' = (if queue = [] then mdel key (fq_calls q1) else mput key queue (fq_calls q1))"
proof -
  obtain ex q1 where e: "fq_expire now q = (ex, q1)" by fastforce
  have ok: "fq_ok q1" by (rule fq_expire_ok [OF assms e])
  consider "ex \<noteq> []" | "ex = []" "fq_order q1 = []" | key order where "ex = []" "fq_order q1 = key # order"
    by (meson list.exhaust)
  then show thesis
  proof cases
    case 1
    then show thesis using that(1) [OF e ok] e by (simp add: fq_next_def)
  next
    case 2
    then show thesis using that(2) [of q1] ok e by (simp add: fq_next_def fq_take_def)
  next
    case (3 key order)
    show thesis
      by (rule fq_take_run [OF ok 3(2)], rule that(3) [of q1 key order])
        (use e ok 3 in \<open>simp_all add: fq_next_def\<close>)
  qed
qed

lemma fq_expire_same:
  "fq_expire now q = ([], q1) \<Longrightarrow> all_queued q1 = all_queued q"
  using fq_expire_all [of now q "[]" q1] by simp

lemma fq_step_ok:
  assumes "fq_ok q"
  obtains ev q' where "fq_step q op = Some (ev, q')" "fq_ok q'"
    "all_queued q + brought ev = all_queued q' + taken ev"
proof (cases op)
  case (OPush c)
  show thesis
  proof (cases "fq_push c q")
    case (Inl e)
    then show thesis using that [of "Refused c" q] OPush assms by simp
  next
    case (Inr q')
    then show thesis using that [of "Accepted c" q'] OPush fq_push_ok [OF assms Inr] fq_push_all [OF assms Inr] by simp
  qed
next
  case (OCancel r)
  obtain n q' where c: "fq_cancel r q = (n, q')" by fastforce
  then show thesis
    using that [of "Cancelled (queued q r)" q'] OCancel fq_cancel_ok [OF assms c] fq_cancel_all(1) [OF assms c]
    by (simp add: ac_simps)
next
  case (ONext now)
  show thesis
  proof (rule fq_next_cases [OF assms, of now])
    fix ex q1
    assume "fq_expire now q = (ex, q1)" "fq_ok q1" "ex \<noteq> []" "fq_next now q = Some (Expired ex, q1)"
    then show thesis using that [of "Found (Expired ex)" q1] ONext fq_expire_all by (simp add: ac_simps)
  next
    fix q1
    assume "fq_expire now q = ([], q1)" "fq_ok q1" "fq_next now q = Some (Idle, q1)"
    then show thesis using that [of "Found Idle" q1] ONext fq_expire_same by simp
  next
    fix q1 c q'
    assume *: "fq_expire now q = ([], q1)" "fq_ok q1" "fq_take q1 = Some (Run c, q')" "fq_next now q = Some (Run c, q')"
    then show thesis
      using that [of "Found (Run c)" q'] ONext fq_expire_same [OF *(1)] fq_take_all [OF *(2,3)] fq_take_ok [OF *(2,3)]
      by simp
  qed
qed

lemma fq_step_capacity: "fq_step q op = Some (ev, q') \<Longrightarrow> fq_capacity q' = fq_capacity q"
  by (cases op) (auto simp: fq_push_def fq_cancel_def fq_next_def fq_expire_def fq_take_def Let_def
      split: sum.splits if_splits list.splits option.splits)

lemma fq_run_ok:
  assumes "fq_ok q"
  obtains evs q' where "fq_run q ops = Some (evs, q')" "fq_ok q'" "fq_capacity q' = fq_capacity q"
    "all_queued q + sum_list (map brought evs) = all_queued q' + sum_list (map taken evs)"
proof -
  have "\<exists>evs q'. fq_run q ops = Some (evs, q') \<and> fq_ok q' \<and> fq_capacity q' = fq_capacity q \<and>
    all_queued q + sum_list (map brought evs) = all_queued q' + sum_list (map taken evs)"
    using assms
  proof (induction ops arbitrary: q)
    case (Cons op ops)
    obtain ev q1 where s: "fq_step q op = Some (ev, q1)" "fq_ok q1"
      "all_queued q + brought ev = all_queued q1 + taken ev"
      by (rule fq_step_ok [OF Cons.prems])
    obtain evs q' where r: "fq_run q1 ops = Some (evs, q')" "fq_ok q'" "fq_capacity q' = fq_capacity q1"
      "all_queued q1 + sum_list (map brought evs) = all_queued q' + sum_list (map taken evs)"
      using Cons.IH [OF s(2)] by blast
    have "all_queued q + sum_list (map brought (ev # evs))
        = (all_queued q + brought ev) + sum_list (map brought evs)"
      by (simp add: ac_simps)
    also have "\<dots> = all_queued q1 + sum_list (map brought evs) + taken ev"
      unfolding s(3) by (simp add: ac_simps)
    also have "\<dots> = all_queued q' + sum_list (map taken (ev # evs))" using r(4) by (simp add: ac_simps)
    finally show ?case using s r fq_step_capacity [OF s(1)] by simp
  qed simp
  then show thesis using that by blast
qed

text \<open>How many requests have their turn before \<open>k\<close>.\<close>

definition turn :: "fair_queue \<Rightarrow> hash256 \<Rightarrow> nat" where
  "turn q k = length (takeWhile (\<lambda>x. x \<noteq> k) (fq_order q))"

lemma takeWhile_filter_le:
  "length (takeWhile (\<lambda>x. x \<noteq> k) (filter P xs)) \<le> length (takeWhile (\<lambda>x. x \<noteq> k) xs)" if "P k"
  using that by (induction xs) auto

lemma takeWhile_append_le:
  "k \<in> set xs \<Longrightarrow> takeWhile (\<lambda>x. x \<noteq> k) (xs @ ys) = takeWhile (\<lambda>x. x \<noteq> k) xs"
  by (induction xs) auto

lemma fq_push_turn:
  assumes "fq_ok q" "queued q k = c # cs" "fq_push d q = Inr q'"
  shows "\<exists>cs'. queued q' k = c # cs'" "turn q' k = turn q k"
proof -
  have "k \<in> set (fq_order q)" using queued_in_order [OF assms(1)] assms(2) by simp
  then show "turn q' k = turn q k"
    using assms(3) by (auto simp: fq_push_def Let_def turn_def takeWhile_append_le split: if_splits)
  show "\<exists>cs'. queued q' k = c # cs'"
    using assms(2,3) by (auto simp: fq_push_def Let_def queued_def map_of_mput split: if_splits)
qed

lemma fq_cancel_turn:
  assumes "queued q k = c # cs" "r \<noteq> k" "fq_cancel r q = (n, q')"
  shows "queued q' k = c # cs" "turn q' k \<le> turn q k"
  using assms takeWhile_filter_le [of "\<lambda>x. x \<noteq> r" k "fq_order q"]
  by (auto simp: fq_cancel_def Let_def turn_def queued_def map_of_mdel)

lemma live_calls_get:
  "map_of (live_calls now m) k = map_option (filter (\<lambda>c. call_deadline c > now)) (map_of m k)"
  by (induction m) (auto simp: live_calls_def)

lemma fq_expire_turn:
  assumes "fq_ok q" "queued q k = c # cs" "now < call_deadline c" "fq_expire now q = (ex, q')"
  shows "\<exists>cs'. queued q' k = c # cs'" "turn q' k \<le> turn q k"
proof -
  let ?m = "live_calls now (fq_calls q)"
  have wf: "mwf ?m" using assms(1) by (simp add: fq_ok_def mwf_def live_calls_keys)
  have "map_of (fq_calls q) k = Some (c # cs)" using queued_calls(1) [OF assms(1), of k] assms(2) by simp
  then have get: "map_of (mretain (\<lambda>_ cs. cs \<noteq> []) ?m) k = Some (c # filter (\<lambda>c. call_deadline c > now) cs)"
    using assms(3) by (simp add: map_of_mretain [OF wf] live_calls_get)
  then show "\<exists>cs'. queued q' k = c # cs'"
    using assms(4) by (auto simp: fq_expire_def Let_def queued_def)
  show "turn q' k \<le> turn q k"
    using assms(4) get takeWhile_filter_le [of "mhas (mretain (\<lambda>_ cs. cs \<noteq> []) ?m)" k "fq_order q"]
    by (auto simp: fq_expire_def Let_def turn_def mhas_def)
qed

text \<open>What a waiting call asks of the surrounding operations: nobody cancels its request, and the
  clock has not passed its deadline.\<close>

fun spares :: "call \<Rightarrow> queue_op \<Rightarrow> bool" where
  "spares c (OPush d) \<longleftrightarrow> True"
| "spares c (OCancel r) \<longleftrightarrow> r \<noteq> call_request c"
| "spares c (ONext now) \<longleftrightarrow> now < call_deadline c"

lemma fq_take_turn:
  assumes "fq_ok q1" "fq_order q1 = key # order" "queued q1 key = d # queue"
    "fq_order q' = (if queue = [] then order else order @ [key])"
    "fq_calls q' = (if queue = [] then mdel key (fq_calls q1) else mput key queue (fq_calls q1))"
    "queued q1 k = c # cs" "key \<noteq> k"
  shows "queued q' k = c # cs" "Suc (turn q' k) = turn q1 k"
proof -
  have "k \<in> set order" using queued_in_order [OF assms(1), of k] assms(2,6,7) by simp
  then show "Suc (turn q' k) = turn q1 k"
    using assms(2,4,7) by (auto simp: turn_def takeWhile_append_le)
  show "queued q' k = c # cs"
    using assms(5-7) by (auto simp: queued_def map_of_mput map_of_mdel)
qed

lemma fq_step_turn:
  assumes "fq_ok q" "queued q k = c # cs" "call_request c = k" "spares c op" "fq_step q op = Some (ev, q')"
  shows "ran_call ev = [c] \<or> (\<exists>cs'. queued q' k = c # cs') \<and> turn q' k + length (ran_call ev) \<le> turn q k"
proof (cases op)
  case (OPush d)
  then show ?thesis
    using assms(2,5) fq_push_turn [OF assms(1,2), of d] by (auto split: sum.splits)
next
  case (OCancel r)
  obtain n q1 where "fq_cancel r q = (n, q1)" by fastforce
  then show ?thesis
    using assms(3-5) OCancel fq_cancel_turn [OF assms(2), of r n q1] by auto
next
  case (ONext now)
  have d: "now < call_deadline c" using assms(4) ONext by simp
  show ?thesis
  proof (rule fq_next_cases [OF assms(1), of now])
    fix q1 key order e queue q2
    assume *: "fq_expire now q = ([], q1)" "fq_ok q1" "fq_order q1 = key # order" "queued q1 key = e # queue"
      "fq_next now q = Some (Run e, q2)" "fq_order q2 = (if queue = [] then order else order @ [key])"
      "fq_calls q2 = (if queue = [] then mdel key (fq_calls q1) else mput key queue (fq_calls q1))"
    obtain cs1 where k1: "queued q1 k = c # cs1" and t1: "turn q1 k \<le> turn q k"
      using fq_expire_turn(1) [OF assms(1,2) d *(1)] fq_expire_turn(2) [OF assms(1,2) d *(1)] by (elim exE)
    have ev: "ev = Found (Run e)" "q' = q2" using assms(5) ONext *(5) by simp_all
    show ?thesis
    proof (cases "key = k")
      case True
      then have "e = c" using k1 *(4) by simp
      then show ?thesis by (simp add: ev(1))
    next
      case False
      note t = fq_take_turn [OF *(2-4,6,7) k1 False]
      have "turn q2 k + 1 \<le> turn q k" using t(2) t1 by linarith
      then show ?thesis using t(1) by (simp add: ev)
    qed
  next
    fix ex q1
    assume *: "fq_expire now q = (ex, q1)" "fq_next now q = Some (Expired ex, q1)"
    show ?thesis using assms(5) ONext *(2) fq_expire_turn [OF assms(1,2) d *(1)] by auto
  next
    fix q1
    assume *: "fq_expire now q = ([], q1)" "fq_next now q = Some (Idle, q1)"
    show ?thesis using assms(5) ONext *(2) fq_expire_turn [OF assms(1,2) d *(1)] by auto
  qed
qed

lemma fq_run_turn:
  assumes "fq_ok q" "queued q k = c # cs" "call_request c = k" "\<forall>op \<in> set ops. spares c op"
    "fq_run q ops = Some (evs, q')" "turn q k < length (served evs)"
  shows "c \<in> set (take (Suc (turn q k)) (served evs))"
  using assms
proof (induction ops arbitrary: q cs evs)
  case Nil
  then show ?case by (simp add: served_def)
next
  case (Cons op ops)
  obtain ev q1 where s: "fq_step q op = Some (ev, q1)" "fq_ok q1" by (rule fq_step_ok [OF Cons.prems(1)])
  have "map_option (\<lambda>(evs, q''). (ev # evs, q'')) (fq_run q1 ops) = Some (evs, q')"
    using Cons.prems(5) s(1) by simp
  then obtain evs1 where r: "fq_run q1 ops = Some (evs1, q')" "evs = ev # evs1"
    by (cases "fq_run q1 ops") auto
  have sv: "served evs = ran_call ev @ served evs1" by (simp add: served_def r(2))
  have "ran_call ev = [c] \<or> (\<exists>cs'. queued q1 k = c # cs') \<and> turn q1 k + length (ran_call ev) \<le> turn q k"
    using fq_step_turn [OF Cons.prems(1-3) _ s(1)] Cons.prems(4) by simp
  then show ?case
  proof
    assume "ran_call ev = [c]"
    then show ?thesis by (simp add: sv)
  next
    assume *: "(\<exists>cs'. queued q1 k = c # cs') \<and> turn q1 k + length (ran_call ev) \<le> turn q k"
    then obtain cs' where q1: "queued q1 k = c # cs'" by blast
    have "c \<in> set (take (Suc (turn q1 k)) (served evs1))"
      using Cons.IH [OF s(2) q1 Cons.prems(3) _ r(1)] Cons.prems(4,6) * sv by simp
    moreover have "set (take (Suc (turn q1 k)) (served evs1)) \<subseteq> set (take (Suc (turn q k) - length (ran_call ev)) (served evs1))"
      using * by (intro set_take_subset_set_take) arith
    ultimately show ?thesis by (auto simp: sv)
  qed
qed

section \<open>Properties\<close>

text \<open>C33: whatever sequence of pushes, cancellations and turns a new queue processes, it never panics,
  never holds more calls than its capacity, keeps its counter and its turn order in step with the
  stored calls, and loses or duplicates no call: what was accepted has been run, expired or cancelled
  exactly once, or is still queued.\<close>

theorem queue_accounts_for_every_call:
  "\<exists>evs q. fq_run (fq_new n) ops = Some (evs, q) \<and> fq_ok q \<and> fq_len q \<le> n \<and>
     sum_list (map brought evs) = all_queued q + sum_list (map taken evs)"
proof -
  obtain evs q where "fq_run (fq_new n) ops = Some (evs, q)" "fq_ok q" "fq_capacity q = fq_capacity (fq_new n)"
    "all_queued (fq_new n) + sum_list (map brought evs) = all_queued q + sum_list (map taken evs)"
    by (rule fq_run_ok [OF fq_ok_new])
  then show ?thesis by (auto simp: fq_ok_def fq_new_def all_queued_def)
qed

text \<open>C32: service is fair. A call at the head of its request's queue runs at the latest after one
  call of each request before it in the turn order, however many calls others push meanwhile, unless
  its request is cancelled or its deadline passes.\<close>

theorem queue_serves_in_turn:
  assumes "fq_ok q" and "queued q (call_request c) = c # rest"
    and "\<forall>op \<in> set ops. spares c op" and "fq_run q ops = Some (evs, q')"
    and "turn q (call_request c) < length (served evs)"
  shows "c \<in> set (take (Suc (turn q (call_request c))) (served evs))"
  by (rule fq_run_turn [OF assms(1,2) refl assms(3-5)])

definition sample_call :: "hash256 \<Rightarrow> hash256 \<Rightarrow> call" where
  "sample_call r i = \<lparr>call_request = r, call_id = i, call_deadline = 9\<rparr>"

definition sample_queue :: fair_queue where
  "sample_queue = \<lparr>fq_capacity = 4, fq_len = 3,
     fq_calls = [(1, [sample_call 1 10, sample_call 1 11]), (2, [sample_call 2 20])],
     fq_order = [1, 2]\<rparr>"

lemma sample_queue_ok: "fq_ok sample_queue" "queued sample_queue 2 = [sample_call 2 20]"
  "turn sample_queue 2 = 1"
  by (simp_all add: fq_ok_def sample_queue_def sample_call_def all_queued_def mwf_def queued_def turn_def)

lemma sample_queue_runs:
  "\<exists>evs q'. fq_run sample_queue [ONext 0, OPush (sample_call 1 12), ONext 0] = Some (evs, q') \<and>
     served evs = [sample_call 1 10, sample_call 2 20]"
  by (simp add: fq_next_def fq_expire_def fq_take_def gone_calls_def live_calls_def mretain_def mhas_def
      fq_push_def queued_def sample_queue_def sample_call_def served_def)

theorem queue_serves_in_turn_witness:
  "\<exists>evs q'. fq_run sample_queue [ONext 0, OPush (sample_call 1 12), ONext 0] = Some (evs, q') \<and>
     sample_call 2 20 \<in> set (take 2 (served evs))"
proof -
  obtain evs q' where r: "fq_run sample_queue [ONext 0, OPush (sample_call 1 12), ONext 0] = Some (evs, q')"
    and l: "length (served evs) = 2"
    using sample_queue_runs by force
  have k: "call_request (sample_call 2 20) = 2" "call_deadline (sample_call 2 20) = 9"
    by (simp_all add: sample_call_def)
  have "sample_call 2 20 \<in> set (take (Suc (turn sample_queue 2)) (served evs))"
    using queue_serves_in_turn [OF sample_queue_ok(1), of "sample_call 2 20" "[]", OF _ _ r]
    by (simp add: k l sample_queue_ok(2,3))
  then show ?thesis using r by (auto simp: sample_queue_ok(3) numeral_2_eq_2)
qed

end
