(* ===== verification/Arc_Lease.thy ===== *)
theory Arc_Lease
  imports Arc_Crypto
begin

text \<open>
  What a coordinator knows of its workers, from \<open>crates/arc-assign\<close>: link measurements
  (\<open>link.rs\<close>), capability leases (\<open>lease.rs\<close>) and the ledger of call slots (\<open>reservation.rs\<close>).
  The \<open>bincode\<close> encodings of the signed values are the fields of the record \<open>assign_wire\<close>, an
  argument of the definitions that hash them. Sets of strings and addresses are lists read through
  \<open>set\<close>; \<open>usize\<close> is \<open>nat\<close>.
\<close>

section \<open>Links\<close>

record probe =
  pr_rtt_us :: u64
  pr_bytes :: u64
  pr_transfer_us :: u64
  pr_failed :: bool

record link_measurement =
  lm_samples :: u32
  lm_rtt_median_us :: u64
  lm_rtt_p95_us :: u64
  lm_jitter_us :: u64
  lm_bandwidth_bps :: u64
  lm_failure_per_mille :: u32
  lm_measured_at :: u64
  lm_simulated :: bool

definition list_min :: "'a::linorder list \<Rightarrow> 'a option" where
  "list_min xs = (case xs of [] \<Rightarrow> None | x # ys \<Rightarrow> Some (foldl min x ys))"

definition list_max :: "'a::linorder list \<Rightarrow> 'a option" where
  "list_max xs = (case xs of [] \<Rightarrow> None | x # ys \<Rightarrow> Some (foldl max x ys))"

text \<open>\<open>x.div_ceil(100)\<close> on \<open>usize\<close>.\<close>

definition div_ceil :: "nat \<Rightarrow> nat \<Rightarrow> nat" where
  "div_ceil a b = (a + b - 1) div b"

definition summarize :: "probe list \<Rightarrow> u64 \<Rightarrow> bool \<Rightarrow> link_measurement option" where
  "summarize probes measured_at simulated =
     (let good = filter (\<lambda>p. \<not> pr_failed p) probes in
      if good = [] then None
      else let rtts = sort (map pr_rtt_us good);
               median = rtts ! (length rtts div 2);
               p95 = rtts ! min (div_ceil (length rtts * 95) 100 - 1) (length rtts - 1);
               jitter = rtts ! (length rtts - 1) - rtts ! 0;
               bandwidth = (case list_min (map (\<lambda>p. ucast ((ucast (pr_bytes p) * 1000000 :: u128)
                                                  div ucast (pr_transfer_us p)) :: u64)
                                   (filter (\<lambda>p. pr_bytes p > 0 \<and> pr_transfer_us p > 0) good))
                             of None \<Rightarrow> 0 | Some b \<Rightarrow> b);
               failed = length probes - length good
           in Some \<lparr>lm_samples = word_of_nat (length probes),
                    lm_rtt_median_us = median,
                    lm_rtt_p95_us = p95,
                    lm_jitter_us = jitter,
                    lm_bandwidth_bps = bandwidth,
                    lm_failure_per_mille = word_of_nat (failed * 1000 div length probes),
                    lm_measured_at = measured_at,
                    lm_simulated = simulated\<rparr>)"

record path_counters =
  pc_generation :: u64
  pc_sent_packets :: u64
  pc_lost_packets :: u64

definition windowed_loss_per_mille :: "path_counters \<Rightarrow> path_counters \<Rightarrow> u32 option" where
  "windowed_loss_per_mille earlier later =
     (if pc_generation earlier \<noteq> pc_generation later then None
      else case checked_sub (pc_sent_packets later) (pc_sent_packets earlier) of
        None \<Rightarrow> None
      | Some sent \<Rightarrow>
          (case checked_sub (pc_lost_packets later) (pc_lost_packets earlier) of
             None \<Rightarrow> None
           | Some lost \<Rightarrow>
               if sent = 0 then None
               else let per_mille = min ((ucast lost * 1000 :: u128) div ucast sent) 1000 in
                 if unat per_mille < 2 ^ 32 then Some (ucast per_mille) else None))"

section \<open>Capability leases\<close>

definition LEASE_DOMAIN :: string where "LEASE_DOMAIN = ''ARC-assign-capability-lease-v1''"
definition OP_ROW_PROJECTION_I8 :: string where "OP_ROW_PROJECTION_I8 = ''row-projection-i8''"

record lease_body =
  lb_version :: u32
  lb_worker :: address
  lb_transport_id :: string
  lb_artifact_id :: hash256
  lb_execution_profile :: string
  lb_backend :: string
  lb_kernel_set :: hash256
  lb_operators :: "string list"
  lb_ram_headroom_bytes :: u64
  lb_claimed_macs_per_s :: u64
  lb_max_concurrency :: u32
  lb_warm_rows :: "(string \<times> u64) list"
  lb_resident_layers :: "(u32 \<times> u32) list"
  lb_issued_at_height :: u64
  lb_expires_at_height :: u64
  lb_nonce :: u64

record capability_lease =
  lease_body_of :: lease_body
  lease_signature :: signature

datatype lease_error =
    LeaseSignature
  | LeaseNotMember
  | LeaseWrongModel
  | LeaseMissingOperator string
  | LeaseExpired u64 u64
  | LeaseNotYetValid
  | LeaseVersion u32
  | LeaseDishonestCapacity u64 u64

record assign_wire =
  wire_lease_body :: "lease_body \<Rightarrow> u8 list"
  wire_lease :: "lease_body \<times> signature \<Rightarrow> u8 list"

definition digest :: "'z crypto_scheme \<Rightarrow> string \<Rightarrow> u8 list \<Rightarrow> hash256" where
  "digest cr domain bytes = blake3_derive_key cr domain bytes"

definition lease_transcript :: "'z crypto_scheme \<Rightarrow> 'w assign_wire_scheme \<Rightarrow> lease_body \<Rightarrow> hash256" where
  "lease_transcript cr w b = digest cr LEASE_DOMAIN (wire_lease_body w b)"

definition lease_digest :: "'z crypto_scheme \<Rightarrow> 'w assign_wire_scheme \<Rightarrow> capability_lease \<Rightarrow> hash256" where
  "lease_digest cr w l = digest cr LEASE_DOMAIN (wire_lease w (lease_body_of l, lease_signature l))"

record lease_requirements =
  req_members :: "address list"
  req_artifact_id :: hash256
  req_execution_profile :: string
  req_operator :: string
  req_height :: u64

definition lease_validate ::
  "'z crypto_scheme \<Rightarrow> 'w assign_wire_scheme \<Rightarrow> capability_lease \<Rightarrow> lease_requirements \<Rightarrow> lease_error + unit" where
  "lease_validate cr w l req =
     (let b = lease_body_of l in
      if lb_version b \<noteq> 1 then Inl (LeaseVersion (lb_version b))
      else case sig_verify cr (lease_signature l) (lease_transcript cr w b) (lb_worker b) of
        Inl _ \<Rightarrow> Inl LeaseSignature
      | Inr _ \<Rightarrow>
          if lb_worker b \<notin> set (req_members req) then Inl LeaseNotMember
          else if lb_artifact_id b \<noteq> req_artifact_id req
                  \<or> lb_execution_profile b \<noteq> req_execution_profile req then Inl LeaseWrongModel
          else if req_operator req \<notin> set (lb_operators b)
               then Inl (LeaseMissingOperator (req_operator req))
          else if req_height req < lb_issued_at_height b then Inl LeaseNotYetValid
          else if req_height req \<ge> lb_expires_at_height b
               then Inl (LeaseExpired (lb_expires_at_height b) (req_height req))
          else Inr ())"

record challenge_result =
  ch_macs :: u64
  ch_elapsed_us :: u64
  ch_correct :: bool

definition measured_macs_per_s :: "challenge_result \<Rightarrow> u64" where
  "measured_macs_per_s c =
     (if ch_elapsed_us c = 0 then 0
      else ucast ((ucast (ch_macs c) * 1000000 :: u128) div ucast (ch_elapsed_us c)))"

definition check_challenge :: "capability_lease \<Rightarrow> challenge_result \<Rightarrow> u64 \<Rightarrow> lease_error + u64" where
  "check_challenge l challenge min_fraction_percent =
     (let measured = measured_macs_per_s challenge;
          claimed = lb_claimed_macs_per_s (lease_body_of l) in
      if \<not> ch_correct challenge
         \<or> (ucast measured * 100 :: u128) < ucast claimed * ucast min_fraction_percent
      then Inl (LeaseDishonestCapacity claimed measured)
      else Inr (min measured claimed))"

section \<open>Reservations\<close>

definition MAX_SLOTS_PER_WORKER :: u32 where "MAX_SLOTS_PER_WORKER = 64"

datatype reservation_error = UnknownWorker | NoFreeSlot | NotHeld | AlreadyExpired

record reservation_ledger =
  rl_capacity :: "(address, u32) store"
  rl_held :: "(address \<times> hash256, u64) store"

definition rl_new :: reservation_ledger where "rl_new = \<lparr>rl_capacity = [], rl_held = []\<rparr>"

definition ended :: "u64 \<Rightarrow> u64 \<Rightarrow> bool" where
  "ended height expires_at \<longleftrightarrow> saturating_add height 1 \<ge> expires_at"

definition set_capacity :: "address \<Rightarrow> u32 \<Rightarrow> reservation_ledger \<Rightarrow> reservation_ledger" where
  "set_capacity worker slots l = l\<lparr>rl_capacity := mput worker (min slots MAX_SLOTS_PER_WORKER) (rl_capacity l)\<rparr>"

definition remove_worker :: "address \<Rightarrow> reservation_ledger \<Rightarrow> nat \<times> reservation_ledger" where
  "remove_worker worker l =
     (let rest = mretain (\<lambda>(w, _) _. w \<noteq> worker) (rl_held l) in
      (length (rl_held l) - length rest,
       l\<lparr>rl_capacity := mdel worker (rl_capacity l), rl_held := rest\<rparr>))"

text \<open>The holds on a worker are the key range from the smallest to the largest request.\<close>

definition holds_on :: "reservation_ledger \<Rightarrow> address \<Rightarrow> nat" where
  "holds_on l worker = length (filter (\<lambda>(k, _). (worker, 0) \<le> k \<and> k \<le> (worker, - 1)) (rl_held l))"

definition held_on :: "reservation_ledger \<Rightarrow> address \<Rightarrow> u32" where
  "held_on l worker = (if holds_on l worker < 2 ^ 32 then word_of_nat (holds_on l worker) else - 1)"

definition free_slots :: "reservation_ledger \<Rightarrow> address \<Rightarrow> u32" where
  "free_slots l worker =
     saturating_sub (case map_of (rl_capacity l) worker of None \<Rightarrow> 0 | Some c \<Rightarrow> c) (held_on l worker)"

definition may_take :: "reservation_ledger \<Rightarrow> address \<Rightarrow> hash256 \<Rightarrow> reservation_error + unit" where
  "may_take l worker request =
     (if \<not> mhas (rl_capacity l) worker then Inl UnknownWorker
      else if \<not> mhas (rl_held l) (worker, request) \<and> free_slots l worker = 0 then Inl NoFreeSlot
      else Inr ())"

fun check_all :: "reservation_ledger \<Rightarrow> hash256 \<Rightarrow> address list \<Rightarrow> reservation_error + unit" where
  "check_all l request [] = Inr ()"
| "check_all l request (w # ws) = and_then (may_take l w request) (\<lambda>_. check_all l request ws)"

definition reserve_all ::
  "address list \<Rightarrow> hash256 \<Rightarrow> u64 \<Rightarrow> u64 \<Rightarrow> reservation_ledger \<Rightarrow> reservation_error + reservation_ledger" where
  "reserve_all workers request expires_at height l =
     (if ended height expires_at then Inl AlreadyExpired
      else and_then (check_all l request workers) (\<lambda>_.
        Inr (l\<lparr>rl_held := foldl (\<lambda>h w. mor_insert (w, request) expires_at h) (rl_held l) workers\<rparr>)))"

definition release :: "hash256 \<Rightarrow> reservation_ledger \<Rightarrow> nat \<times> reservation_ledger" where
  "release request l =
     (let rest = mretain (\<lambda>(_, r) _. r \<noteq> request) (rl_held l) in
      (length (rl_held l) - length rest, l\<lparr>rl_held := rest\<rparr>))"

definition reassign ::
  "hash256 \<Rightarrow> address \<Rightarrow> address \<Rightarrow> reservation_ledger \<Rightarrow> reservation_error + reservation_ledger" where
  "reassign request src dst l =
     (case map_of (rl_held l) (src, request) of
        None \<Rightarrow> Inl NotHeld
      | Some expires_at \<Rightarrow>
          if src = dst then Inr l
          else and_then (may_take l dst request) (\<lambda>_.
            Inr (l\<lparr>rl_held := mor_insert (dst, request) expires_at (mdel (src, request) (rl_held l))\<rparr>)))"

definition sweep :: "u64 \<Rightarrow> reservation_ledger \<Rightarrow> nat \<times> reservation_ledger" where
  "sweep height l =
     (let rest = mretain (\<lambda>_ expires_at. \<not> ended height expires_at) (rl_held l) in
      (length (rl_held l) - length rest, l\<lparr>rl_held := rest\<rparr>))"

section \<open>What the measurements mean\<close>

lemma ucast_down_small:
  fixes a :: "'a::len word"
  assumes "unat a < 2 ^ LENGTH('b)"
  shows "unat (ucast a :: 'b::len word) = unat a"
  using assms by (simp add: unsigned_ucast_eq unsigned_take_bit_eq take_bit_nat_eq_self)

lemma unat_ucast_up:
  fixes a :: "'a::len word"
  assumes "LENGTH('a) \<le> LENGTH('b)"
  shows "unat (ucast a :: 'b::len word) = unat a"
proof (rule ucast_down_small)
  have "(2 :: nat) ^ LENGTH('a) \<le> 2 ^ LENGTH('b)" using assms by (simp add: power_increasing)
  then show "unat a < 2 ^ LENGTH('b)" using unsigned_less [of a] by (rule order_less_le_trans [rotated])
qed

lemma unat_of_nat_small: "n < 2 ^ LENGTH('a) \<Longrightarrow> unat (word_of_nat n :: 'a::len word) = n"
  by (simp add: unat_of_nat take_bit_nat_eq_self)

lemma windowed_loss_bound: "windowed_loss_per_mille a b = Some x \<Longrightarrow> unat x \<le> 1000"
proof -
  have "unat (min y 1000 :: u128) \<le> 1000" for y
  proof -
    have "min y 1000 \<le> (1000 :: u128)" by simp
    then show ?thesis by (simp add: word_le_nat_alt)
  qed
  then show "windowed_loss_per_mille a b = Some x \<Longrightarrow> unat x \<le> 1000"
    by (auto simp: windowed_loss_per_mille_def Let_def ucast_down_small split: if_splits option.splits)
qed

lemma foldl_min_le: "foldl min (x :: 'a::linorder) ys \<le> x" "y \<in> set ys \<Longrightarrow> foldl min x ys \<le> y"
proof (induction ys arbitrary: x)
  case (Cons z ys)
  { case 1 show ?case using Cons(1) [of "min x z"] by simp }
  { case 2 then show ?case using Cons [of "min x z"] by (auto intro: order_trans) }
qed simp_all

lemma list_min_le: "list_min xs = Some m \<Longrightarrow> x \<in> set xs \<Longrightarrow> m \<le> x"
  using foldl_min_le by (fastforce simp: list_min_def split: list.splits)

text \<open>A summary is pessimistic: the 95th percentile is at least the median and a round trip that
  was seen, and no bulk probe that succeeded was slower than the bandwidth.\<close>

definition probe_bandwidth :: "probe \<Rightarrow> u64" where
  "probe_bandwidth p = ucast ((ucast (pr_bytes p) * 1000000 :: u128) div ucast (pr_transfer_us p))"

lemma p95_index:
  assumes "n \<noteq> 0"
  shows "n div 2 \<le> min (div_ceil (n * 95) 100 - 1) (n - 1)" "min k (n - 1) < n"
proof -
  have le: "2 * h \<le> n \<Longrightarrow> (h + 1) * 100 \<le> n * 95 + 99" for h using assms by (simp add: neq0_conv)
  have h: "2 * (n div 2) \<le> n" by simp
  have "(n div 2 + 1) * 100 \<le> n * 95 + 99" by (rule le [OF h])
  then have "n div 2 + 1 \<le> (n * 95 + 99) div 100" by (simp add: less_eq_div_iff_mult_less_eq)
  then show "n div 2 \<le> min (div_ceil (n * 95) 100 - 1) (n - 1)"
    using h assms by (simp add: div_ceil_def)
  show "min k (n - 1) < n" using assms by simp
qed

lemma summarize_rtts:
  assumes "summarize probes t sim = Some m"
  shows "lm_rtt_median_us m \<le> lm_rtt_p95_us m"
    and "\<exists>p \<in> set probes. \<not> pr_failed p \<and> lm_rtt_p95_us m = pr_rtt_us p"
proof -
  define rtts where "rtts = sort (map pr_rtt_us (filter (\<lambda>p. \<not> pr_failed p) probes))"
  define i where "i = min (div_ceil (length rtts * 95) 100 - 1) (length rtts - 1)"
  have m: "lm_rtt_median_us m = rtts ! (length rtts div 2)" "lm_rtt_p95_us m = rtts ! i" "length rtts \<noteq> 0"
    using assms by (auto simp: summarize_def Let_def rtts_def i_def split: if_splits)
  note idx = p95_index [OF m(3)]
  have "sorted rtts" by (simp add: rtts_def)
  then show "lm_rtt_median_us m \<le> lm_rtt_p95_us m"
    using idx(1) idx(2) m(1,2) unfolding i_def by (metis sorted_nth_mono)
  have "rtts ! i \<in> set rtts" using idx(2) unfolding i_def by (rule nth_mem)
  then show "\<exists>p \<in> set probes. \<not> pr_failed p \<and> lm_rtt_p95_us m = pr_rtt_us p"
    using m(2) by (auto simp: rtts_def)
qed

lemma list_min_map_le:
  assumes "p \<in> set ps"
  shows "(case list_min (map f ps) of None \<Rightarrow> 0 | Some b \<Rightarrow> b) \<le> f p"
proof -
  obtain q qs where "ps = q # qs" using assms by (cases ps) auto
  then have "list_min (map f ps) = Some (foldl min (f q) (map f qs))" by (simp add: list_min_def)
  then show ?thesis using list_min_le [of "map f ps"] assms by simp
qed

lemma summarize_bandwidth:
  assumes "summarize probes t sim = Some m" "p \<in> set probes" "\<not> pr_failed p" "pr_bytes p > 0" "pr_transfer_us p > 0"
  shows "lm_bandwidth_bps m \<le> probe_bandwidth p"
proof -
  define ps where "ps = filter (\<lambda>p. pr_bytes p > 0 \<and> pr_transfer_us p > 0) (filter (\<lambda>p. \<not> pr_failed p) probes)"
  have "lm_bandwidth_bps m = (case list_min (map probe_bandwidth ps) of None \<Rightarrow> 0 | Some b \<Rightarrow> b)"
    using assms(1) unfolding summarize_def Let_def probe_bandwidth_def ps_def
    by (auto simp del: filter_filter split: if_splits)
  moreover have "p \<in> set ps" using assms(2-5) by (simp add: ps_def)
  ultimately show ?thesis using list_min_map_le [of p ps probe_bandwidth] by simp
qed

lemma summarize_failures:
  assumes "summarize probes t sim = Some m"
  shows "unat (lm_failure_per_mille m) \<le> 1000" "lm_measured_at m = t"
proof -
  let ?n = "(length probes - length (filter (\<lambda>p. \<not> pr_failed p) probes)) * 1000 div length probes"
  have m: "lm_failure_per_mille m = word_of_nat ?n" "lm_measured_at m = t"
    using assms by (auto simp: summarize_def Let_def split: if_splits)
  have "?n \<le> length probes * 1000 div length probes" by (intro div_le_mono mult_le_mono1) simp
  then have "?n \<le> 1000" by (cases "length probes = 0") (simp_all add: mult.commute)
  then show "unat (lm_failure_per_mille m) \<le> 1000" "lm_measured_at m = t"
    using m by (simp_all add: unat_of_nat_small)
qed

section \<open>The ledger\<close>

definition holders :: "reservation_ledger \<Rightarrow> address \<Rightarrow> hash256 set" where
  "holders l w = {r. mhas (rl_held l) (w, r)}"

lemma key_range: "(w, 0) \<le> k \<and> k \<le> (w, - 1) \<longleftrightarrow> fst k = (w :: address)" for k :: "address \<times> hash256"
  by (cases k) (auto simp: less_eq_prod_simp)

lemma holds_on_card:
  assumes "mwf (rl_held l)"
  shows "holds_on l w = card (holders l w)" "finite (holders l w)"
proof -
  have d: "distinct (map fst (filter (\<lambda>(k, _). fst k = w) (rl_held l)))"
    using mwf_distinct [OF assms] by (rule distinct_map_filter)
  have keys: "Pair w ` holders l w = fst ` set (filter (\<lambda>(k, _). fst k = w) (rl_held l))"
    by (force simp: holders_def mhas_iff)
  have "holds_on l w = length (filter (\<lambda>(k, _). fst k = w) (rl_held l))"
    by (simp add: holds_on_def key_range)
  also have "\<dots> = card (fst ` set (filter (\<lambda>(k, _). fst k = w) (rl_held l)))"
    using distinct_card [OF d] by simp
  also have "\<dots> = card (holders l w)"
    unfolding keys [symmetric] by (rule card_image) (simp add: inj_on_def)
  finally show "holds_on l w = card (holders l w)" .
  have "finite (Pair w ` holders l w)" by (simp add: keys)
  then show "finite (holders l w)" by (rule finite_imageD) (simp add: inj_on_def)
qed

definition rl_ok :: "reservation_ledger \<Rightarrow> bool" where
  "rl_ok l \<longleftrightarrow> mwf (rl_capacity l) \<and> mwf (rl_held l)
     \<and> (\<forall>(w, c) \<in> set (rl_capacity l). c \<le> MAX_SLOTS_PER_WORKER)
     \<and> (\<forall>(k, e) \<in> set (rl_held l). mhas (rl_capacity l) (fst k))
     \<and> (\<forall>w. holds_on l w \<le> 64)"

lemma rl_ok_new: "rl_ok rl_new"
  by (simp add: rl_ok_def rl_new_def holds_on_def)

lemma rl_ok_holds_le: "rl_ok l \<Longrightarrow> holds_on l w \<le> 64"
  by (simp add: rl_ok_def)

lemma rl_ok_known: "rl_ok l \<Longrightarrow> mhas (rl_held l) k \<Longrightarrow> mhas (rl_capacity l) (fst k)"
  unfolding rl_ok_def mhas_iff [of "rl_held l"] by auto

lemma rl_ok_known_workers: "rl_ok l \<Longrightarrow> fst ` fst ` set (rl_held l) \<subseteq> fst ` set (rl_capacity l)"
  using rl_ok_known unfolding mhas_iff by blast

lemma saturating_sub_zero: "saturating_sub 0 (x :: 'a::len word) = 0"
  by (simp add: word_unat_eq_iff unat_saturating_sub)

lemma set_mdel: "set (mdel k m) = {p \<in> set m. fst p \<noteq> k}"
  by (auto simp: mdel_def)

text \<open>A free slot is room below the clamped capacity.\<close>

lemma free_slots_room:
  assumes "rl_ok l" "free_slots l w \<noteq> 0"
  shows "holds_on l w < 64"
proof -
  obtain c where c1: "map_of (rl_capacity l) w = Some c"
    using assms(2) by (cases "map_of (rl_capacity l) w") (auto simp: free_slots_def saturating_sub_zero)
  have c: "map_of (rl_capacity l) w = Some c" "c \<le> MAX_SLOTS_PER_WORKER"
    using c1 map_of_SomeD [OF c1] assms(1) by (auto simp: rl_ok_def)
  have "holds_on l w \<le> 64" by (rule rl_ok_holds_le [OF assms(1)])
  then have held: "unat (held_on l w) = holds_on l w" by (simp add: held_on_def unat_of_nat_small)
  have "unat (free_slots l w) \<noteq> 0" using assms(2) by (simp add: unat_eq_zero)
  then have "holds_on l w < unat c" using c(1) held by (simp add: free_slots_def unat_saturating_sub)
  then show ?thesis using c(2) by (simp add: MAX_SLOTS_PER_WORKER_def word_le_nat_alt)
qed

text \<open>A change of the holds that adds at most one request to a worker with room, and only to known
  workers, keeps the ledger sound.\<close>

lemma rl_ok_holds:
  assumes "rl_ok l" "mwf h"
    and "\<And>w r. mhas h (w, r) \<Longrightarrow> mhas (rl_held l) (w, r) \<or> r = req \<and> mhas (rl_capacity l) w \<and> holds_on l w < 64"
  shows "rl_ok (l\<lparr>rl_held := h\<rparr>)"
proof -
  have wf: "mwf (rl_held l)" using assms(1) by (simp add: rl_ok_def)
  have "holds_on (l\<lparr>rl_held := h\<rparr>) w \<le> 64" for w
  proof (cases "holders (l\<lparr>rl_held := h\<rparr>) w \<subseteq> holders l w")
    case True
    then have "card (holders (l\<lparr>rl_held := h\<rparr>) w) \<le> card (holders l w)"
      using holds_on_card(2) [OF wf] by (rule card_mono [rotated])
    then show ?thesis using assms(2) rl_ok_holds_le [OF assms(1), of w] holds_on_card(1) [OF wf, of w]
      by (simp add: holds_on_card)
  next
    case False
    then obtain r where "mhas h (w, r)" "\<not> mhas (rl_held l) (w, r)" by (auto simp: holders_def)
    then have "holds_on l w < 64" using assms(3) by blast
    then have room: "card (holders l w) < 64" unfolding holds_on_card(1) [OF wf] .
    have "holders (l\<lparr>rl_held := h\<rparr>) w \<subseteq> insert req (holders l w)" using assms(3) by (auto simp: holders_def)
    then have "card (holders (l\<lparr>rl_held := h\<rparr>) w) \<le> card (insert req (holders l w))"
      by (rule card_mono [rotated]) (simp add: holds_on_card(2) [OF wf])
    also have "\<dots> \<le> Suc (card (holders l w))" using holds_on_card(2) [OF wf] by (simp add: card_insert_if)
    finally show ?thesis using room assms(2) by (simp add: holds_on_card)
  qed
  moreover have "mhas (rl_capacity l) w" if "((w, r), e) \<in> set h" for w r e
  proof -
    have "mhas h (w, r)" using that by (force simp: mhas_iff)
    then show ?thesis using assms(3) rl_ok_known [OF assms(1), of "(w, r)"] by fastforce
  qed
  ultimately show ?thesis using assms(1,2) by (auto simp: rl_ok_def)
qed

lemma check_all_Inr: "check_all l r ws = Inr u \<longleftrightarrow> (\<forall>w \<in> set ws. may_take l w r = Inr ())"
  by (induction ws) (auto simp: result_simps)

lemma may_take_Inr:
  "may_take l w r = Inr u \<longleftrightarrow> mhas (rl_capacity l) w \<and> (mhas (rl_held l) (w, r) \<or> free_slots l w \<noteq> 0)"
  by (auto simp: may_take_def)

lemma mhas_mor_insert [store_simps]: "mhas (mor_insert k v m) x \<longleftrightarrow> x = k \<or> mhas m x"
  by (auto simp: mor_insert_def mhas_mput)

lemma reserve_fold:
  "mhas (foldl (\<lambda>h w. mor_insert (w, req) e h) h ws) (w, r) \<longleftrightarrow> mhas h (w, r) \<or> r = req \<and> w \<in> set ws"
  by (induction ws arbitrary: h) (auto simp: mhas_mor_insert)

lemma reserve_fold_wf: "mwf h \<Longrightarrow> mwf (foldl (\<lambda>h w. mor_insert (w, req) e h) h ws)"
  by (induction ws arbitrary: h) (simp_all add: mwf_mor_insert)

lemma reserve_all_ok:
  assumes "rl_ok l" "reserve_all ws req e t l = Inr l'"
  shows "rl_ok l'"
proof -
  have l': "l' = l\<lparr>rl_held := foldl (\<lambda>h w. mor_insert (w, req) e h) (rl_held l) ws\<rparr>"
    and c: "\<forall>w \<in> set ws. may_take l w req = Inr ()"
    using assms(2) by (auto simp: reserve_all_def result_simps check_all_Inr split: if_splits)
  show ?thesis unfolding l'
  proof (rule rl_ok_holds [OF assms(1)])
    show "mwf (foldl (\<lambda>h w. mor_insert (w, req) e h) (rl_held l) ws)"
      using assms(1) by (intro reserve_fold_wf) (simp add: rl_ok_def)
    fix w r
    assume "mhas (foldl (\<lambda>h w. mor_insert (w, req) e h) (rl_held l) ws) (w, r)"
    then show "mhas (rl_held l) (w, r) \<or> r = req \<and> mhas (rl_capacity l) w \<and> holds_on l w < 64"
      using c free_slots_room [OF assms(1)] unfolding reserve_fold by (auto simp: may_take_Inr)
  qed
qed

lemma reassign_ok:
  assumes "rl_ok l" "reassign req a b l = Inr l'"
  shows "rl_ok l'"
proof (cases "a = b")
  case True
  then show ?thesis using assms by (auto simp: reassign_def split: option.splits)
next
  case False
  then obtain e where l': "l' = l\<lparr>rl_held := mor_insert (b, req) e (mdel (a, req) (rl_held l))\<rparr>"
    and c: "may_take l b req = Inr ()"
    using assms(2) by (auto simp: reassign_def result_simps split: option.splits)
  have wf: "mwf (rl_held l)" using assms(1) by (simp add: rl_ok_def)
  show ?thesis unfolding l'
    by (rule rl_ok_holds [OF assms(1), of _ req])
      (use c wf free_slots_room [OF assms(1), of b] in \<open>auto simp: store_simps may_take_Inr\<close>)
qed

lemma mhas_mretain: "mhas (mretain P m) k \<Longrightarrow> mhas m k"
  by (auto simp: mhas_iff mretain_def)

lemma rl_ok_retain: "rl_ok l \<Longrightarrow> rl_ok (l\<lparr>rl_held := mretain P (rl_held l)\<rparr>)"
  by (rule rl_ok_holds) (auto simp: rl_ok_def dest: mhas_mretain)

lemma set_capacity_ok: "rl_ok l \<Longrightarrow> rl_ok (set_capacity w n l)"
  by (auto simp: rl_ok_def set_capacity_def set_mput mhas_mput holds_on_def)

lemma remove_worker_ok:
  assumes "rl_ok l"
  shows "rl_ok (snd (remove_worker w l))"
proof -
  have "rl_ok (l\<lparr>rl_held := mretain (\<lambda>(x, _) _. x \<noteq> w) (rl_held l)\<rparr>)" by (rule rl_ok_retain [OF assms])
  then show ?thesis
    by (auto simp: rl_ok_def remove_worker_def Let_def mhas_mdel set_mdel holds_on_def mretain_def)
qed

text \<open>The ledger as a machine: a refused operation changes nothing.\<close>

datatype ledger_op =
    LSet address u32
  | LRemove address
  | LReserve "address list" hash256 u64 u64
  | LRelease hash256
  | LReassign hash256 address address
  | LSweep u64

fun ledger_step :: "reservation_ledger \<Rightarrow> ledger_op \<Rightarrow> reservation_ledger" where
  "ledger_step l (LSet w n) = set_capacity w n l"
| "ledger_step l (LRemove w) = snd (remove_worker w l)"
| "ledger_step l (LReserve ws r e h) = (case reserve_all ws r e h l of Inl _ \<Rightarrow> l | Inr l' \<Rightarrow> l')"
| "ledger_step l (LRelease r) = snd (release r l)"
| "ledger_step l (LReassign r a b) = (case reassign r a b l of Inl _ \<Rightarrow> l | Inr l' \<Rightarrow> l')"
| "ledger_step l (LSweep h) = snd (sweep h l)"

interpretation ledger: machine ledger_step rl_ok
proof
  fix l op
  assume ok: "rl_ok l"
  show "rl_ok (ledger_step l op)"
  proof (cases op)
    case (LReserve ws r e h)
    then show ?thesis using ok reserve_all_ok [OF ok, of ws r e h] by (cases "reserve_all ws r e h l") simp_all
  next
    case (LReassign r a b)
    then show ?thesis using ok reassign_ok [OF ok, of r a b] by (cases "reassign r a b l") simp_all
  qed (use ok in \<open>simp_all add: set_capacity_ok remove_worker_ok release_def sweep_def Let_def rl_ok_retain\<close>)
qed

lemma ledger_length:
  assumes "rl_ok l"
  shows "length (rl_held l) \<le> 64 * length (rl_capacity l)"
proof -
  have wf: "mwf (rl_held l)" "mwf (rl_capacity l)" using assms by (simp_all add: rl_ok_def)
  let ?W = "fst ` set (rl_capacity l)"
  have "fst ` set (rl_held l) \<subseteq> (SIGMA w : ?W. holders l w)"
  proof
    fix k
    assume "k \<in> fst ` set (rl_held l)"
    then have "mhas (rl_held l) k" by (simp add: mhas_iff)
    moreover have "fst k \<in> ?W" using rl_ok_known_workers [OF assms] \<open>k \<in> fst ` set (rl_held l)\<close> by blast
    ultimately show "k \<in> (SIGMA w : ?W. holders l w)" by (cases k) (simp add: holders_def)
  qed
  note sub = this
  have fin: "finite ?W" "\<forall>w \<in> ?W. finite (holders l w)"
    using holds_on_card(2) [OF wf(1)] by simp_all
  have "finite (SIGMA w : ?W. holders l w)"
    by (rule finite_SigmaI [OF fin(1)]) (rule holds_on_card(2) [OF wf(1)])
  then have "card (fst ` set (rl_held l)) \<le> card (SIGMA w : ?W. holders l w)" using sub by (rule card_mono)
  also have "\<dots> = (\<Sum>w \<in> ?W. holds_on l w)"
    unfolding holds_on_card(1) [OF wf(1)] by (rule card_SigmaI [OF fin])
  also have "\<dots> \<le> (\<Sum>w \<in> ?W. 64)" by (rule sum_mono) (rule rl_ok_holds_le [OF assms])
  also have "\<dots> = 64 * card ?W" by simp
  also have "card ?W = length (rl_capacity l)"
    using distinct_card [OF mwf_distinct [OF wf(2)]] by simp
  finally show ?thesis using distinct_card [OF mwf_distinct [OF wf(1)]] by simp
qed

text \<open>A hold is exactly what a successful reservation adds, and a sweep takes exactly the ended ones.\<close>

lemma map_of_reserve_fold:
  "map_of (foldl (\<lambda>h w. mor_insert (w, req) e h) h ws) (w, r) =
    (if r = req \<and> w \<in> set ws \<and> map_of h (w, r) = None then Some e else map_of h (w, r))"
  by (induction ws arbitrary: h) (auto simp: mor_insert_def mhas_def map_of_mput)

lemma reserve_all_Inr:
  "reserve_all ws req e t l = Inr l' \<longleftrightarrow> \<not> ended t e \<and> (\<forall>w \<in> set ws. may_take l w req = Inr ()) \<and>
     l' = l\<lparr>rl_held := foldl (\<lambda>h w. mor_insert (w, req) e h) (rl_held l) ws\<rparr>"
  by (auto simp: reserve_all_def result_simps check_all_Inr)

lemma sweep_drops_ended:
  assumes "rl_ok l"
  shows "map_of (rl_held (snd (sweep h l))) k =
    (case map_of (rl_held l) k of None \<Rightarrow> None | Some e \<Rightarrow> if ended h e then None else Some e)"
  using assms by (auto simp: sweep_def Let_def map_of_mretain rl_ok_def split: option.splits)

section \<open>Properties\<close>

text \<open>C31: after any sequence of operations on a new reservation ledger, no worker has more than 64
  requests holding one of its slots, every hold is on a worker whose capacity is known, and the ledger
  has at most 64 entries per worker. This holds although capacities may be lowered below the number of
  slots already taken.\<close>

theorem reservations_bounded:
  "let l = foldl ledger_step rl_new ops in
     holds_on l w \<le> 64 \<and> fst ` fst ` set (rl_held l) \<subseteq> fst ` set (rl_capacity l) \<and>
     length (rl_held l) \<le> 64 * length (rl_capacity l)"
proof -
  have ok: "rl_ok (foldl ledger_step rl_new ops)" by (rule ledger.run_inv [OF rl_ok_new])
  show ?thesis using rl_ok_holds_le [OF ok, of w] rl_ok_known_workers [OF ok] ledger_length [OF ok] by (simp add: Let_def)
qed

end
