(* ===== verification/Arc_Placement.thy ===== *)
theory Arc_Placement
  imports Arc_Lease
begin

text \<open>
  Placement of the rows of a model over the coordinator and its workers
  (\<open>crates/arc-assign/src/placement.rs\<close>).

  \<open>u64\<close> and \<open>u128\<close> are words, so every product and sum wraps as it does in the code;
  \<open>usize\<close> is \<open>nat\<close>. The remainder loop of \<open>split_rows\<close> may run forever on some weights, so it is
  a \<open>partial_function\<close> and \<open>None\<close> is divergence; \<open>place\<close> inherits this outer option, and the
  theorems show that it never diverges. Inside it, \<open>Result\<close> is a sum.
\<close>

section \<open>Data\<close>

record stage =
  st_layer :: "u32 option"
  st_tensor :: string
  st_rows :: u64
  st_cols :: u64

record candidate =
  cd_worker :: address
  cd_transport_id :: string
  cd_macs_per_s :: u64
  cd_ram_headroom_bytes :: u64
  cd_max_concurrency :: u32
  cd_link :: link_measurement
  cd_resident_layers :: "(u32 \<times> u32) list"
  cd_resident_output :: bool

record policy =
  po_max_workers :: nat
  po_max_link_age :: u64
  po_now :: u64
  po_max_failure_per_mille :: u32
  po_allow_simulated_links :: bool
  po_input_element_bytes :: u64
  po_output_element_bytes :: u64
  po_weight_bytes_per_element :: u64
  po_include_coordinator :: bool

datatype participant = Coordinator | Worker address

fun order_key :: "participant \<Rightarrow> u8 \<times> address" where
  "order_key Coordinator = (0, 0)"
| "order_key (Worker a) = (1, a)"

record slice =
  sl_participant :: participant
  sl_row_start :: u64
  sl_row_end :: u64

record stage_plan =
  sp_stage :: nat
  sp_slices :: "slice list"

record placement =
  pl_workers :: "address list"
  pl_stages :: "stage_plan list"
  pl_predicted_token_us :: u64
  pl_coordinator_only_token_us :: u64

datatype placement_error = NoStages | Infeasible | NoCoordinatorRate

section \<open>Splitting rows\<close>

definition usable :: "candidate \<Rightarrow> policy \<Rightarrow> bool" where
  "usable c p \<longleftrightarrow> cd_macs_per_s c > 0
     \<and> lm_bandwidth_bps (cd_link c) > 0
     \<and> cd_max_concurrency c > 0
     \<and> lm_failure_per_mille (cd_link c) \<le> po_max_failure_per_mille p
     \<and> saturating_sub (po_now p) (lm_measured_at (cd_link c)) \<le> po_max_link_age p
     \<and> (po_allow_simulated_links p \<or> \<not> lm_simulated (cd_link c))"

partial_function (option) split_loop ::
  "u64 list \<Rightarrow> u64 \<Rightarrow> u64 \<Rightarrow> nat \<Rightarrow> u64 list \<Rightarrow> u64 list option" where
  "split_loop weights rows assigned i out =
     (if assigned < rows
      then (if weights ! (i mod length weights) > 0
            then split_loop weights rows (assigned + 1) (i + 1)
                   (out[i mod length weights := out ! (i mod length weights) + 1])
            else split_loop weights rows assigned (i + 1) out)
      else Some out)"

definition split_rows :: "u64 \<Rightarrow> u64 list \<Rightarrow> u64 list option" where
  "split_rows rows weights =
     (let sum_w = sum_list (map ucast weights) :: u128 in
      if sum_w = 0 then Some (replicate (length weights) 0)
      else let out = map (\<lambda>w. ucast ((ucast rows * ucast w) div sum_w)) weights in
        split_loop weights rows (sum_list out) 0 out)"

section \<open>Predicted time\<close>

definition comm_us :: "link_measurement option \<Rightarrow> u64 \<Rightarrow> u64 \<Rightarrow> policy \<Rightarrow> u128" where
  "comm_us link cols rows p =
     (case link of
        None \<Rightarrow> 0
      | Some l \<Rightarrow>
          let bytes = ucast cols * ucast (po_input_element_bytes p)
                      + ucast rows * ucast (po_output_element_bytes p) in
          ucast (lm_rtt_p95_us l) + (bytes * 1000000) div ucast (max (lm_bandwidth_bps l) 1))"

definition slowest_us ::
  "stage \<Rightarrow> u64 list \<Rightarrow> link_measurement option list \<Rightarrow> u64 list \<Rightarrow> policy \<Rightarrow> u128" where
  "slowest_us stage rates links rows_of p =
     foldl (\<lambda>slowest pi.
        if rows_of ! pi = 0 then slowest
        else max slowest
          ((ucast (rows_of ! pi) * ucast (st_cols stage) * 1000000) div ucast (max (rates ! pi) 1)
           + comm_us (links ! pi) (st_cols stage) (rows_of ! pi) p))
       0 [0..<length rows_of]"

definition predict ::
  "stage list \<Rightarrow> u64 list \<Rightarrow> link_measurement option list \<Rightarrow> u64 list list \<Rightarrow> policy \<Rightarrow> u64" where
  "predict stages rates links rows_per_stage p =
     ucast (min (sum_list (map (\<lambda>si. slowest_us (stages ! si) rates links (rows_per_stage ! si) p)
                             [0..<length stages]))
                (ucast (- 1 :: u64)))"

section \<open>Weights\<close>

definition holds_stage :: "(u32 \<times> u32) list \<Rightarrow> bool \<Rightarrow> stage \<Rightarrow> bool" where
  "holds_stage resident resident_output stage \<longleftrightarrow>
     (if resident = [] then True
      else case st_layer stage of
        None \<Rightarrow> resident_output \<and> st_tensor stage = ''lm_head''
      | Some layer \<Rightarrow> list_ex (\<lambda>(s, e). layer \<ge> s \<and> layer < e) resident)"

text \<open>One pass of the redistribution: what exceeds the caps, the rate of those with room left, and
  the weights cut to the caps.\<close>

definition pass_excess :: "u128 list \<Rightarrow> bool list \<Rightarrow> u128 list \<Rightarrow> u128" where
  "pass_excess caps eligible weights =
     sum_list (map (\<lambda>i. if eligible ! i \<and> weights ! i > caps ! i then weights ! i - caps ! i else 0)
       [0..<length weights])"

definition pass_free_rate :: "u64 list \<Rightarrow> u128 list \<Rightarrow> bool list \<Rightarrow> u128 list \<Rightarrow> u128" where
  "pass_free_rate rates caps eligible weights =
     sum_list (map (\<lambda>i. if eligible ! i \<and> weights ! i < caps ! i then ucast (rates ! i) else 0)
       [0..<length weights])"

definition pass_cut :: "u128 list \<Rightarrow> bool list \<Rightarrow> u128 list \<Rightarrow> u128 list" where
  "pass_cut caps eligible weights =
     map (\<lambda>i. if eligible ! i \<and> weights ! i > caps ! i then caps ! i else weights ! i) [0..<length weights]"

definition pass_spread ::
  "u64 list \<Rightarrow> u128 list \<Rightarrow> bool list \<Rightarrow> u128 \<Rightarrow> u128 \<Rightarrow> u128 list \<Rightarrow> u128 list" where
  "pass_spread rates caps eligible excess free_rate weights =
     map (\<lambda>i. if eligible ! i \<and> weights ! i < caps ! i
              then weights ! i + (excess * ucast (rates ! i)) div free_rate else weights ! i)
       [0..<length weights]"

fun cap_passes :: "nat \<Rightarrow> u64 list \<Rightarrow> u128 list \<Rightarrow> bool list \<Rightarrow> u128 list \<Rightarrow> u128 list" where
  "cap_passes 0 rates caps eligible weights = weights"
| "cap_passes (Suc n) rates caps eligible weights =
     (let excess = pass_excess caps eligible weights;
          free_rate = pass_free_rate rates caps eligible weights;
          cut = pass_cut caps eligible weights in
      if excess = 0 \<or> free_rate = 0 then cut
      else cap_passes n rates caps eligible (pass_spread rates caps eligible excess free_rate cut))"

definition initial_weights :: "u64 list \<Rightarrow> bool list \<Rightarrow> u128 list" where
  "initial_weights rates eligible =
     (let rate_total = sum_list (map (\<lambda>(r, e). ucast r) (filter snd (zip rates eligible))) :: u128 in
      map (\<lambda>(r, e). if e then (ucast r * 1000000) div max rate_total 1 else 0) (zip rates eligible))"

definition capped_weights :: "u64 list \<Rightarrow> u128 list \<Rightarrow> bool list \<Rightarrow> u128 list" where
  "capped_weights rates caps eligible =
     cap_passes (length rates) rates caps eligible (initial_weights rates eligible)"

section \<open>Placement\<close>

text \<open>\<open>pool.retain(|c| seen.insert(c.worker.0))\<close>.\<close>

fun keep_first :: "address list \<Rightarrow> candidate list \<Rightarrow> candidate list" where
  "keep_first seen [] = []"
| "keep_first seen (c # cs) =
     (if cd_worker c \<in> set seen then keep_first seen cs
      else c # keep_first (cd_worker c # seen) cs)"

definition candidate_pool :: "candidate list \<Rightarrow> policy \<Rightarrow> candidate list" where
  "candidate_pool candidates p =
     keep_first [] (sort_key (\<lambda>c. (2 ^ 64 - unat (cd_macs_per_s c), cd_worker c))
       (filter (\<lambda>c. usable c p) candidates))"

definition memory_cap :: "stage list \<Rightarrow> policy \<Rightarrow> candidate \<Rightarrow> u128" where
  "memory_cap stages p c =
     (let held_bytes = sum_list (map (\<lambda>s. ucast (st_rows s) * ucast (st_cols s) * ucast (po_weight_bytes_per_element p))
                         (filter (holds_stage (cd_resident_layers c) (cd_resident_output c)) stages)) in
      if held_bytes = 0 then 1000000
      else min ((ucast (cd_ram_headroom_bytes c) * 1000000) div held_bytes) 1000000)"

definition set_rates :: "u64 \<Rightarrow> policy \<Rightarrow> candidate list \<Rightarrow> u64 list" where
  "set_rates rate p chosen = (if po_include_coordinator p then [rate] else []) @ map cd_macs_per_s chosen"

definition set_links :: "policy \<Rightarrow> candidate list \<Rightarrow> link_measurement option list" where
  "set_links p chosen = (if po_include_coordinator p then [None] else []) @ map (Some \<circ> cd_link) chosen"

definition set_caps :: "stage list \<Rightarrow> policy \<Rightarrow> candidate list \<Rightarrow> u128 list" where
  "set_caps stages p chosen =
     (if po_include_coordinator p then [1000000] else []) @ map (memory_cap stages p) chosen"

definition set_resident :: "policy \<Rightarrow> candidate list \<Rightarrow> ((u32 \<times> u32) list \<times> bool) list" where
  "set_resident p chosen =
     (if po_include_coordinator p then [([], True)] else [])
     @ map (\<lambda>c. (cd_resident_layers c, cd_resident_output c)) chosen"

text \<open>The rows of every stage for one participant set: \<open>Some None\<close> when some stage cannot be
  covered.\<close>

fun share_stages ::
  "u64 list \<Rightarrow> u128 list \<Rightarrow> ((u32 \<times> u32) list \<times> bool) list \<Rightarrow> stage list \<Rightarrow> u64 list list option option" where
  "share_stages rates caps resident [] = Some (Some [])"
| "share_stages rates caps resident (s # ss) =
     (let eligible = map (\<lambda>(r, output). holds_stage r output s) resident;
          weights = capped_weights rates caps eligible in
      if sum_list weights + word_of_nat (length weights) < 1000000 then Some None
      else case split_rows (st_rows s) (map ucast weights) of
        None \<Rightarrow> None
      | Some rows \<Rightarrow> map_option (map_option (\<lambda>rest. rows # rest)) (share_stages rates caps resident ss))"

text \<open>The attempt with the \<open>k\<close> fastest workers.\<close>

definition attempt ::
  "stage list \<Rightarrow> u64 \<Rightarrow> policy \<Rightarrow> candidate list \<Rightarrow> (u64 \<times> u64 list list) option option" where
  "attempt stages rate p chosen =
     map_option (map_option (\<lambda>rows.
         (predict stages (set_rates rate p chosen) (set_links p chosen) rows p, rows)))
       (share_stages (set_rates rate p chosen) (set_caps stages p chosen) (set_resident p chosen) stages)"

fun place_loop ::
  "stage list \<Rightarrow> u64 \<Rightarrow> policy \<Rightarrow> candidate list \<Rightarrow> (u64 \<times> nat \<times> u64 list list) option
    \<Rightarrow> nat list \<Rightarrow> (u64 \<times> nat \<times> u64 list list) option option" where
  "place_loop stages rate p pool best [] = Some best"
| "place_loop stages rate p pool best (k # ks) =
     (if k = 0 \<and> \<not> po_include_coordinator p then place_loop stages rate p pool best ks
      else case attempt stages rate p (take k pool) of
        None \<Rightarrow> None
      | Some None \<Rightarrow> place_loop stages rate p pool best ks
      | Some (Some (t, rows)) \<Rightarrow>
          (let better = (case best of None \<Rightarrow> True | Some (bt, bk, _) \<Rightarrow> t < bt \<or> t = bt \<and> k < bk) in
           place_loop stages rate p pool (if better then Some (t, k, rows) else best) ks))"

fun build_slices :: "participant list \<Rightarrow> u64 list \<Rightarrow> u64 \<Rightarrow> nat list \<Rightarrow> slice list" where
  "build_slices participants rows_of cursor [] = []"
| "build_slices participants rows_of cursor (pi # order) =
     (let rows = rows_of ! pi in
      if rows = 0 then build_slices participants rows_of cursor order
      else \<lparr>sl_participant = participants ! pi, sl_row_start = cursor, sl_row_end = cursor + rows\<rparr>
           # build_slices participants rows_of (cursor + rows) order)"

definition participants_of :: "policy \<Rightarrow> candidate list \<Rightarrow> participant list" where
  "participants_of p chosen =
     (if po_include_coordinator p then [Coordinator] else []) @ map (Worker \<circ> cd_worker) chosen"

definition canonical_order :: "participant list \<Rightarrow> nat list" where
  "canonical_order participants = sort_key (\<lambda>i. order_key (participants ! i)) [0..<length participants]"

definition coordinator_only :: "stage list \<Rightarrow> u64 \<Rightarrow> policy \<Rightarrow> u64" where
  "coordinator_only stages rate p =
     (if po_include_coordinator p then predict stages [rate] [None] (map (\<lambda>s. [st_rows s]) stages) p else - 1)"

definition finish_placement ::
  "stage list \<Rightarrow> u64 \<Rightarrow> policy \<Rightarrow> candidate list \<Rightarrow> u64 \<times> nat \<times> u64 list list \<Rightarrow> placement" where
  "finish_placement stages rate p pool best =
     (case best of (predicted, k, rows_per_stage) \<Rightarrow>
        let participants = participants_of p (take k pool); order = canonical_order participants in
        \<lparr>pl_workers = sort (map cd_worker (take k pool)),
         pl_stages = map (\<lambda>si. \<lparr>sp_stage = si,
                               sp_slices = build_slices participants (rows_per_stage ! si) 0 order\<rparr>)
                       [0..<length stages],
         pl_predicted_token_us = predicted,
         pl_coordinator_only_token_us = coordinator_only stages rate p\<rparr>)"

definition place ::
  "stage list \<Rightarrow> u64 \<Rightarrow> candidate list \<Rightarrow> policy \<Rightarrow> (placement_error + placement) option" where
  "place stages rate candidates p =
     (if stages = [] then Some (Inl NoStages)
      else if po_include_coordinator p \<and> rate = 0 then Some (Inl NoCoordinatorRate)
      else let pool = candidate_pool candidates p in
        case place_loop stages rate p pool None [0..<Suc (min (po_max_workers p) (length pool))] of
          None \<Rightarrow> None
        | Some None \<Rightarrow> Some (Inl Infeasible)
        | Some (Some best) \<Rightarrow> Some (Inr (finish_placement stages rate p pool best)))"

fun slices_cover :: "u64 \<Rightarrow> slice list \<Rightarrow> u64 option" where
  "slices_cover cursor [] = Some cursor"
| "slices_cover cursor (s # ss) =
     (if sl_row_start s \<noteq> cursor \<or> sl_row_end s \<le> sl_row_start s then None else slices_cover (sl_row_end s) ss)"

definition covers_exactly :: "placement \<Rightarrow> stage list \<Rightarrow> bool" where
  "covers_exactly pl stages \<longleftrightarrow> length (pl_stages pl) = length stages
     \<and> list_all (\<lambda>(plan, stage). slices_cover 0 (sp_slices plan) = Some (st_rows stage)) (zip (pl_stages pl) stages)"

section \<open>Splitting is exact and always ends\<close>

definition nsum :: "'a::len word list \<Rightarrow> nat" where
  "nsum ws = sum_list (map unat ws)"

lemma nsum_simps [simp]: "nsum [] = 0" "nsum (w # ws) = unat w + nsum ws" "nsum (us @ ws) = nsum us + nsum ws"
  by (simp_all add: nsum_def)

lemma nth_le_nsum: "i < length ws \<Longrightarrow> unat (ws ! i) \<le> nsum ws"
  unfolding nsum_def by (metis elem_le_sum_list length_map nth_map)

lemma unat_sum_list: "nsum ws < 2 ^ LENGTH('a) \<Longrightarrow> unat (sum_list ws :: 'a::len word) = nsum ws"
  by (induction ws) (simp_all add: unat_add_no_wrap)

lemma nsum_bound: "(\<And>w. w \<in> set ws \<Longrightarrow> unat w \<le> b) \<Longrightarrow> nsum ws \<le> length ws * b"
  by (induction ws) (auto simp: add_mono)

lemma nsum_map_ucast:
  fixes ws :: "'a::len word list"
  assumes "LENGTH('a) \<le> LENGTH('b)"
  shows "nsum (map ucast ws :: 'b::len word list) = nsum ws"
  using assms by (induction ws) (simp_all add: unat_ucast_up)

lemma nsum_bump:
  assumes "j < length out" "nsum out < 2 ^ 64 - 1"
  shows "nsum (out[j := out ! j + 1]) = Suc (nsum (out :: u64 list))"
proof -
  have "unat (out ! j) + 1 < 2 ^ 64" using nth_le_nsum [OF assms(1)] assms(2) by simp
  then have b: "unat (out ! j + 1) = Suc (unat (out ! j))" by (simp add: unat_add_no_wrap)
  have "out = take j out @ out ! j # drop (Suc j) out" using assms(1) by (rule id_take_nth_drop)
  then have "nsum out = nsum (take j out) + unat (out ! j) + nsum (drop (Suc j) out)"
    by (metis nsum_simps(2,3) add.assoc)
  then show ?thesis by (simp add: upd_conv_take_nth_drop [OF assms(1)] b)
qed

lemma next_position:
  fixes n :: nat
  assumes "j < n" "P j"
  shows "\<exists>d. P ((i + d) mod n) \<and> (\<forall>e < d. \<not> P ((i + e) mod n))"
proof -
  have "(i + (j + n - i mod n)) mod n = j"
  proof -
    have "i mod n < n" using assms(1) by simp
    then have "i + (j + n - i mod n) = j + n + i div n * n" using div_mult_mod_eq [of i n] by linarith
    then show ?thesis using assms(1) by simp
  qed
  then have "P ((i + (j + n - i mod n)) mod n)" using assms(2) by simp
  then have "\<exists>d. P ((i + d) mod n)" by blast
  then show ?thesis using exists_least_iff [of "\<lambda>d. P ((i + d) mod n)"] by blast
qed

lemma split_skip:
  assumes "a < rows" "\<forall>e < d. \<not> ws ! ((i + e) mod length ws) > 0"
  shows "split_loop ws rows a i out = split_loop ws rows a (i + d) out"
  using assms(2)
proof (induction d arbitrary: i)
  case (Suc d)
  have z: "\<not> ws ! (i mod length ws) > 0" using Suc.prems by (metis add.right_neutral zero_less_Suc)
  have "split_loop ws rows a i out = split_loop ws rows a (i + 1) out"
    by (subst split_loop.simps) (use assms(1) z in simp)
  also have "\<dots> = split_loop ws rows a (i + 1 + d) out"
    using Suc.prems by (intro Suc.IH) (auto simp: less_Suc_eq_0_disj)
  finally show ?case by simp
qed simp

text \<open>What the remainder loop leaves: one more row per step, never at a weight of zero.\<close>

definition split_done :: "u64 list \<Rightarrow> u64 \<Rightarrow> u64 list \<Rightarrow> bool" where
  "split_done ws rows out \<longleftrightarrow> length out = length ws \<and> nsum out = unat rows
     \<and> (\<forall>i < length ws. ws ! i = 0 \<longrightarrow> out ! i = 0)"

lemma split_loop_exact:
  assumes "j < length ws" "ws ! j > 0" "length out = length ws" "nsum out = unat a" "a \<le> rows"
    "\<forall>i < length ws. ws ! i = 0 \<longrightarrow> out ! i = 0"
  shows "\<exists>out'. split_loop ws rows a i out = Some out' \<and> split_done ws rows out'"
  using assms(3-6)
proof (induction "unat rows - unat a" arbitrary: a i out)
  case 0
  then have "a = rows" by (simp add: word_le_nat_alt word_unat_eq_iff)
  then show ?case using 0 by (subst split_loop.simps) (simp add: split_done_def)
next
  case (Suc m)
  have less: "a < rows" using Suc.hyps(2) by (simp add: word_less_nat_alt)
  obtain d where d: "ws ! ((i + d) mod length ws) > 0" "\<forall>e < d. \<not> ws ! ((i + e) mod length ws) > 0"
    using next_position [of j "length ws" "\<lambda>j. ws ! j > 0" i] assms(1,2) by blast
  let ?j = "(i + d) mod length ws"
  have j: "?j < length out" using assms(1) Suc.prems(1) mod_less_divisor [of "length ws" "i + d"] by linarith
  have "unat a < 2 ^ 64 - 1" using less unat_less_64 [of rows] by (simp add: word_less_nat_alt)
  then have a1: "unat (a + 1) = Suc (unat a)" by (simp add: unat_add_no_wrap)
  have n1: "nsum (out[?j := out ! ?j + 1]) = unat (a + 1)"
    using nsum_bump [OF j] Suc.prems(2) a1 \<open>unat a < 2 ^ 64 - 1\<close> by simp
  have "split_loop ws rows a i out = split_loop ws rows a (i + d) out" by (rule split_skip [OF less d(2)])
  also have "\<dots> = split_loop ws rows (a + 1) (i + d + 1) (out[?j := out ! ?j + 1])"
    by (subst split_loop.simps) (use less d(1) in simp)
  finally have step: "split_loop ws rows a i out = \<dots>" .
  have z: "\<forall>k < length ws. ws ! k = 0 \<longrightarrow> out[?j := out ! ?j + 1] ! k = 0"
  proof (intro allI impI)
    fix k
    assume k: "k < length ws" "ws ! k = 0"
    then have "k \<noteq> ?j" using d(1) by force
    then show "out[?j := out ! ?j + 1] ! k = 0" using Suc.prems(4) k by (simp only: nth_list_update_neq) 
  qed
  have "a + 1 \<le> rows" "m = unat rows - unat (a + 1)"
    using less Suc.hyps(2) a1 by (simp_all add: word_le_nat_alt word_less_nat_alt)
  then show ?case using Suc.hyps(1) [of "a + 1" "out[?j := out ! ?j + 1]" "i + d + 1"] Suc.prems(1) n1 z step by simp
qed

lemma floor_shares: "sum_list (map (\<lambda>w. r * w div t) ws) * t \<le> r * sum_list ws" for r t :: nat
proof (induction ws)
  case (Cons w ws)
  have "r * w div t * t \<le> r * w" by (rule div_times_less_eq_dividend)
  then show ?case using Cons by (simp add: add_mult_distrib add_mult_distrib2 add_mono)
qed simp

lemma floor_shares_le: "t \<noteq> 0 \<Longrightarrow> sum_list ws \<le> t \<Longrightarrow> sum_list (map (\<lambda>w. r * w div t) ws) \<le> r" for r t :: nat
proof -
  assume t: "t \<noteq> 0" "sum_list ws \<le> t"
  have "sum_list (map (\<lambda>w. r * w div t) ws) * t \<le> r * t"
    using floor_shares [where ws=ws] mult_le_mono2 [OF t(2)] by (rule order_trans)
  then show ?thesis using t(1) by simp
qed

lemma unat_le_64: "unat (t :: u64) \<le> 2 ^ 64 - 1"
  using unat_less_64 [of t] by simp

lemma mult_64_fits: "unat (a :: u64) * unat (b :: u64) < 2 ^ 128"
proof -
  have "unat a * unat b \<le> (2 ^ 64 - 1) * (2 ^ 64 - 1)"
    using unat_less_64 [of a] unat_less_64 [of b] by (intro mult_le_mono) simp_all
  then show ?thesis by simp
qed

lemma split_rows_exact:
  assumes "j < length ws" "ws ! j > 0" "length ws < 2 ^ 64"
  shows "\<exists>out. split_rows rows ws = Some out \<and> split_done ws rows out"
proof -
  define t :: u128 where "t = sum_list (map ucast ws)"
  define f where "f w = (ucast ((ucast rows * ucast w) div t) :: u64)" for w :: u64
  have "nsum ws \<le> length ws * (2 ^ 64 - 1)" by (rule nsum_bound) (rule unat_le_64)
  also have "\<dots> < 2 ^ 128" using assms(3) by simp
  finally have t: "unat t = nsum ws"
    unfolding t_def by (simp add: unat_sum_list nsum_map_ucast)
  have "unat (ws ! j) \<noteq> 0" using assms(2) by (simp add: unat_eq_0)
  then have t0: "nsum ws \<noteq> 0" using nth_le_nsum [OF assms(1)] by linarith
  have q: "unat ((ucast rows * ucast w) div t) = unat rows * unat w div nsum ws" for w :: u64
    using mult_64_fits [of rows w] by (simp add: unat_div t unat_mult_no_wrap unat_ucast_up)
  have f: "unat (f w) = unat rows * unat w div nsum ws" if "w \<in> set ws" for w
  proof -
    have "unat w \<le> nsum ws" using that nth_le_nsum by (metis in_set_conv_nth)
    then have "unat rows * unat w div nsum ws \<le> unat rows"
      by (metis div_le_mono mult_le_mono2 nonzero_mult_div_cancel_right t0)
    then have "unat rows * unat w div nsum ws < 2 ^ 64" using unat_less_64 [of rows] by linarith
    then show ?thesis unfolding f_def by (simp add: ucast_down_small q)
  qed
  have "nsum (map f ws) = sum_list (map (\<lambda>w. unat rows * w div nsum ws) (map unat ws))"
    unfolding nsum_def map_map by (intro arg_cong [of _ _ sum_list] map_cong) (simp_all add: f nsum_def)
  then have le: "nsum (map f ws) \<le> unat rows" using floor_shares_le [OF t0, of "map unat ws"] by (simp add: nsum_def)
  then have s: "unat (sum_list (map f ws)) = nsum (map f ws)"
    using unat_less_64 [of rows] by (intro unat_sum_list) simp
  have z: "\<forall>i < length ws. ws ! i = 0 \<longrightarrow> map f ws ! i = 0" by (simp add: f_def)
  have "t \<noteq> 0" using t t0 by auto
  then have "split_rows rows ws = split_loop ws rows (sum_list (map f ws)) 0 (map f ws)"
    unfolding split_rows_def t_def [symmetric] f_def [abs_def] by (simp add: Let_def)
  then show ?thesis
    using split_loop_exact [OF assms(1,2), of "map f ws" "sum_list (map f ws)" rows 0] s le z
    by (simp add: word_le_nat_alt)
qed

section \<open>Weights stay within one million\<close>

lemma nsum_index: "nsum ws = (\<Sum>i < length ws. unat (ws ! i))"
  unfolding nsum_def by (simp add: sum_list_sum_nth atLeast0LessThan)

lemma unat_sum_upt:
  fixes g :: "nat \<Rightarrow> 'a::len word"
  assumes "(\<Sum>i < n. unat (g i)) < 2 ^ LENGTH('a)"
  shows "unat (sum_list (map g [0..<n])) = (\<Sum>i < n. unat (g i))"
  using assms unat_sum_list [of "map g [0..<n]"] by (simp add: nsum_index)

lemma floor_sum:
  fixes r :: "nat \<Rightarrow> nat"
  assumes "t \<noteq> 0" "(\<Sum>i < n. r i) \<le> t"
  shows "(\<Sum>i < n. c * r i div t) \<le> c"
proof -
  have "(\<Sum>i < n. c * r i div t) * t \<le> (\<Sum>i < n. c * r i)"
    unfolding sum_distrib_right by (rule sum_mono) (rule div_times_less_eq_dividend)
  also have "\<dots> \<le> c * t" using assms(2) by (simp flip: sum_distrib_left)
  finally show ?thesis using assms(1) by simp
qed

lemma sum_rates_fit:
  fixes n :: nat
  assumes "n < 2 ^ 63"
  shows "(\<Sum>i < n. if P i then unat (r i :: u64) else 0) < 2 ^ 127"
proof -
  have "(\<Sum>i < n. if P i then unat (r i) else 0) \<le> (\<Sum>i < n. 2 ^ 64)"
    using unat_less_64 by (intro sum_mono) (simp add: less_imp_le)
  also have "\<dots> = n * 2 ^ 64" by simp
  also have "\<dots> < 2 ^ 63 * 2 ^ 64" using assms by simp
  finally show ?thesis by simp
qed

lemma zip_index: "length xs = length ys \<Longrightarrow> zip xs ys = map (\<lambda>i. (xs ! i, ys ! i)) [0..<length xs]"
  by (rule nth_equalityI) simp_all

text \<open>The guarantee of the weights: one per participant, none above what one million allows in
  total, zero for a participant that does not hold the stage.\<close>

definition weights_ok :: "bool list \<Rightarrow> u128 list \<Rightarrow> bool" where
  "weights_ok eligible ws \<longleftrightarrow> length ws = length eligible \<and> nsum ws \<le> 1000000
     \<and> (\<forall>i < length ws. \<not> eligible ! i \<longrightarrow> ws ! i = 0)"

lemma unat_rate_million: "unat (ucast (r :: u64) * 1000000 :: u128) = 1000000 * unat r"
proof -
  have "unat r * 1000000 < 2 ^ 128" using unat_less_64 [of r] by simp
  then show ?thesis by (simp add: unat_mult_no_wrap unat_ucast_up)
qed

lemma initial_weights_ok:
  assumes "length rates = length eligible" "length rates < 2 ^ 63"
  shows "weights_ok eligible (initial_weights rates eligible)"
proof -
  let ?n = "length rates"
  let ?g = "\<lambda>i. if eligible ! i then ucast (rates ! i) else (0 :: u128)"
  define t where "t = max (sum_list (map ?g [0..<?n])) 1"
  have t_eq: "max (sum_list (map (\<lambda>(r, e). ucast r) (filter snd (zip rates eligible)))) 1 = t"
    unfolding zip_index [OF assms(1)] sum_list_map_filter' map_map t_def by (simp add: comp_def cong: if_cong)
  have iw: "initial_weights rates eligible
      = map (\<lambda>i. if eligible ! i then (ucast (rates ! i) * 1000000) div t else 0) [0..<?n]"
    unfolding initial_weights_def Let_def t_eq unfolding zip_index [OF assms(1)] by simp
  have g: "(\<Sum>i < ?n. unat (?g i)) = (\<Sum>i < ?n. if eligible ! i then unat (rates ! i) else 0)"
    by (rule sum.cong) (simp_all add: unat_ucast_up)
  have "unat (sum_list (map ?g [0..<?n])) = (\<Sum>i < ?n. if eligible ! i then unat (rates ! i) else 0)"
    using unat_sum_upt [of ?g ?n] sum_rates_fit [OF assms(2), of "\<lambda>i. eligible ! i" "\<lambda>i. rates ! i"] by (simp add: g)
  then have t: "(\<Sum>i < ?n. if eligible ! i then unat (rates ! i) else 0) \<le> unat t" "unat t \<noteq> 0"
    unfolding t_def by (auto simp: max_def word_le_nat_alt)
  have "nsum (initial_weights rates eligible)
      = (\<Sum>i < ?n. 1000000 * (if eligible ! i then unat (rates ! i) else 0) div unat t)"
    unfolding iw nsum_index by (intro sum.cong) (simp_all add: unat_div unat_rate_million)
  also have "\<dots> \<le> 1000000" by (rule floor_sum [OF t(2,1)])
  finally show ?thesis using assms(1) by (simp add: weights_ok_def iw)
qed

text \<open>A pass moves weight about but never adds any.\<close>

lemma pass_lengths [simp]:
  "length (pass_cut caps eligible ws) = length ws"
  "length (pass_spread rates caps eligible e f ws) = length ws"
  by (simp_all add: pass_cut_def pass_spread_def)

lemma pass_cut_excess:
  assumes "nsum ws \<le> 1000000"
  shows "nsum (pass_cut caps eligible ws) + unat (pass_excess caps eligible ws) = nsum ws"
proof -
  let ?x = "\<lambda>i. if eligible ! i \<and> ws ! i > caps ! i then ws ! i - caps ! i else 0"
  have split: "unat (pass_cut caps eligible ws ! i) + unat (?x i) = unat (ws ! i)" if "i < length ws" for i
    using that by (auto simp: pass_cut_def unat_sub word_less_nat_alt word_le_nat_alt)
  then have eq: "nsum (pass_cut caps eligible ws) + (\<Sum>i < length ws. unat (?x i)) = nsum ws"
    unfolding nsum_index by (simp flip: sum.distrib)
  then have "unat (pass_excess caps eligible ws) = (\<Sum>i < length ws. unat (?x i))"
    using assms unfolding pass_excess_def by (intro unat_sum_upt) simp
  then show ?thesis using eq by simp
qed

lemma pass_free_rate_same:
  "pass_free_rate rates caps eligible (pass_cut caps eligible ws) = pass_free_rate rates caps eligible ws"
  unfolding pass_free_rate_def pass_lengths
  by (intro arg_cong [of _ _ sum_list] map_cong refl) (auto simp: pass_cut_def)

lemma unat_add_le: "unat (a + b :: 'a::len word) \<le> unat a + unat b"
  by (simp add: unat_word_ariths)

lemma pass_spread_sum:
  assumes "length ws < 2 ^ 63" "unat e \<le> 1000000" "nsum ws \<le> 1000000"
    and "f = pass_free_rate rates caps eligible ws" "f \<noteq> 0"
  shows "nsum (pass_spread rates caps eligible e f ws) \<le> nsum ws + unat e"
proof -
  let ?n = "length ws" and ?p = "\<lambda>i. eligible ! i \<and> ws ! i < caps ! i"
  let ?r = "\<lambda>i. if ?p i then unat (rates ! i) else 0"
  have "(\<Sum>i < ?n. unat (if ?p i then ucast (rates ! i) else (0 :: u128))) = (\<Sum>i < ?n. ?r i)"
    by (rule sum.cong) (simp_all add: unat_ucast_up)
  then have f: "unat f = (\<Sum>i < ?n. ?r i)"
    using sum_rates_fit [OF assms(1), of ?p "\<lambda>i. rates ! i"] assms(4)
      unat_sum_upt [of "\<lambda>i. if ?p i then ucast (rates ! i) else (0 :: u128)" ?n]
    by (simp add: pass_free_rate_def)
  have q: "unat (e * ucast (rates ! i)) = unat e * unat (rates ! i)" for i
  proof -
    have "unat e * unat (rates ! i) \<le> 1000000 * 2 ^ 64"
      using assms(2) unat_less_64 [of "rates ! i"] by (intro mult_le_mono) simp_all
    then show ?thesis by (simp add: unat_mult_no_wrap unat_ucast_up)
  qed
  have add: "unat (pass_spread rates caps eligible e f ws ! i) \<le> unat (ws ! i) + unat e * ?r i div unat f"
    if "i < ?n" for i
  proof (cases "?p i")
    case True
    then show ?thesis
      using that unat_add_le [of "ws ! i" "(e * ucast (rates ! i)) div f"] by (simp add: pass_spread_def unat_div q)
  qed (use that in \<open>auto simp: pass_spread_def\<close>)
  have "nsum (pass_spread rates caps eligible e f ws) \<le> (\<Sum>i < ?n. unat (ws ! i) + unat e * ?r i div unat f)"
    unfolding nsum_index pass_lengths by (rule sum_mono) (use add in simp)
  also have "\<dots> = nsum ws + (\<Sum>i < ?n. unat e * ?r i div unat f)" by (simp add: sum.distrib nsum_index)
  also have "\<dots> \<le> nsum ws + unat e"
  proof (intro add_left_mono floor_sum)
    show "unat f \<noteq> 0" using assms(5) by (simp add: unat_eq_0)
    show "(\<Sum>i < ?n. ?r i) \<le> unat f" by (simp only: f order_refl)
  qed
  finally show ?thesis .
qed

lemma cap_passes_ok:
  assumes "weights_ok eligible ws" "length ws < 2 ^ 63"
  shows "weights_ok eligible (cap_passes n rates caps eligible ws)"
  using assms
proof (induction n arbitrary: ws)
  case (Suc n)
  define cut where "cut = pass_cut caps eligible ws"
  define e where "e = pass_excess caps eligible ws"
  define f where "f = pass_free_rate rates caps eligible ws"
  have sum: "nsum cut + unat e = nsum ws" "nsum ws \<le> 1000000"
    using pass_cut_excess Suc.prems(1) by (simp_all add: cut_def e_def weights_ok_def)
  have zero: "\<forall>i < length ws. \<not> eligible ! i \<longrightarrow> cut ! i = 0"
    using Suc.prems(1) by (simp add: cut_def weights_ok_def pass_cut_def)
  have len: "length cut = length eligible" "length ws = length eligible"
    using Suc.prems(1) by (simp_all add: cut_def weights_ok_def)
  have cut: "weights_ok eligible cut" using sum zero len by (simp add: weights_ok_def)
  show ?case
  proof (cases "e = 0 \<or> f = 0")
    case True
    then show ?thesis using cut by (simp add: Let_def cut_def e_def f_def)
  next
    case False
    have "nsum (pass_spread rates caps eligible e f cut) \<le> nsum cut + unat e"
      using False sum len Suc.prems(2) by (intro pass_spread_sum) (simp_all add: f_def cut_def pass_free_rate_same)
    then have "weights_ok eligible (pass_spread rates caps eligible e f cut)"
      using sum zero len by (simp add: weights_ok_def pass_spread_def)
    then show ?thesis
      using Suc.IH [of "pass_spread rates caps eligible e f cut"] False len Suc.prems(2)
      by (simp add: Let_def cut_def e_def f_def)
  qed
qed simp

lemma capped_weights_ok:
  assumes "length rates = length eligible" "length rates < 2 ^ 63"
  shows "weights_ok eligible (capped_weights rates caps eligible)"
  unfolding capped_weights_def
  by (rule cap_passes_ok [OF initial_weights_ok [OF assms]]) (use assms in \<open>simp add: initial_weights_def Let_def\<close>)

text \<open>Rows of one stage: they add up to the stage, and only holders get any.\<close>

definition rows_ok :: "((u32 \<times> u32) list \<times> bool) list \<Rightarrow> stage \<Rightarrow> u64 list \<Rightarrow> bool" where
  "rows_ok resident s rows \<longleftrightarrow> length rows = length resident \<and> nsum rows = unat (st_rows s)
     \<and> (\<forall>i < length rows. rows ! i \<noteq> 0 \<longrightarrow> holds_stage (fst (resident ! i)) (snd (resident ! i)) s)"

lemma weights_cover:
  assumes "weights_ok eligible ws" "length ws < 1000000"
    and "\<not> sum_list ws + word_of_nat (length ws) < (1000000 :: u128)"
  obtains j where "j < length ws" "(ucast (ws ! j) :: u64) > 0"
proof -
  have n: "nsum ws \<le> 1000000" using assms(1) by (simp add: weights_ok_def)
  then have "unat (sum_list ws) = nsum ws" by (intro unat_sum_list) simp
  then have "1000000 \<le> nsum ws + length ws"
    using assms(2,3) n by (simp add: word_less_nat_alt unat_add_no_wrap unat_of_nat_small not_less)
  then have "nsum ws \<noteq> 0" using assms(2) by linarith
  then obtain j where j: "j < length ws" "unat (ws ! j) \<noteq> 0" unfolding nsum_index by (auto simp: sum_eq_0_iff)
  have "unat (ws ! j) < 2 ^ 64" using nth_le_nsum [OF j(1)] n by simp
  then have "unat (ucast (ws ! j) :: u64) = unat (ws ! j)" by (simp add: ucast_down_small)
  then have "(ucast (ws ! j) :: u64) > 0" using j(2) by (simp add: word_less_nat_alt)
  then show thesis using j(1) that by blast
qed

lemma share_stages_ok:
  assumes "length rates = length resident" "length resident < 1000000"
  shows "\<exists>r. share_stages rates caps resident ss = Some r \<and>
    (\<forall>rows. r = Some rows \<longrightarrow> list_all2 (rows_ok resident) ss rows)"
proof (induction ss)
  case (Cons s ss)
  define el where "el = map (\<lambda>(r, output). holds_stage r output s) resident"
  define ws where "ws = capped_weights rates caps el"
  have ok: "weights_ok el ws" unfolding ws_def using assms by (intro capped_weights_ok) (simp_all add: el_def)
  then have len: "length ws = length resident" by (simp add: weights_ok_def el_def)
  show ?case
  proof (cases "sum_list ws + word_of_nat (length ws) < (1000000 :: u128)")
    case True
    then show ?thesis by (simp add: Let_def flip: el_def ws_def)
  next
    case False
    have small: "length ws < 1000000" using len assms(2) by simp
    obtain j where j: "j < length ws" "(ucast (ws ! j) :: u64) > 0" by (rule weights_cover [OF ok small False])
    obtain rows where rows: "split_rows (st_rows s) (map ucast ws) = Some rows"
      "split_done (map ucast ws) (st_rows s) rows"
      using split_rows_exact [of j "map ucast ws" "st_rows s"] j small by auto
    have "holds_stage (fst (resident ! i)) (snd (resident ! i)) s" if "i < length rows" "rows ! i \<noteq> 0" for i
    proof (rule ccontr)
      assume "\<not> ?thesis"
      then have "\<not> el ! i" using that(1) rows(2) len by (simp add: el_def split_done_def split_beta)
      then have "ws ! i = 0" using ok that(1) rows(2) by (simp add: weights_ok_def split_done_def)
      then show False using rows(2) that by (simp add: split_done_def)
    qed
    then have "rows_ok resident s rows" using rows(2) len by (simp add: rows_ok_def split_done_def)
    then show ?thesis using Cons False rows(1) by (auto simp: Let_def simp flip: el_def ws_def)
  qed
qed simp

section \<open>The chosen placement\<close>

lemma set_lengths [simp]:
  "length (set_rates rate p cs) = length (participants_of p cs)"
  "length (set_resident p cs) = length (participants_of p cs)"
  by (simp_all add: set_rates_def set_resident_def participants_of_def)

lemma participants_length: "length (participants_of p cs) \<le> Suc (length cs)"
  by (simp add: participants_of_def)

definition choice_ok :: "stage list \<Rightarrow> policy \<Rightarrow> candidate list \<Rightarrow> u64 \<times> nat \<times> u64 list list \<Rightarrow> bool" where
  "choice_ok stages p pool b \<longleftrightarrow> (case b of (t, k, rows) \<Rightarrow>
     list_all2 (rows_ok (set_resident p (take k pool))) stages rows)"

lemma attempt_ok:
  assumes "length pool < 999999"
  obtains r where "attempt stages rate p (take k pool) = Some r"
    "\<And>t rows. r = Some (t, rows) \<Longrightarrow> choice_ok stages p pool (t, k, rows)"
proof -
  let ?c = "take k pool"
  have "length (set_resident p ?c) < 1000000"
    using assms participants_length [of p ?c] by simp
  then obtain r where "share_stages (set_rates rate p ?c) (set_caps stages p ?c) (set_resident p ?c) stages = Some r"
    "\<forall>rows. r = Some rows \<longrightarrow> list_all2 (rows_ok (set_resident p ?c)) stages rows"
    using share_stages_ok [of "set_rates rate p ?c" "set_resident p ?c" "set_caps stages p ?c" stages] by auto
  then show thesis by (intro that) (auto simp: attempt_def choice_ok_def)
qed

text \<open>The loop over worker counts always ends, keeps a sound choice, and never gives up a time it
  has reached.\<close>

definition better_choice ::
  "(u64 \<times> nat \<times> u64 list list) option \<Rightarrow> u64 \<times> nat \<times> u64 list list \<Rightarrow> (u64 \<times> nat \<times> u64 list list) option" where
  "better_choice best b = (case b of (t, k, rows) \<Rightarrow>
     if case best of None \<Rightarrow> True | Some (bt, bk, _) \<Rightarrow> t < bt \<or> t = bt \<and> k < bk then Some (t, k, rows) else best)"

lemma place_loop_step:
  assumes "k = 0 \<longrightarrow> po_include_coordinator p" "attempt stages rate p (take k pool) = Some (Some (t, rows))"
  shows "place_loop stages rate p pool best (k # ks) = place_loop stages rate p pool (better_choice best (t, k, rows)) ks"
  using assms by (auto simp: better_choice_def Let_def)

lemma better_choice_Some:
  "\<exists>b'. better_choice best b = Some b' \<and> (b' = b \<or> best = Some b') \<and> fst b' \<le> fst b \<and>
    (case best of None \<Rightarrow> True | Some c \<Rightarrow> fst b' \<le> fst c)"
  by (cases best; cases b) (auto simp: better_choice_def)

lemma place_loop_ok:
  assumes "length pool < 999999" "case best of None \<Rightarrow> True | Some b \<Rightarrow> choice_ok stages p pool b"
  shows "\<exists>r. place_loop stages rate p pool best ks = Some r \<and>
    (case r of None \<Rightarrow> True | Some b \<Rightarrow> choice_ok stages p pool b)"
  using assms(2)
proof (induction ks arbitrary: best)
  case (Cons k ks)
  obtain a where a: "attempt stages rate p (take k pool) = Some a"
    "\<And>t rows. a = Some (t, rows) \<Longrightarrow> choice_ok stages p pool (t, k, rows)"
    by (rule attempt_ok [OF assms(1)]) blast
  show ?case
  proof (cases "k = 0 \<longrightarrow> po_include_coordinator p")
    case True
    show ?thesis
    proof (cases a)
      case None
      then show ?thesis using Cons.IH [OF Cons.prems] a(1) True by simp
    next
      case (Some x)
      obtain t rows where x: "x = (t, rows)" by (cases x)
      obtain b' where "better_choice best (t, k, rows) = Some b'" "b' = (t, k, rows) \<or> best = Some b'"
        using better_choice_Some [of best "(t, k, rows)"] by blast
      then have "case better_choice best (t, k, rows) of None \<Rightarrow> True | Some b \<Rightarrow> choice_ok stages p pool b"
        using Cons.prems a(2) Some x by auto
      then show ?thesis
        unfolding place_loop_step [OF True a(1) [unfolded Some x]] by (rule Cons.IH)
    qed
  qed (use Cons.IH [OF Cons.prems] in simp)
qed simp

lemma place_loop_mono:
  assumes "place_loop stages rate p pool (Some b) ks = Some r"
  shows "\<exists>b'. r = Some b' \<and> fst b' \<le> fst b"
  using assms
proof (induction ks arbitrary: b)
  case Nil
  then show ?case by (intro exI [of _ b]) simp
next
  case (Cons k ks)
  show ?case
  proof (cases "k = 0 \<longrightarrow> po_include_coordinator p")
    case True
    consider "attempt stages rate p (take k pool) = Some None"
      | t rows where "attempt stages rate p (take k pool) = Some (Some (t, rows))"
      using Cons.prems True by (cases "attempt stages rate p (take k pool)"; cases "the (attempt stages rate p (take k pool))") auto
    then show ?thesis
    proof cases
      case 1
      then have "place_loop stages rate p pool (Some b) ks = Some r"
        using Cons.prems True by (auto split: if_splits)
      then show ?thesis by (rule Cons.IH)
    next
      case (2 t rows)
      obtain b1 where b1: "better_choice (Some b) (t, k, rows) = Some b1" "fst b1 \<le> fst b"
        using better_choice_Some [of "Some b" "(t, k, rows)"] by auto
      have "place_loop stages rate p pool (Some b1) ks = Some r"
        using Cons.prems unfolding place_loop_step [OF True 2] b1(1) .
      then show ?thesis using Cons.IH b1(2) by (blast intro: order_trans)
    qed
  qed (use Cons in auto)
qed

section \<open>Slices\<close>

lemma build_slices_cover:
  assumes "unat cursor + sum_list (map (\<lambda>i. unat (rows ! i)) order) < 2 ^ 64"
  shows "\<exists>fin. slices_cover cursor (build_slices ps rows cursor order) = Some fin \<and>
    unat fin = unat cursor + sum_list (map (\<lambda>i. unat (rows ! i)) order)"
  using assms
proof (induction order arbitrary: cursor)
  case (Cons i order)
  have c: "unat (cursor + rows ! i) = unat cursor + unat (rows ! i)"
    using Cons.prems by (intro unat_add_no_wrap) simp
  show ?case
  proof (cases "rows ! i = 0")
    case True
    then show ?thesis using Cons by simp
  next
    case False
    then have "\<not> cursor + rows ! i \<le> cursor" using c by (simp add: word_le_nat_alt unat_eq_0)
    then show ?thesis using Cons.IH [of "cursor + rows ! i"] Cons.prems c False by (simp add: Let_def add.assoc)
  qed
qed simp

lemma canonical_order_sum:
  "sum_list (map f (canonical_order ps)) = (\<Sum>i < length ps. f i)" for f :: "nat \<Rightarrow> nat"
proof -
  have "sum_list (map f (canonical_order ps)) = sum_mset (image_mset f (mset (canonical_order ps)))"
    by (simp only: mset_map [symmetric] sum_mset_sum_list)
  also have "mset (canonical_order ps) = mset [0..<length ps]" by (simp add: canonical_order_def)
  also have "sum_mset (image_mset f (mset [0..<length ps])) = sum_list (map f [0..<length ps])"
    by (simp only: mset_map [symmetric] sum_mset_sum_list)
  finally show ?thesis by (simp add: interv_sum_list_conv_sum_set_nat atLeast0LessThan)
qed

lemma build_slices_from:
  "sl \<in> set (build_slices ps rows cursor order) \<Longrightarrow>
    \<exists>i \<in> set order. rows ! i \<noteq> 0 \<and> sl_participant sl = ps ! i"
  by (induction order arbitrary: cursor) (auto simp: Let_def split: if_splits)

lemma canonical_order_set: "set (canonical_order ps) = {..<length ps}"
  by (simp add: canonical_order_def atLeast0LessThan)

lemma participant_residency:
  assumes "i < length (participants_of p cs)" "participants_of p cs ! i = Worker w"
  shows "\<exists>c \<in> set cs. cd_worker c = w \<and> set_resident p cs ! i = (cd_resident_layers c, cd_resident_output c)"
proof (cases "po_include_coordinator p")
  case True
  then obtain j where "i = Suc j" using assms(2) by (cases i) (auto simp: participants_of_def)
  then show ?thesis using assms True by (auto simp: participants_of_def set_resident_def intro!: bexI [of _ "cs ! j"])
next
  case False
  then show ?thesis using assms by (auto simp: participants_of_def set_resident_def intro!: bexI [of _ "cs ! i"])
qed

lemma keep_first_subset: "set (keep_first seen cs) \<subseteq> set cs" "length (keep_first seen cs) \<le> length cs"
proof (induction cs arbitrary: seen)
  case (Cons c cs)
  { case 1 show ?case using Cons(1) [of seen] Cons(1) [of "cd_worker c # seen"] by auto }
  { case 2 show ?case using Cons(2) [of seen] Cons(2) [of "cd_worker c # seen"] by auto }
qed simp_all

lemma candidate_pool_subset:
  "set (candidate_pool cs p) \<subseteq> {c \<in> set cs. usable c p}" "length (candidate_pool cs p) \<le> length cs"
proof -
  let ?xs = "sort_key (\<lambda>c. (2 ^ 64 - unat (cd_macs_per_s c), cd_worker c)) (filter (\<lambda>c. usable c p) cs)"
  show "set (candidate_pool cs p) \<subseteq> {c \<in> set cs. usable c p}"
    using keep_first_subset(1) [of "[]" ?xs] by (auto simp: candidate_pool_def)
  have "length ?xs \<le> length cs" by simp
  then show "length (candidate_pool cs p) \<le> length cs"
    using keep_first_subset(2) [of "[]" ?xs] unfolding candidate_pool_def by (rule order_trans [rotated])
qed

text \<open>With the coordinator taking part, the attempt without workers always covers every stage: its
  prediction is the coordinator's own time.\<close>

lemma capped_weights_alone:
  assumes "rate \<noteq> 0"
  shows "capped_weights [rate] [1000000] [True] = [1000000]"
proof -
  have r: "0 < unat rate" using assms by (simp add: unat_gt_0)
  have u: "unat (ucast rate :: u128) = unat rate" by (rule unat_ucast_up) simp
  have "1 \<le> (ucast rate :: u128)" unfolding word_le_nat_alt u using r by simp
  then have t: "max (ucast rate :: u128) 1 = ucast rate" by (rule max_absorb1)
  have "unat ((ucast rate * 1000000 :: u128) div ucast rate) = unat (1000000 :: u128)"
    unfolding unat_div unat_rate_million u using r by simp
  then have "(ucast rate * 1000000 :: u128) div ucast rate = 1000000" by (rule word_unat_eq_iff [THEN iffD2])
  then have i: "initial_weights [rate] [True] = [1000000]" unfolding initial_weights_def by (simp add: t)
  have "cap_passes (Suc 0) [rate] [1000000] [True] [1000000] = [1000000]"
    by (simp add: pass_cut_def pass_excess_def)
  then show ?thesis unfolding capped_weights_def i by simp
qed

lemma split_rows_alone: "split_rows rows [1000000] = Some [rows]"
proof -
  obtain out where "split_rows rows [1000000] = Some out" "split_done [1000000] rows out"
    using split_rows_exact [of 0 "[1000000]" rows] by auto
  moreover from this have "out = [rows]"
    by (cases out) (auto simp: split_done_def word_unat_eq_iff)
  ultimately show ?thesis by simp
qed

lemma share_stages_alone:
  assumes "rate \<noteq> 0"
  shows "share_stages [rate] [1000000] [([], True)] ss = Some (Some (map (\<lambda>s. [st_rows s]) ss))"
  by (induction ss) (simp_all add: holds_stage_def capped_weights_alone [OF assms] split_rows_alone)

lemma attempt_alone:
  assumes "rate \<noteq> 0" "po_include_coordinator p"
  shows "attempt stages rate p [] = Some (Some (coordinator_only stages rate p, map (\<lambda>s. [st_rows s]) stages))"
  using assms by (simp add: attempt_def set_rates_def set_caps_def set_resident_def set_links_def
      share_stages_alone coordinator_only_def)

section \<open>What a placement guarantees\<close>

lemma place_Inr:
  assumes "place stages rate cs p = Some (Inr pl)" "length cs < 999999"
  obtains t k rows where "pl = finish_placement stages rate p (candidate_pool cs p) (t, k, rows)"
    "choice_ok stages p (candidate_pool cs p) (t, k, rows)"
proof -
  let ?pool = "candidate_pool cs p"
  have len: "length ?pool < 999999" using candidate_pool_subset(2) [of cs p] assms(2) by simp
  have "\<exists>r. place_loop stages rate p ?pool None [0..<Suc (min (po_max_workers p) (length ?pool))] = Some r \<and>
      (case r of None \<Rightarrow> True | Some b \<Rightarrow> choice_ok stages p ?pool b)"
    by (rule place_loop_ok [OF len]) simp
  then obtain r where r: "place_loop stages rate p ?pool None [0..<Suc (min (po_max_workers p) (length ?pool))] = Some r"
    "case r of None \<Rightarrow> True | Some b \<Rightarrow> choice_ok stages p ?pool b"
    by blast
  obtain b where b: "r = Some b" "pl = finish_placement stages rate p ?pool b"
    using assms(1) unfolding place_def Let_def r(1) by (cases r) (simp_all split: if_splits)
  then show thesis using r(2) that by (cases b) simp
qed

lemma plan_covers:
  assumes "rows_ok (set_resident p cs) s rows"
  shows "slices_cover 0 (build_slices (participants_of p cs) rows 0 (canonical_order (participants_of p cs))) = Some (st_rows s)"
proof -
  let ?ps = "participants_of p cs"
  have sum: "sum_list (map (\<lambda>i. unat (rows ! i)) (canonical_order ?ps)) = unat (st_rows s)"
    using assms by (auto simp: canonical_order_sum rows_ok_def nsum_index)
  have "unat (0 :: u64) + sum_list (map (\<lambda>i. unat (rows ! i)) (canonical_order ?ps)) < 2 ^ 64"
    unfolding sum using unat_less_64 [of "st_rows s"] by simp
  then obtain fin where "slices_cover 0 (build_slices ?ps rows 0 (canonical_order ?ps)) = Some fin" "unat fin = unat (st_rows s)"
    using build_slices_cover [of 0 rows "canonical_order ?ps" ?ps] sum by auto
  then show ?thesis by (simp add: word_unat_eq_iff)
qed

lemma place_total:
  assumes "length cs < 999999"
  shows "\<exists>r. place stages rate cs p = Some r"
proof -
  have len: "length (candidate_pool cs p) < 999999" using candidate_pool_subset(2) [of cs p] assms by simp
  have "\<exists>r. place_loop stages rate p (candidate_pool cs p) None
      [0..<Suc (min (po_max_workers p) (length (candidate_pool cs p)))] = Some r \<and>
      (case r of None \<Rightarrow> True | Some b \<Rightarrow> choice_ok stages p (candidate_pool cs p) b)"
    by (rule place_loop_ok [OF len]) simp
  then show ?thesis by (auto simp: place_def Let_def simp del: upt_Suc split: option.splits)
qed

lemma place_with_coordinator:
  assumes "length cs < 999999" "stages \<noteq> []" "po_include_coordinator p" "rate \<noteq> 0"
  obtains pl where "place stages rate cs p = Some (Inr pl)"
    "pl_predicted_token_us pl \<le> pl_coordinator_only_token_us pl"
proof -
  let ?pool = "candidate_pool cs p"
  let ?t = "coordinator_only stages rate p" and ?rows = "map (\<lambda>s. [st_rows s]) stages"
  define n where "n = min (po_max_workers p) (length ?pool)"
  have len: "length ?pool < 999999" using candidate_pool_subset(2) [of cs p] assms(1) by simp
  have a: "attempt stages rate p (take 0 ?pool) = Some (Some (?t, ?rows))" using attempt_alone [OF assms(4,3)] by simp
  have ks: "[0..<Suc n] = 0 # [1..<Suc n]" by (simp add: upt_conv_Cons del: upt_Suc)
  have "\<exists>r. place_loop stages rate p ?pool None [0..<Suc n] = Some r \<and>
      (case r of None \<Rightarrow> True | Some b \<Rightarrow> choice_ok stages p ?pool b)"
    by (rule place_loop_ok [OF len]) simp
  then obtain r where r: "place_loop stages rate p ?pool None [0..<Suc n] = Some r" by blast
  then have "place_loop stages rate p ?pool (Some (?t, 0, ?rows)) [1..<Suc n] = Some r"
    unfolding ks using place_loop_step [of 0 p stages rate ?pool ?t ?rows None "[1..<Suc n]"] a assms(3)
    by (simp add: better_choice_def del: upt_Suc place_loop.simps)
  then obtain b where b: "r = Some b" "fst b \<le> ?t" using place_loop_mono by fastforce
  have "place stages rate cs p = Some (Inr (finish_placement stages rate p ?pool b))"
    using assms(2,4) r b(1) by (simp add: place_def Let_def n_def del: upt_Suc)
  then show thesis using that b(2) by (cases b) (simp add: finish_placement_def Let_def)
qed

lemma finish_plans:
  "pl_stages (finish_placement stages rate p pool (t, k, rows)) =
     map (\<lambda>si. \<lparr>sp_stage = si, sp_slices = build_slices (participants_of p (take k pool)) (rows ! si) 0
                  (canonical_order (participants_of p (take k pool)))\<rparr>) [0..<length stages]"
  by (simp add: finish_placement_def Let_def)

lemma choice_rows:
  assumes "choice_ok stages p pool (t, k, rows)" "si < length stages"
  shows "rows_ok (set_resident p (take k pool)) (stages ! si) (rows ! si)"
  using assms by (auto simp: choice_ok_def dest: list_all2_nthD)

lemma place_workers:
  assumes "place stages rate cs p = Some (Inr pl)" "length cs < 999999" "w \<in> set (pl_workers pl)"
  shows "\<exists>c \<in> set cs. cd_worker c = w \<and> usable c p"
proof -
  obtain t k rows where "pl = finish_placement stages rate p (candidate_pool cs p) (t, k, rows)"
    by (rule place_Inr [OF assms(1,2)])
  then obtain c where "c \<in> set (take k (candidate_pool cs p))" "cd_worker c = w"
    using assms(3) by (auto simp: finish_placement_def Let_def)
  then show ?thesis using candidate_pool_subset(1) [of cs p] by (auto dest: in_set_takeD)
qed

lemma placed_covers:
  assumes "place stages rate cs p = Some (Inr pl)" and "length cs < 999999"
  shows "covers_exactly pl stages"
proof -
  obtain t k rows where pl: "pl = finish_placement stages rate p (candidate_pool cs p) (t, k, rows)"
    and ok: "choice_ok stages p (candidate_pool cs p) (t, k, rows)"
    by (rule place_Inr [OF assms])
  show ?thesis
    using plan_covers [OF choice_rows [OF ok]]
    by (auto simp: covers_exactly_def pl finish_plans list_all_length)
qed

text \<open>The order in which distinct workers are offered does not matter.\<close>

lemma candidate_pool_order:
  assumes "mset cs = mset cs'" "distinct (map cd_worker cs)"
  shows "candidate_pool cs p = candidate_pool cs' p"
proof -
  let ?f = "\<lambda>c. (2 ^ 64 - unat (cd_macs_per_s c), cd_worker c)" and ?u = "\<lambda>c. usable c p"
  have "inj_on ?f (set (filter ?u cs))" using assms(2) by (auto simp: distinct_map inj_on_def)
  moreover have "mset (filter ?u cs) = mset (sort_key ?f (filter ?u cs'))"
    using assms(1) by (simp add: mset_filter)
  ultimately have "sort_key ?f (filter ?u cs) = sort_key ?f (filter ?u cs')"
    by (intro sort_key_inj_key_eq) simp_all
  then show ?thesis by (simp add: candidate_pool_def)
qed

section \<open>Properties\<close>

text \<open>C26: a placement covers every stage exactly once. The slices of each stage, in order, start at row
  zero, are not empty, do not overlap or leave a gap, and end at the stage's number of rows, whatever
  the measured rates, memory limits and links are and although products in the cost estimate may wrap.
  The bound on the number of candidates is the one below which rounding cannot hide an empty share.\<close>

theorem place_covers_exactly:
  assumes "place stages rate cs p = Some (Inr pl)" and "length cs < 999999"
  shows "covers_exactly pl stages"
  by (rule placed_covers [OF assms])

text \<open>C27: nobody is handed rows it does not hold. A slice given to a worker comes from an offered
  candidate of that worker which passes the policy (positive rate, bandwidth and free slots, a fresh and
  reliable enough link) and is resident for the stage.\<close>

theorem place_respects_residency:
  assumes "place stages rate cs p = Some (Inr pl)" and "length cs < 999999"
    and "plan \<in> set (pl_stages pl)" and "sl \<in> set (sp_slices plan)" and "sl_participant sl = Worker w"
  shows "\<exists>c \<in> set cs. cd_worker c = w \<and> usable c p \<and>
    holds_stage (cd_resident_layers c) (cd_resident_output c) (stages ! sp_stage plan)"
proof -
  obtain t k rows where pl: "pl = finish_placement stages rate p (candidate_pool cs p) (t, k, rows)"
    and ok: "choice_ok stages p (candidate_pool cs p) (t, k, rows)"
    by (rule place_Inr [OF assms(1,2)])
  let ?ch = "take k (candidate_pool cs p)"
  obtain si where si: "si < length stages" "sp_stage plan = si"
    "sp_slices plan = build_slices (participants_of p ?ch) (rows ! si) 0 (canonical_order (participants_of p ?ch))"
    using assms(3) by (auto simp: pl finish_plans)
  obtain i where i: "i < length (participants_of p ?ch)" "rows ! si ! i \<noteq> 0" "participants_of p ?ch ! i = Worker w"
    using build_slices_from [OF assms(4) [unfolded si(3)]] assms(5) by (auto simp: canonical_order_set)
  obtain c where c: "c \<in> set ?ch" "cd_worker c = w" "set_resident p ?ch ! i = (cd_resident_layers c, cd_resident_output c)"
    using participant_residency [OF i(1,3)] by blast
  have "holds_stage (cd_resident_layers c) (cd_resident_output c) (stages ! si)"
    using choice_rows [OF ok si(1)] i(1,2) c(3) by (auto simp: rows_ok_def)
  then show ?thesis using c(1,2) si(2) candidate_pool_subset(1) [of cs p] by (auto dest: in_set_takeD)
qed

text \<open>C28: when the coordinator takes part, a placement is always found, and it is never predicted to be
  slower than the coordinator alone.\<close>

theorem place_never_slower:
  assumes "length cs < 999999" and "stages \<noteq> []" and "po_include_coordinator p" and "rate \<noteq> 0"
  shows "\<exists>pl. place stages rate cs p = Some (Inr pl) \<and>
    pl_predicted_token_us pl \<le> pl_coordinator_only_token_us pl"
  by (rule place_with_coordinator [OF assms]) blast

text \<open>Placement is deterministic in the set of offers: two lists with the same candidates give the
  same placement when no worker is offered twice.\<close>

lemma place_order_independent:
  assumes "mset cs = mset cs'" and "distinct (map cd_worker cs)"
  shows "place stages rate cs p = place stages rate cs' p"
  using candidate_pool_order [OF assms] by (simp add: place_def)

section \<open>A concrete placement\<close>

definition demo_stage :: stage where
  "demo_stage = \<lparr>st_layer = Some 3, st_tensor = ''wq'', st_rows = 10, st_cols = 4\<rparr>"

definition demo_link :: link_measurement where
  "demo_link = \<lparr>lm_samples = 1, lm_rtt_median_us = 5, lm_rtt_p95_us = 5, lm_jitter_us = 0,
     lm_bandwidth_bps = 1000, lm_failure_per_mille = 0, lm_measured_at = 7, lm_simulated = False\<rparr>"

definition demo_worker :: "address \<Rightarrow> candidate" where
  "demo_worker a = \<lparr>cd_worker = a, cd_transport_id = ''t'', cd_macs_per_s = 100, cd_ram_headroom_bytes = 40,
     cd_max_concurrency = 1, cd_link = demo_link, cd_resident_layers = [(2, 5)], cd_resident_output = False\<rparr>"

definition demo_policy :: "bool \<Rightarrow> policy" where
  "demo_policy coord = \<lparr>po_max_workers = 4, po_max_link_age = 10, po_now = 9, po_max_failure_per_mille = 50,
     po_allow_simulated_links = False, po_input_element_bytes = 1, po_output_element_bytes = 8,
     po_weight_bytes_per_element = 1, po_include_coordinator = coord\<rparr>"

definition demo_offer :: "u64 \<Rightarrow> address \<Rightarrow> candidate" where
  "demo_offer rtt a = (demo_worker a)\<lparr>cd_link := demo_link\<lparr>lm_rtt_p95_us := rtt\<rparr>\<rparr>"

lemma demo_worker_offer: "demo_worker a = demo_offer 5 a"
  by (simp add: demo_offer_def demo_worker_def demo_link_def)

lemma demo_fields: "cd_worker (demo_offer r a) = a" "cd_macs_per_s (demo_offer r a) = 100"
  "po_max_workers (demo_policy b) = 4" "po_include_coordinator (demo_policy b) = b" "st_rows demo_stage = 10"
  by (simp_all add: demo_offer_def demo_worker_def demo_policy_def demo_stage_def)

lemma demo_usable: "usable (demo_offer r a) (demo_policy b)"
  by (simp add: usable_def demo_offer_def demo_worker_def demo_link_def demo_policy_def saturating_sub_def)

lemma demo_holds:
  "holds_stage (cd_resident_layers (demo_offer r a)) (cd_resident_output (demo_offer r a)) demo_stage"
  by (simp add: holds_stage_def demo_offer_def demo_worker_def demo_stage_def)

lemma demo_cap: "memory_cap [demo_stage] (demo_policy b) (demo_offer r a) = 1000000"
  using demo_holds [of r a]
  by (simp add: memory_cap_def) (simp add: demo_offer_def demo_worker_def demo_stage_def demo_policy_def)

lemma demo_predict: "unat r < 1000 \<Longrightarrow>
  predict [demo_stage] [100] [Some (cd_link (demo_offer r a))] [[10]] (demo_policy b) = r + 484000"
  by (simp add: predict_def slowest_us_def comm_us_def demo_offer_def demo_worker_def demo_link_def
      demo_stage_def demo_policy_def word_unat_eq_iff unat_ucast_up unat_word_ariths ucast_down_small
      min_def max_def word_le_nat_alt unsigned_minus_1_eq_mask mask_eq_exp_minus_1)

lemma demo_attempt:
  assumes "unat r < 1000"
  shows "attempt [demo_stage] 0 (demo_policy False) [demo_offer r a] = Some (Some (r + 484000, [[10]]))"
  using demo_holds [of r a] demo_cap [of False r a] demo_predict [OF assms]
  by (simp add: attempt_def set_rates_def set_caps_def set_resident_def set_links_def capped_weights_alone
      split_rows_alone demo_fields)

lemma demo_place_pool:
  assumes "candidate_pool cs (demo_policy False) = [demo_offer r a]" "unat r < 1000"
  shows "place [demo_stage] 0 cs (demo_policy False)
    = Some (Inr (finish_placement [demo_stage] 0 (demo_policy False) [demo_offer r a] (r + 484000, 1, [[10]])))"
  using assms by (simp add: place_def demo_fields demo_attempt)

lemma demo_place:
  "\<exists>pl. place [demo_stage] 0 [demo_worker a] (demo_policy False) = Some (Inr pl) \<and>
     pl_stages pl = [\<lparr>sp_stage = 0, sp_slices = [\<lparr>sl_participant = Worker a, sl_row_start = 0, sl_row_end = 10\<rparr>]\<rparr>]"
proof -
  have "candidate_pool [demo_worker a] (demo_policy False) = [demo_offer 5 a]"
    by (simp add: candidate_pool_def demo_worker_offer demo_usable)
  note demo_place_pool [OF this]
  then show ?thesis
    by (simp add: finish_placement_def participants_of_def canonical_order_def Let_def demo_fields)
qed

text \<open>When one worker is offered twice at the same rate, the first offer in input order wins, and the
  placement depends on that order.\<close>

lemma duplicate_offers_order_matters:
  "place [demo_stage] 0 [demo_offer 5 1, demo_offer 50 1] (demo_policy False)
   \<noteq> place [demo_stage] 0 [demo_offer 50 1, demo_offer 5 1] (demo_policy False)"
proof -
  have "candidate_pool [demo_offer 5 1, demo_offer 50 1] (demo_policy False) = [demo_offer 5 1]"
    "candidate_pool [demo_offer 50 1, demo_offer 5 1] (demo_policy False) = [demo_offer 50 1]"
    by (simp_all add: candidate_pool_def demo_usable demo_fields)
  then show ?thesis by (simp add: demo_place_pool) (simp add: finish_placement_def Let_def)
qed

theorem place_covers_exactly_witness:
  "\<exists>pl. place [demo_stage] 0 [demo_worker 1] (demo_policy False) = Some (Inr pl) \<and> covers_exactly pl [demo_stage]"
proof -
  obtain pl where "place [demo_stage] 0 [demo_worker 1] (demo_policy False) = Some (Inr pl)"
    using demo_place by blast
  then show ?thesis using place_covers_exactly [of "[demo_stage]" 0 "[demo_worker 1]" "demo_policy False" pl] by simp
qed

theorem place_respects_residency_witness:
  "\<exists>c \<in> set [demo_worker 1]. cd_worker c = 1 \<and> usable c (demo_policy False) \<and>
    holds_stage (cd_resident_layers c) (cd_resident_output c) demo_stage"
proof -
  obtain pl where pl: "place [demo_stage] 0 [demo_worker 1] (demo_policy False) = Some (Inr pl)"
    and ps: "pl_stages pl = [\<lparr>sp_stage = 0, sp_slices = [\<lparr>sl_participant = Worker 1, sl_row_start = 0, sl_row_end = 10\<rparr>]\<rparr>]"
    using demo_place by blast
  show ?thesis
    using place_respects_residency [OF pl, of "\<lparr>sp_stage = 0, sp_slices = [\<lparr>sl_participant = Worker 1,
        sl_row_start = 0, sl_row_end = 10\<rparr>]\<rparr>" "\<lparr>sl_participant = Worker 1, sl_row_start = 0, sl_row_end = 10\<rparr>" 1]
    by (simp add: ps)
qed

theorem place_never_slower_witness:
  "\<exists>pl. place [demo_stage] 100 [demo_worker 1] (demo_policy True) = Some (Inr pl) \<and>
    pl_predicted_token_us pl \<le> pl_coordinator_only_token_us pl"
  by (rule place_never_slower) (simp_all add: demo_policy_def)

end
