(* ===== verification/Arc_Book.thy ===== *)
theory Arc_Book
  imports Arc_Placement
begin

text \<open>
  The coordinator's books (\<open>crates/arc-assign/src/book.rs\<close>): the latest lease per worker, one
  challenge per worker and epoch, recent probes, exclusions, and the function that turns all of them
  into placement candidates. The lemmas show that a worker found at fault stays excluded for the
  epoch, that a challenge is answered at most once, that the probe rings are bounded, and that what
  becomes a candidate can be reserved.
\<close>

section \<open>Leases\<close>

datatype offered = OfferAccepted | OfferStale

record lease_book =
  lk_leases :: "(address, capability_lease) store"

definition lease_book_new :: lease_book where "lease_book_new = \<lparr>lk_leases = []\<rparr>"

definition lease_offer ::
  "'z crypto_scheme \<Rightarrow> 'w assign_wire_scheme \<Rightarrow> capability_lease \<Rightarrow> lease_requirements \<Rightarrow> lease_book
    \<Rightarrow> lease_error + offered \<times> lease_book" where
  "lease_offer cr w l req b =
     and_then (lease_validate cr w l req) (\<lambda>_.
       let key = lb_worker (lease_body_of l) in
       if (case map_of (lk_leases b) key of
             None \<Rightarrow> False
           | Some cur \<Rightarrow> lb_nonce (lease_body_of l) \<le> lb_nonce (lease_body_of cur))
       then Inr (OfferStale, b)
       else Inr (OfferAccepted, b\<lparr>lk_leases := mput key l (lk_leases b)\<rparr>))"

definition lease_current :: "address list \<Rightarrow> u64 \<Rightarrow> address \<Rightarrow> capability_lease \<Rightarrow> bool" where
  "lease_current members height key l \<longleftrightarrow> key \<in> set members \<and> height < lb_expires_at_height (lease_body_of l)"

definition retain_current :: "address list \<Rightarrow> u64 \<Rightarrow> lease_book \<Rightarrow> address list \<times> lease_book" where
  "retain_current members height b =
     (map fst (filter (\<lambda>(k, l). \<not> lease_current members height k l) (lk_leases b)),
      b\<lparr>lk_leases := mretain (lease_current members height) (lk_leases b)\<rparr>)"

section \<open>Challenges\<close>

datatype challenge_state = InFlight u64 | Measured u64 | ChallengeRefused

datatype challenge_error = AlreadyChallenged u64 | NotInFlight

record challenge_book =
  cb_epoch :: u64
  cb_state :: "(address, challenge_state) store"

definition challenge_book_new :: "u64 \<Rightarrow> challenge_book" where
  "challenge_book_new epoch = \<lparr>cb_epoch = epoch, cb_state = []\<rparr>"

definition cb_begin_epoch :: "u64 \<Rightarrow> challenge_book \<Rightarrow> nat \<times> challenge_book" where
  "cb_begin_epoch epoch b =
     (if epoch = cb_epoch b then (0, b)
      else (length (cb_state b), b\<lparr>cb_epoch := epoch, cb_state := []\<rparr>))"

definition cb_issue :: "address \<Rightarrow> u64 \<Rightarrow> challenge_book \<Rightarrow> challenge_error + challenge_book" where
  "cb_issue worker deadline b =
     (if mhas (cb_state b) worker then Inl (AlreadyChallenged (cb_epoch b))
      else Inr (b\<lparr>cb_state := mput worker (InFlight deadline) (cb_state b)\<rparr>))"

definition cb_answer ::
  "address \<Rightarrow> lease_error + u64 \<Rightarrow> u64 \<Rightarrow> challenge_book \<Rightarrow> challenge_error + challenge_state \<times> challenge_book" where
  "cb_answer worker checked now b =
     (case map_of (cb_state b) worker of
        Some (InFlight deadline) \<Rightarrow>
          (let outcome = (case checked of
                 Inr macs_per_s \<Rightarrow> if now \<le> deadline \<and> macs_per_s > 0 then Measured macs_per_s else ChallengeRefused
               | Inl _ \<Rightarrow> ChallengeRefused) in
           Inr (outcome, b\<lparr>cb_state := mput worker outcome (cb_state b)\<rparr>))
      | _ \<Rightarrow> Inl NotInFlight)"

fun overdue :: "u64 \<Rightarrow> challenge_state \<Rightarrow> bool" where
  "overdue now (InFlight deadline) \<longleftrightarrow> now > deadline"
| "overdue now _ \<longleftrightarrow> False"

definition cb_expire :: "u64 \<Rightarrow> challenge_book \<Rightarrow> nat \<times> challenge_book" where
  "cb_expire now b =
     (length (filter (\<lambda>(_, s). overdue now s) (cb_state b)),
      b\<lparr>cb_state := map (\<lambda>(k, s). (k, if overdue now s then ChallengeRefused else s)) (cb_state b)\<rparr>)"

definition cb_measured :: "challenge_book \<Rightarrow> address \<Rightarrow> u64 option" where
  "cb_measured b worker = (case map_of (cb_state b) worker of Some (Measured m) \<Rightarrow> Some m | _ \<Rightarrow> None)"

definition cb_retain_members :: "address list \<Rightarrow> challenge_book \<Rightarrow> nat \<times> challenge_book" where
  "cb_retain_members members b =
     (let rest = mretain (\<lambda>k _. k \<in> set members) (cb_state b) in
      (length (cb_state b) - length rest, b\<lparr>cb_state := rest\<rparr>))"

section \<open>Probes\<close>

definition MAX_PROBES_PER_WORKER :: nat where "MAX_PROBES_PER_WORKER = 32"

record probe_book =
  pb_simulated :: bool
  pb_probes :: "(address, (u64 \<times> probe) list) store"
  pb_counters :: "(address, path_counters) store"
  pb_transport_loss :: "(address, u32) store"

definition probe_book_new :: "bool \<Rightarrow> probe_book" where
  "probe_book_new simulated =
     \<lparr>pb_simulated = simulated, pb_probes = [], pb_counters = [], pb_transport_loss = []\<rparr>"

definition ring_push :: "'a \<Rightarrow> 'a list \<Rightarrow> 'a list" where
  "ring_push x ring = (if length ring = MAX_PROBES_PER_WORKER then tl ring else ring) @ [x]"

definition record_probe :: "address \<Rightarrow> u64 \<Rightarrow> probe \<Rightarrow> probe_book \<Rightarrow> probe_book" where
  "record_probe worker at pr b = b\<lparr>pb_probes := mentry worker [] (ring_push (at, pr)) (pb_probes b)\<rparr>"

definition record_counters :: "address \<Rightarrow> path_counters \<Rightarrow> probe_book \<Rightarrow> u32 option \<times> probe_book" where
  "record_counters worker now b =
     (let previous = map_of (pb_counters b) worker;
          loss = (case previous of None \<Rightarrow> None | Some earlier \<Rightarrow> windowed_loss_per_mille earlier now);
          b' = b\<lparr>pb_counters := mput worker now (pb_counters b)\<rparr> in
      (loss,
       case loss of
         Some per_mille \<Rightarrow> b'\<lparr>pb_transport_loss := mput worker per_mille (pb_transport_loss b)\<rparr>
       | None \<Rightarrow>
           if map_option pc_generation previous \<noteq> Some (pc_generation now)
           then b'\<lparr>pb_transport_loss := mdel worker (pb_transport_loss b)\<rparr>
           else b'))"

definition link_of :: "probe_book \<Rightarrow> address \<Rightarrow> link_measurement option" where
  "link_of b worker =
     (case map_of (pb_probes b) worker of
        None \<Rightarrow> None
      | Some ring \<Rightarrow>
          (case list_max (map fst ring) of
             None \<Rightarrow> None
           | Some measured_at \<Rightarrow>
               (case summarize (map snd ring) measured_at (pb_simulated b) of
                  None \<Rightarrow> None
                | Some m \<Rightarrow>
                    Some (case map_of (pb_transport_loss b) worker of
                            None \<Rightarrow> m
                          | Some loss \<Rightarrow> m\<lparr>lm_failure_per_mille := max (lm_failure_per_mille m) loss\<rparr>))))"

definition pb_retain_members :: "address list \<Rightarrow> probe_book \<Rightarrow> nat \<times> probe_book" where
  "pb_retain_members members b =
     (let keep = (\<lambda>k. k \<in> set members); rest = mretain (\<lambda>k _. keep k) (pb_probes b) in
      (length (pb_probes b) - length rest,
       b\<lparr>pb_probes := rest,
         pb_counters := mretain (\<lambda>k _. keep k) (pb_counters b),
         pb_transport_loss := mretain (\<lambda>k _. keep k) (pb_transport_loss b)\<rparr>))"

definition pb_len :: "probe_book \<Rightarrow> nat" where
  "pb_len b = sum_list (map (length \<circ> snd) (pb_probes b))"

section \<open>Exclusions\<close>

definition FAILURES_BEFORE_EXCLUSION :: u32 where "FAILURES_BEFORE_EXCLUSION = 3"

text \<open>The outcome of a check, from \<open>verify.rs\<close>.\<close>

datatype check_finding = Agrees | Fault nat participant hash256 hash256

definition compare_digests :: "nat \<Rightarrow> participant \<Rightarrow> hash256 \<Rightarrow> hash256 \<Rightarrow> check_finding" where
  "compare_digests stage part expected found =
     (if expected = found then Agrees else Fault stage part expected found)"

datatype exclusion = ExFault hash256 nat hash256 hash256 | ExFailures u32

record exclusions =
  ex_epoch :: u64
  ex_excluded :: "(address, exclusion) store"
  ex_failures :: "(address, u32) store"

definition exclusions_new :: "u64 \<Rightarrow> exclusions" where
  "exclusions_new epoch = \<lparr>ex_epoch = epoch, ex_excluded = [], ex_failures = []\<rparr>"

definition ex_begin_epoch :: "u64 \<Rightarrow> exclusions \<Rightarrow> nat \<times> exclusions" where
  "ex_begin_epoch epoch x =
     (if epoch = ex_epoch x then (0, x)
      else (length (ex_excluded x), x\<lparr>ex_epoch := epoch, ex_excluded := [], ex_failures := []\<rparr>))"

fun ex_fault :: "hash256 \<Rightarrow> check_finding \<Rightarrow> exclusions \<Rightarrow> address option \<times> exclusions" where
  "ex_fault certificate (Fault stage (Worker worker) expected found) x =
     (Some worker,
      x\<lparr>ex_excluded := mor_insert worker (ExFault certificate stage expected found) (ex_excluded x),
        ex_failures := mdel worker (ex_failures x)\<rparr>)"
| "ex_fault certificate _ x = (None, x)"

definition call_failed :: "address \<Rightarrow> exclusions \<Rightarrow> bool \<times> exclusions" where
  "call_failed worker x =
     (if mhas (ex_excluded x) worker then (False, x)
      else let cnt = (case map_of (ex_failures x) worker of None \<Rightarrow> 0 | Some n \<Rightarrow> n) + 1;
               failures = mput worker cnt (ex_failures x) in
        if cnt < FAILURES_BEFORE_EXCLUSION then (False, x\<lparr>ex_failures := failures\<rparr>)
        else (True, x\<lparr>ex_failures := mdel worker failures,
                      ex_excluded := mput worker (ExFailures cnt) (ex_excluded x)\<rparr>))"

definition call_succeeded :: "address \<Rightarrow> exclusions \<Rightarrow> exclusions" where
  "call_succeeded worker x = x\<lparr>ex_failures := mdel worker (ex_failures x)\<rparr>"

definition forgive_failures :: "address \<Rightarrow> exclusions \<Rightarrow> bool \<times> exclusions" where
  "forgive_failures worker x =
     (let x' = x\<lparr>ex_failures := mdel worker (ex_failures x)\<rparr> in
      case map_of (ex_excluded x) worker of
        Some (ExFailures _) \<Rightarrow> (True, x'\<lparr>ex_excluded := mdel worker (ex_excluded x)\<rparr>)
      | _ \<Rightarrow> (False, x'))"

definition is_excluded :: "exclusions \<Rightarrow> address \<Rightarrow> bool" where
  "is_excluded x worker = mhas (ex_excluded x) worker"

definition ex_retain_members :: "address list \<Rightarrow> exclusions \<Rightarrow> nat \<times> exclusions" where
  "ex_retain_members members x =
     (let rest = mretain (\<lambda>k _. k \<in> set members) (ex_excluded x) in
      (length (ex_excluded x) - length rest,
       x\<lparr>ex_excluded := rest, ex_failures := mretain (\<lambda>k _. k \<in> set members) (ex_failures x)\<rparr>))"

section \<open>Candidates\<close>

record worker_offer =
  of_worker :: address
  of_transport_id :: string
  of_ram_headroom_bytes :: u64
  of_claimed_macs_per_s :: "u64 option"
  of_resident_layers :: "(u32 \<times> u32) list"
  of_resident_output :: bool
  of_digest :: hash256

definition offer_from_lease :: "'z crypto_scheme \<Rightarrow> 'w assign_wire_scheme \<Rightarrow> capability_lease \<Rightarrow> worker_offer" where
  "offer_from_lease cr w l =
     (let b = lease_body_of l in
      \<lparr>of_worker = lb_worker b,
       of_transport_id = lb_transport_id b,
       of_ram_headroom_bytes = lb_ram_headroom_bytes b,
       of_claimed_macs_per_s = Some (lb_claimed_macs_per_s b),
       of_resident_layers = lb_resident_layers b,
       of_resident_output = False,
       of_digest = lease_digest cr w l\<rparr>)"

definition candidate_of ::
  "challenge_book \<Rightarrow> probe_book \<Rightarrow> reservation_ledger \<Rightarrow> exclusions \<Rightarrow> worker_offer \<Rightarrow> candidate option" where
  "candidate_of challenges probes ledger ex offer =
     (if is_excluded ex (of_worker offer) then None
      else case cb_measured challenges (of_worker offer) of
        None \<Rightarrow> None
      | Some measured \<Rightarrow>
          (let slots = free_slots ledger (of_worker offer) in
           if slots = 0 then None
           else case link_of probes (of_worker offer) of
             None \<Rightarrow> None
           | Some link \<Rightarrow>
               Some \<lparr>cd_worker = of_worker offer,
                     cd_transport_id = of_transport_id offer,
                     cd_macs_per_s = (case of_claimed_macs_per_s offer of
                        None \<Rightarrow> measured | Some claimed \<Rightarrow> min measured claimed),
                     cd_ram_headroom_bytes = of_ram_headroom_bytes offer,
                     cd_max_concurrency = slots,
                     cd_link = link,
                     cd_resident_layers = of_resident_layers offer,
                     cd_resident_output = of_resident_output offer\<rparr>))"

definition candidates_from ::
  "worker_offer list \<Rightarrow> challenge_book \<Rightarrow> probe_book \<Rightarrow> reservation_ledger \<Rightarrow> exclusions
    \<Rightarrow> candidate list \<times> hash256 list" where
  "candidates_from offers challenges probes ledger ex =
     foldl (\<lambda>(out, digests) offer.
         case candidate_of challenges probes ledger ex offer of
           None \<Rightarrow> (out, digests)
         | Some c \<Rightarrow> (out @ [c], digests @ [of_digest offer]))
       ([], []) offers"

definition candidates ::
  "'z crypto_scheme \<Rightarrow> 'w assign_wire_scheme \<Rightarrow> lease_requirements \<Rightarrow> lease_book \<Rightarrow> challenge_book \<Rightarrow> probe_book
    \<Rightarrow> reservation_ledger \<Rightarrow> exclusions \<Rightarrow> candidate list \<times> hash256 list" where
  "candidates cr w req leases challenges probes ledger ex =
     candidates_from
       (map (offer_from_lease cr w)
         (filter (\<lambda>l. lease_validate cr w l req = Inr ()) (map snd (lk_leases leases))))
       challenges probes ledger ex"

section \<open>Books stay bounded\<close>

definition leases_ok :: "lease_book \<Rightarrow> bool" where
  "leases_ok b \<longleftrightarrow> mwf (lk_leases b) \<and> (\<forall>(k, l) \<in> set (lk_leases b). lb_worker (lease_body_of l) = k)"

lemma lease_validate_Inr:
  "lease_validate cr w l req = Inr u \<longleftrightarrow> lb_version (lease_body_of l) = 1
     \<and> sig_verify cr (lease_signature l) (lease_transcript cr w (lease_body_of l)) (lb_worker (lease_body_of l)) = Inr ()
     \<and> lb_worker (lease_body_of l) \<in> set (req_members req)
     \<and> lb_artifact_id (lease_body_of l) = req_artifact_id req
     \<and> lb_execution_profile (lease_body_of l) = req_execution_profile req
     \<and> req_operator req \<in> set (lb_operators (lease_body_of l))
     \<and> lb_issued_at_height (lease_body_of l) \<le> req_height req
     \<and> req_height req < lb_expires_at_height (lease_body_of l)"
  by (auto simp: lease_validate_def Let_def split: sum.splits)

text \<open>A lease enters the book only when it validates and is newer than the one it replaces.\<close>

lemma lease_offer_accepted:
  assumes "lease_offer cr w l req b = Inr (OfferAccepted, b')"
  shows "lease_validate cr w l req = Inr ()"
    and "map_of (lk_leases b') = (map_of (lk_leases b))(lb_worker (lease_body_of l) \<mapsto> l)"
    and "\<And>old. map_of (lk_leases b) (lb_worker (lease_body_of l)) = Some old \<Longrightarrow>
      lb_nonce (lease_body_of old) < lb_nonce (lease_body_of l)"
    and "leases_ok b \<Longrightarrow> leases_ok b'"
  using assms by (auto simp: lease_offer_def Let_def result_simps map_of_mput leases_ok_def set_mput not_le
      split: if_splits option.splits)

lemma retain_current_ok:
  assumes "leases_ok b" "retain_current members h b = (gone, b')"
  shows "leases_ok b'"
    and "map_of (lk_leases b') k = Some l \<longleftrightarrow> map_of (lk_leases b) k = Some l \<and> lease_current members h k l"
    and "set gone = {k. \<exists>l. map_of (lk_leases b) k = Some l \<and> \<not> lease_current members h k l}"
proof -
  have wf: "mwf (lk_leases b)" and b': "b' = b\<lparr>lk_leases := mretain (lease_current members h) (lk_leases b)\<rparr>"
    and gone: "gone = map fst (filter (\<lambda>(k, l). \<not> lease_current members h k l) (lk_leases b))"
    using assms by (auto simp: leases_ok_def retain_current_def)
  show "leases_ok b'" using assms(1) by (auto simp: leases_ok_def b' mretain_def)
  show "map_of (lk_leases b') k = Some l \<longleftrightarrow> map_of (lk_leases b) k = Some l \<and> lease_current members h k l"
    by (auto simp: b' map_of_mretain [OF wf] split: option.splits)
  show "set gone = {k. \<exists>l. map_of (lk_leases b) k = Some l \<and> \<not> lease_current members h k l}"
    by (auto simp: gone map_of_iff_set [OF wf] image_iff)
qed

text \<open>A worker is challenged once per epoch, and an answer ends the challenge.\<close>

lemma cb_issue_once:
  "cb_issue w d b = Inr b' \<longleftrightarrow> map_of (cb_state b) w = None \<and> b' = b\<lparr>cb_state := mput w (InFlight d) (cb_state b)\<rparr>"
  by (auto simp: cb_issue_def mhas_def)

lemma cb_answer_final:
  assumes "cb_answer w checked now b = Inr (out, b')"
  shows "cb_answer w checked' now' b' = Inl NotInFlight"
    and "cb_measured b' w = Some m \<longleftrightarrow> checked = Inr m \<and> out = Measured m"
  using assms by (auto simp: cb_answer_def cb_measured_def Let_def map_of_mput
      split: option.splits challenge_state.splits sum.splits if_splits)

definition rings_ok :: "probe_book \<Rightarrow> bool" where
  "rings_ok b \<longleftrightarrow> mwf (pb_probes b) \<and> (\<forall>(k, ring) \<in> set (pb_probes b). length ring \<le> MAX_PROBES_PER_WORKER)"

lemma ring_push_bound: "length ring \<le> MAX_PROBES_PER_WORKER \<Longrightarrow> length (ring_push x ring) \<le> MAX_PROBES_PER_WORKER"
  by (auto simp: ring_push_def MAX_PROBES_PER_WORKER_def)

lemma record_probe_rings:
  assumes "rings_ok b"
  shows "rings_ok (record_probe w at pr b)"
proof -
  have "length (case map_of (pb_probes b) w of None \<Rightarrow> [] | Some r \<Rightarrow> r) \<le> MAX_PROBES_PER_WORKER"
    using assms by (auto simp: rings_ok_def dest: map_of_SomeD split: option.splits)
  then show ?thesis
    using assms ring_push_bound by (auto simp: rings_ok_def record_probe_def mentry_def set_mput)
qed

lemma pb_retain_rings: "rings_ok b \<Longrightarrow> rings_ok (snd (pb_retain_members ms b))"
  by (auto simp: rings_ok_def pb_retain_members_def Let_def mretain_def)

lemma probes_bounded:
  assumes "rings_ok b"
  shows "pb_len b \<le> 32 * length (pb_probes b)"
proof -
  have "\<forall>(k, ring) \<in> set m. length ring \<le> MAX_PROBES_PER_WORKER \<Longrightarrow>
    sum_list (map (length \<circ> snd) m) \<le> 32 * length m" for m :: "(address, (u64 \<times> probe) list) store"
    by (induction m) (auto simp: MAX_PROBES_PER_WORKER_def)
  then show ?thesis using assms by (simp add: rings_ok_def pb_len_def)
qed

section \<open>Exclusions\<close>

datatype exclusion_op =
    XEpoch u64
  | XFault hash256 check_finding
  | XFailed address
  | XSucceeded address
  | XForgive address
  | XRetain "address list"

fun ex_step :: "exclusions \<Rightarrow> exclusion_op \<Rightarrow> exclusions" where
  "ex_step x (XEpoch e) = snd (ex_begin_epoch e x)"
| "ex_step x (XFault c f) = snd (ex_fault c f x)"
| "ex_step x (XFailed w) = snd (call_failed w x)"
| "ex_step x (XSucceeded w) = call_succeeded w x"
| "ex_step x (XForgive w) = snd (forgive_failures w x)"
| "ex_step x (XRetain ms) = snd (ex_retain_members ms x)"

text \<open>The operations that leave a worker in its epoch: no change of epoch, and the worker stays a
  member.\<close>

fun same_epoch :: "u64 \<Rightarrow> address \<Rightarrow> exclusion_op \<Rightarrow> bool" where
  "same_epoch e w (XEpoch e') \<longleftrightarrow> e' = e"
| "same_epoch e w (XRetain ms) \<longleftrightarrow> w \<in> set ms"
| "same_epoch e w _ \<longleftrightarrow> True"

lemma ex_fault_excluded:
  "map_of (ex_excluded (snd (ex_fault c f x))) w =
    (case map_of (ex_excluded x) w of
       Some e \<Rightarrow> Some e
     | None \<Rightarrow> (case f of Fault s (Worker w') a b \<Rightarrow> if w' = w then Some (ExFault c s a b) else None | _ \<Rightarrow> None))"
  by (cases "(c, f, x)" rule: ex_fault.cases)
    (auto simp: mor_insert_def mhas_def map_of_mput split: option.splits)

lemma ex_fault_epoch: "ex_epoch (snd (ex_fault c f x)) = ex_epoch x"
  by (cases "(c, f, x)" rule: ex_fault.cases) auto

lemma ex_step_keeps_fault:
  assumes "same_epoch (ex_epoch x) w op" "map_of (ex_excluded x) w = Some (ExFault c s a b)"
  shows "map_of (ex_excluded (ex_step x op)) w = Some (ExFault c s a b)" "ex_epoch (ex_step x op) = ex_epoch x"
  using assms
  by (cases op; auto simp: ex_begin_epoch_def ex_fault_excluded ex_fault_epoch call_failed_def Let_def mhas_def map_of_mput
      map_of_mdel call_succeeded_def forgive_failures_def ex_retain_members_def map_of_mretain_key
      split: option.splits exclusion.splits if_splits)+

lemma ex_run_keeps_fault:
  assumes "\<forall>op \<in> set ops. same_epoch (ex_epoch x) w op" "map_of (ex_excluded x) w = Some (ExFault c s a b)"
  shows "map_of (ex_excluded (foldl ex_step x ops)) w = Some (ExFault c s a b)"
  using assms
proof (induction ops arbitrary: x)
  case (Cons op ops)
  then show ?case using ex_step_keeps_fault [of x w op] by simp
qed simp

text \<open>A fault reported against a worker that is already out for repeated failures is not kept as a
  fault: re-establishing the connection lets the worker back in, in the same epoch.\<close>

lemma fault_after_failures_is_forgiven:
  "\<not> is_excluded (foldl ex_step (exclusions_new 1)
     [XFailed 7, XFailed 7, XFailed 7, XFault 5 (Fault 0 (Worker 7) 1 2), XForgive 7]) 7"
  by (simp add: exclusions_new_def call_failed_def mhas_def Let_def FAILURES_BEFORE_EXCLUSION_def mdel_def
      mor_insert_def forgive_failures_def is_excluded_def)

section \<open>Candidates can be reserved\<close>

lemma candidates_from_eq:
  "candidates_from offers ch pr l ex =
    (List.map_filter (candidate_of ch pr l ex) offers,
     map of_digest (filter (\<lambda>f. candidate_of ch pr l ex f \<noteq> None) offers))"
proof -
  have "foldl (\<lambda>(out, digests) offer.
        case candidate_of ch pr l ex offer of None \<Rightarrow> (out, digests)
        | Some c \<Rightarrow> (out @ [c], digests @ [of_digest offer])) (cs, ds) offers
      = (cs @ List.map_filter (candidate_of ch pr l ex) offers,
         ds @ map of_digest (filter (\<lambda>f. candidate_of ch pr l ex f \<noteq> None) offers))" for cs ds
    by (induction offers arbitrary: cs ds) (auto simp: map_filter_simps split: option.splits)
  then show ?thesis by (simp add: candidates_from_def)
qed

lemma candidate_of_Some:
  assumes "candidate_of ch pr l ex f = Some c"
  shows "cd_worker c = of_worker f" "\<not> is_excluded ex (cd_worker c)" "free_slots l (cd_worker c) \<noteq> 0"
    "cd_max_concurrency c = free_slots l (cd_worker c)" "link_of pr (cd_worker c) = Some (cd_link c)"
    "\<exists>m. cb_measured ch (cd_worker c) = Some m \<and> cd_macs_per_s c \<le> m"
  using assms by (auto simp: candidate_of_def Let_def split: if_splits option.splits)

lemma candidates_from_origin:
  assumes "c \<in> set (fst (candidates_from offers ch pr l ex))"
  obtains f where "f \<in> set offers" "candidate_of ch pr l ex f = Some c"
  using assms by (auto simp: candidates_from_eq List.map_filter_def)

lemma candidates_from_length: "length (fst (candidates_from offers ch pr l ex)) \<le> length offers"
  by (simp add: candidates_from_eq List.map_filter_def)

lemma free_slot_may_take: "free_slots l w \<noteq> 0 \<Longrightarrow> may_take l w r = Inr ()"
  by (auto simp: may_take_def free_slots_def mhas_def saturating_sub_zero split: option.splits)

section \<open>Properties\<close>

text \<open>C30: a worker whose arithmetic is found at fault while it is in good standing stays excluded for the
  rest of the epoch, with that first finding as the evidence, whatever failures, successes, forgiven
  failures and further findings are recorded while it stays a member.\<close>

theorem fault_excludes_for_epoch:
  assumes "\<not> is_excluded x w" and "\<forall>op \<in> set ops. same_epoch (ex_epoch x) w op"
  shows "map_of (ex_excluded (foldl ex_step x (XFault c (Fault s (Worker w) a b) # ops))) w = Some (ExFault c s a b)"
proof -
  let ?x = "ex_step x (XFault c (Fault s (Worker w) a b))"
  have "map_of (ex_excluded ?x) w = Some (ExFault c s a b)"
    using assms(1) by (simp add: mor_insert_def is_excluded_def mhas_def map_of_mput)
  moreover have "ex_epoch ?x = ex_epoch x" by simp
  ultimately show ?thesis using ex_run_keeps_fault [of ops ?x w c s a b] assms(2) by simp
qed

theorem fault_excludes_for_epoch_witness:
  "map_of (ex_excluded (foldl ex_step (exclusions_new 1)
     (XFault 5 (Fault 0 (Worker 7) 1 2) # [XFailed 7, XForgive 7, XRetain [7], XEpoch 1]))) 7 = Some (ExFault 5 0 1 2)"
  by (rule fault_excludes_for_epoch) (simp_all add: exclusions_new_def is_excluded_def mhas_def)

text \<open>C29: a placement computed from the books can be reserved. When the candidates come from
  \<open>candidates_from\<close> and the request has not ended, taking a slot on every worker of the resulting placement
  succeeds against the same ledger, and each of these workers is measured in this epoch and not
  excluded.\<close>

theorem placement_can_be_reserved:
  assumes "place stages rate (fst (candidates_from offers ch pr l ex)) p = Some (Inr pl)"
    and "length offers < 999999" and "\<not> ended height expires_at"
  shows "\<exists>l'. reserve_all (pl_workers pl) request expires_at height l = Inr l' \<and>
    (\<forall>w \<in> set (pl_workers pl). mhas (rl_held l') (w, request) \<and> \<not> is_excluded ex w \<and> cb_measured ch w \<noteq> None)"
proof -
  let ?cs = "fst (candidates_from offers ch pr l ex)"
  have len: "length ?cs < 999999" using candidates_from_length [of offers ch pr l ex] assms(2) by linarith
  have good: "free_slots l w \<noteq> 0 \<and> \<not> is_excluded ex w \<and> cb_measured ch w \<noteq> None" if w: "w \<in> set (pl_workers pl)" for w
  proof -
    obtain c where c: "c \<in> set ?cs" "cd_worker c = w" using place_workers [OF assms(1) len w] by blast
    obtain f where "candidate_of ch pr l ex f = Some c" by (rule candidates_from_origin [OF c(1)])
    note * = candidate_of_Some [OF this, unfolded c(2)]
    show ?thesis using *(2,3,6) by auto
  qed
  then have "\<forall>w \<in> set (pl_workers pl). may_take l w request = Inr ()" using free_slot_may_take by blast
  then have "reserve_all (pl_workers pl) request expires_at height l =
      Inr (l\<lparr>rl_held := foldl (\<lambda>h w. mor_insert (w, request) expires_at h) (rl_held l) (pl_workers pl)\<rparr>)"
    using assms(3) by (simp add: reserve_all_Inr)
  then show ?thesis using good by (simp add: reserve_fold)
qed

definition demo_offer_of :: worker_offer where
  "demo_offer_of = \<lparr>of_worker = 1, of_transport_id = ''t'', of_ram_headroom_bytes = 40, of_claimed_macs_per_s = Some 100,
     of_resident_layers = [(2, 5)], of_resident_output = False, of_digest = 9\<rparr>"

definition demo_challenges :: challenge_book where
  "demo_challenges = \<lparr>cb_epoch = 1, cb_state = [(1, Measured 120)]\<rparr>"

definition demo_probes :: probe_book where
  "demo_probes = \<lparr>pb_simulated = False,
     pb_probes = [(1, [(7, \<lparr>pr_rtt_us = 5, pr_bytes = 1000, pr_transfer_us = 1000000, pr_failed = False\<rparr>)])],
     pb_counters = [], pb_transport_loss = []\<rparr>"

definition demo_ledger :: reservation_ledger where
  "demo_ledger = \<lparr>rl_capacity = [(1, 1)], rl_held = []\<rparr>"

lemma demo_candidates:
  "fst (candidates_from [demo_offer_of] demo_challenges demo_probes demo_ledger (exclusions_new 1)) = [demo_worker 1]"
  by (simp add: candidates_from_eq map_filter_simps candidate_of_def demo_offer_of_def demo_challenges_def demo_probes_def
      demo_ledger_def is_excluded_def mhas_def exclusions_new_def cb_measured_def free_slots_def held_on_def holds_on_def
      saturating_sub_def link_of_def list_max_def summarize_def Let_def list_min_def div_ceil_def demo_worker_def demo_link_def)

theorem placement_can_be_reserved_witness:
  "\<exists>pl l'. place [demo_stage] 0 (fst (candidates_from [demo_offer_of] demo_challenges demo_probes demo_ledger
      (exclusions_new 1))) (demo_policy False) = Some (Inr pl) \<and>
    reserve_all (pl_workers pl) 3 100 9 demo_ledger = Inr l'"
proof -
  obtain pl where pl: "place [demo_stage] 0 (fst (candidates_from [demo_offer_of] demo_challenges demo_probes demo_ledger
      (exclusions_new 1))) (demo_policy False) = Some (Inr pl)"
    using demo_place [of 1] by (auto simp: demo_candidates)
  have "\<not> ended 9 100" by (simp add: ended_def saturating_add_def)
  then show ?thesis using placement_can_be_reserved [OF pl, of 9 100 3] pl by auto
qed

end
