(* ===== verification/Arc_Assignment.thy ===== *)
theory Arc_Assignment
  imports Arc_Book
begin

text \<open>
  Assignment certificates and the verification plan of \<open>crates/arc-assign\<close>
  (\<open>certificate.rs\<close>, \<open>verify.rs\<close>) and placement with fixed ownership (\<open>resident.rs\<close>).

  The \<open>bincode\<close> encodings that are hashed are the fields of \<open>cert_wire\<close>, which extends the
  encodings of leases. \<open>Err(String)\<close> of \<open>resident.rs\<close> is a sum with the source's message, and an
  \<open>expect\<close> that fails is the outer \<open>None\<close>; the lemmas show that it never does.
\<close>

section \<open>Verification plan\<close>

definition PLAN_DOMAIN :: string where "PLAN_DOMAIN = ''ARC-assign-verification-plan-v1''"

record verification_rule =
  vr_duplicate_per_mille :: u32
  vr_spot_rows_per_stage :: u32

record duplicate_check =
  dc_stage :: nat
  dc_slice :: nat
  dc_checker :: participant

record verification_plan =
  vp_duplicates :: "duplicate_check list"
  vp_spot_rows :: "(nat \<times> u64) list"

record assignment_certificate =
  ac_version :: u32
  ac_request_id :: hash256
  ac_artifact_id :: hash256
  ac_execution_profile :: string
  ac_epoch :: u64
  ac_stages :: "stage list"
  ac_coordinator_macs_per_s :: u64
  ac_candidates :: "candidate list"
  ac_lease_digests :: "hash256 list"
  ac_policy :: policy
  ac_verification :: verification_rule
  ac_placement :: placement

record resident_range =
  rr_stage :: nat
  rr_row_start :: u64
  rr_row_end :: u64

record worker_residency =
  wr_worker :: hash256
  wr_manifest_hash :: hash256
  wr_ranges :: "resident_range list"

record resident_certificate =
  rc_assignment :: assignment_certificate
  rc_residency :: "worker_residency list"

type_synonym policy_v2 =
  "string \<times> nat \<times> u64 \<times> u32 \<times> bool \<times> u64 \<times> u64 \<times> u64 \<times> bool \<times> verification_rule"

record cert_wire = assign_wire +
  wire_plan :: "hash256 \<times> u64 \<Rightarrow> u8 list"
  wire_policy :: "u32 \<times> policy \<times> verification_rule \<Rightarrow> u8 list"
  wire_policy_v2 :: "u32 \<times> policy_v2 \<Rightarrow> u8 list"
  wire_certificate :: "assignment_certificate \<Rightarrow> u8 list"
  wire_resident_policy :: "u32 \<times> hash256 \<times> string \<Rightarrow> u8 list"
  wire_resident_certificate :: "resident_certificate \<Rightarrow> u8 list"

text \<open>\<open>u64::from_le_bytes\<close> of the first eight bytes of a hash.\<close>

definition first_u64 :: "hash256 \<Rightarrow> u64" where
  "first_u64 h = foldr (\<lambda>b acc. ucast b + 256 * acc) (take 8 (hash_as_bytes h)) 0"

definition stream_next :: "'z crypto_scheme \<Rightarrow> 'w cert_wire_scheme \<Rightarrow> hash256 \<Rightarrow> u64 \<Rightarrow> u64 \<times> u64" where
  "stream_next cr w seed counter = (first_u64 (digest cr PLAN_DOMAIN (wire_plan w (seed, counter))), counter + 1)"

definition checker_of :: "slice list \<Rightarrow> participant \<Rightarrow> participant" where
  "checker_of slices part =
     (case List.find (\<lambda>p. p \<noteq> part \<and> p \<noteq> Coordinator) (map sl_participant slices) of
        None \<Rightarrow> Coordinator | Some p \<Rightarrow> p)"

fun plan_slices ::
  "'z crypto_scheme \<Rightarrow> 'w cert_wire_scheme \<Rightarrow> hash256 \<Rightarrow> verification_rule \<Rightarrow> nat \<Rightarrow> slice list
    \<Rightarrow> nat \<Rightarrow> slice list \<Rightarrow> u64 \<Rightarrow> duplicate_check list \<times> u64" where
  "plan_slices cr w seed rule stage slices index [] counter = ([], counter)"
| "plan_slices cr w seed rule stage slices index (s # ss) counter =
     (if sl_participant s = Coordinator then plan_slices cr w seed rule stage slices (Suc index) ss counter
      else let (v, counter') = stream_next cr w seed counter;
               (rest, fin) = plan_slices cr w seed rule stage slices (Suc index) ss counter' in
        ((if v mod 1000 < ucast (vr_duplicate_per_mille rule)
          then [\<lparr>dc_stage = stage, dc_slice = index, dc_checker = checker_of slices (sl_participant s)\<rparr>]
          else []) @ rest, fin))"

fun spot_loop ::
  "'z crypto_scheme \<Rightarrow> 'w cert_wire_scheme \<Rightarrow> hash256 \<Rightarrow> nat \<Rightarrow> u64 \<Rightarrow> nat \<Rightarrow> u64 \<Rightarrow> (nat \<times> u64) list \<times> u64" where
  "spot_loop cr w seed stage rows 0 counter = ([], counter)"
| "spot_loop cr w seed stage rows (Suc n) counter =
     (let (v, counter') = stream_next cr w seed counter;
          (rest, fin) = spot_loop cr w seed stage rows n counter' in
      ((stage, v mod rows) # rest, fin))"

definition stage_rows :: "slice list \<Rightarrow> u64" where
  "stage_rows slices = (if slices = [] then 0 else sl_row_end (last slices))"

fun plan_stages ::
  "'z crypto_scheme \<Rightarrow> 'w cert_wire_scheme \<Rightarrow> hash256 \<Rightarrow> verification_rule \<Rightarrow> stage_plan list \<Rightarrow> u64
    \<Rightarrow> duplicate_check list \<times> (nat \<times> u64) list" where
  "plan_stages cr w seed rule [] counter = ([], [])"
| "plan_stages cr w seed rule (p # ps) counter =
     (let (dups, c1) = plan_slices cr w seed rule (sp_stage p) (sp_slices p) 0 (sp_slices p) counter;
          (spots, c2) = (if stage_rows (sp_slices p) > 0
             then spot_loop cr w seed (sp_stage p) (stage_rows (sp_slices p)) (unat (vr_spot_rows_per_stage rule)) c1
             else ([], c1));
          (more_dups, more_spots) = plan_stages cr w seed rule ps c2 in
      (dups @ more_dups, spots @ more_spots))"

definition plan :: "'z crypto_scheme \<Rightarrow> 'w cert_wire_scheme \<Rightarrow> hash256 \<Rightarrow> placement \<Rightarrow> verification_rule \<Rightarrow> verification_plan" where
  "plan cr w seed pl rule =
     (case plan_stages cr w seed rule (pl_stages pl) 0 of
        (dups, spots) \<Rightarrow> \<lparr>vp_duplicates = dups, vp_spot_rows = spots\<rparr>)"

section \<open>Certificates\<close>

definition CERTIFICATE_DOMAIN :: string where "CERTIFICATE_DOMAIN = ''ARC-assign-certificate-v1''"
definition POLICY_DOMAIN :: string where "POLICY_DOMAIN = ''ARC-assign-policy-v1''"
definition CERTIFICATE_DOMAIN_V2 :: string where "CERTIFICATE_DOMAIN_V2 = ''ARC-assign-certificate-v2''"
definition POLICY_DOMAIN_V2 :: string where "POLICY_DOMAIN_V2 = ''ARC-assign-policy-v2''"

datatype assignment_error =
    CertVersion u32
  | CertPlacementMismatch
  | CertPlacement placement_error
  | CertWrongPolicy

definition policy_hash :: "'z crypto_scheme \<Rightarrow> 'w cert_wire_scheme \<Rightarrow> policy \<Rightarrow> verification_rule \<Rightarrow> hash256" where
  "policy_hash cr w p rule = digest cr POLICY_DOMAIN (wire_policy w (1, p, rule))"

definition policy_hash_v2 :: "'z crypto_scheme \<Rightarrow> 'w cert_wire_scheme \<Rightarrow> policy \<Rightarrow> verification_rule \<Rightarrow> hash256" where
  "policy_hash_v2 cr w p rule =
     (let mode = (if po_include_coordinator p then ''private-row-resident-with-local-fallback-v1''
                  else ''private-row-remote-only-strict-v1'') in
      digest cr POLICY_DOMAIN_V2 (wire_policy_v2 w (2,
        (mode, po_max_workers p, po_max_link_age p, po_max_failure_per_mille p, po_allow_simulated_links p,
         po_input_element_bytes p, po_output_element_bytes p, po_weight_bytes_per_element p,
         po_include_coordinator p, rule))))"

definition cert_issue ::
  "hash256 \<Rightarrow> hash256 \<Rightarrow> string \<Rightarrow> u64 \<Rightarrow> stage list \<Rightarrow> u64 \<Rightarrow> candidate list \<Rightarrow> hash256 list \<Rightarrow> policy
    \<Rightarrow> verification_rule \<Rightarrow> (placement_error + assignment_certificate) option" where
  "cert_issue request_id artifact_id profile epoch stages rate cands lease_digests p rule =
     (let cs = sort_key cd_worker cands; ds = sort lease_digests in
      map_option (\<lambda>r. and_then r (\<lambda>pl.
        Inr \<lparr>ac_version = 1, ac_request_id = request_id, ac_artifact_id = artifact_id,
             ac_execution_profile = profile, ac_epoch = epoch, ac_stages = stages,
             ac_coordinator_macs_per_s = rate, ac_candidates = cs, ac_lease_digests = ds,
             ac_policy = p, ac_verification = rule, ac_placement = pl\<rparr>))
        (place stages rate cs p))"

definition cert_issue_v2 ::
  "hash256 \<Rightarrow> hash256 \<Rightarrow> string \<Rightarrow> u64 \<Rightarrow> stage list \<Rightarrow> u64 \<Rightarrow> candidate list \<Rightarrow> hash256 list \<Rightarrow> policy
    \<Rightarrow> verification_rule \<Rightarrow> (placement_error + assignment_certificate) option" where
  "cert_issue_v2 request_id artifact_id profile epoch stages rate cands lease_digests p rule =
     map_option (\<lambda>r. and_then r (\<lambda>c. Inr (c\<lparr>ac_version := 2\<rparr>)))
       (cert_issue request_id artifact_id profile epoch stages rate cands lease_digests p rule)"

definition cert_hash :: "'z crypto_scheme \<Rightarrow> 'w cert_wire_scheme \<Rightarrow> assignment_certificate \<Rightarrow> hash256" where
  "cert_hash cr w c =
     digest cr (if ac_version c = 2 then CERTIFICATE_DOMAIN_V2 else CERTIFICATE_DOMAIN) (wire_certificate w c)"

definition cert_verify ::
  "'z crypto_scheme \<Rightarrow> 'w cert_wire_scheme \<Rightarrow> assignment_certificate \<Rightarrow> hash256 \<Rightarrow> (assignment_error + unit) option" where
  "cert_verify cr w c authorised =
     (if ac_version c \<noteq> 1 \<and> ac_version c \<noteq> 2 then Some (Inl (CertVersion (ac_version c)))
      else if (if ac_version c = 1 then policy_hash cr w (ac_policy c) (ac_verification c)
               else policy_hash_v2 cr w (ac_policy c) (ac_verification c)) \<noteq> authorised
      then Some (Inl CertWrongPolicy)
      else case place (ac_stages c) (ac_coordinator_macs_per_s c) (ac_candidates c) (ac_policy c) of
        None \<Rightarrow> None
      | Some (Inl e) \<Rightarrow> Some (Inl (CertPlacement e))
      | Some (Inr again) \<Rightarrow>
          Some (if again \<noteq> ac_placement c then Inl CertPlacementMismatch else Inr ()))"

section \<open>Fixed ownership\<close>

definition MAX_WORKERS :: nat where "MAX_WORKERS = 32"
definition MAX_STAGES :: nat where "MAX_STAGES = 4096"
definition MAX_RESIDENT_BYTES :: u64 where "MAX_RESIDENT_BYTES = 1073741824"
definition RESIDENT_POLICY_DOMAIN :: string where
  "RESIDENT_POLICY_DOMAIN = ''ARC-private-fixed-resident-row-policy-v1''"
definition RESIDENT_CERTIFICATE_DOMAIN :: string where
  "RESIDENT_CERTIFICATE_DOMAIN = ''ARC-private-fixed-resident-row-certificate-v1''"

definition resident_policy_hash ::
  "'z crypto_scheme \<Rightarrow> 'w cert_wire_scheme \<Rightarrow> policy \<Rightarrow> verification_rule \<Rightarrow> hash256" where
  "resident_policy_hash cr w p rule =
     digest cr RESIDENT_POLICY_DOMAIN (wire_resident_policy w (1, policy_hash_v2 cr w p rule,
       ''fixed-remote-owners-no-fallback;canonical-first-row-per-owner;canonical-seeded-duplicates;stage-spots''))"

fun check_stages :: "(u32 option \<times> string) list \<Rightarrow> stage list \<Rightarrow> string + unit" where
  "check_stages keys [] = Inr ()"
| "check_stages keys (s # ss) =
     (if st_rows s = 0 \<or> st_cols s = 0 \<or> (st_layer s, st_tensor s) \<in> set keys
      then Inl ''resident layout has an empty or duplicate model stage''
      else check_stages ((st_layer s, st_tensor s) # keys) ss)"

text \<open>The ranges of one owner; the result is the number of bytes they take.\<close>

fun check_ranges :: "stage list \<Rightarrow> nat list \<Rightarrow> u128 \<Rightarrow> resident_range list \<Rightarrow> string + u128" where
  "check_ranges stages seen bytes [] = Inr bytes"
| "check_ranges stages seen bytes (r # rs) =
     (if \<not> rr_stage r < length stages then Inl ''resident range names an unknown stage''
      else if rr_stage r \<in> set seen \<or> rr_row_start r \<ge> rr_row_end r
              \<or> rr_row_end r > st_rows (stages ! rr_stage r)
      then Inl ''resident range is duplicate, empty or outside its projection''
      else case checked_mul (ucast (rr_row_end r - rr_row_start r))
                  (ucast (st_cols (stages ! rr_stage r)) + 8) of
        None \<Rightarrow> Inl ''resident byte count overflow''
      | Some payload \<Rightarrow>
          (case checked_add bytes payload of
             None \<Rightarrow> Inl ''resident byte count overflow''
           | Some bytes' \<Rightarrow> check_ranges stages (rr_stage r # seen) bytes' rs))"

fun check_owners :: "stage list \<Rightarrow> hash256 list \<Rightarrow> hash256 list \<Rightarrow> worker_residency list \<Rightarrow> string + unit" where
  "check_owners stages workers manifests [] = Inr ()"
| "check_owners stages workers manifests (ow # os) =
     (if wr_worker ow = 0 \<or> wr_manifest_hash ow = 0 \<or> wr_worker ow \<in> set workers
         \<or> wr_manifest_hash ow \<in> set manifests \<or> length (wr_ranges ow) \<noteq> length stages
      then Inl ''resident worker/manifest identity or stage count''
      else and_then (check_ranges stages [] 0 (wr_ranges ow)) (\<lambda>bytes.
        if bytes > ucast MAX_RESIDENT_BYTES then Inl ''resident canonical payload exceeds 1 GiB''
        else check_owners stages (wr_worker ow # workers) (wr_manifest_hash ow # manifests) os))"

definition range_of :: "nat \<Rightarrow> worker_residency \<Rightarrow> resident_range option" where
  "range_of index ow = List.find (\<lambda>r. rr_stage r = index) (wr_ranges ow)"

fun check_tiles :: "u64 \<Rightarrow> resident_range list \<Rightarrow> string + u64" where
  "check_tiles nxt [] = Inr nxt"
| "check_tiles nxt (r # rs) =
     (if rr_row_start r \<noteq> nxt then Inl ''resident projection has a gap or overlap''
      else check_tiles (rr_row_end r) rs)"

text \<open>\<open>those\<close> is the sequence of \<open>expect\<close>s: \<open>None\<close> when one of them fails.\<close>

definition stage_ranges :: "nat \<Rightarrow> worker_residency list \<Rightarrow> resident_range list option" where
  "stage_ranges index residency = those (map (range_of index) residency)"

fun check_coverage :: "stage list \<Rightarrow> worker_residency list \<Rightarrow> nat list \<Rightarrow> (string + unit) option" where
  "check_coverage stages residency [] = Some (Inr ())"
| "check_coverage stages residency (index # is) =
     (case stage_ranges index residency of
        None \<Rightarrow> None
      | Some ranges \<Rightarrow>
          (case check_tiles 0 (sort_key rr_row_start ranges) of
             Inl e \<Rightarrow> Some (Inl e)
           | Inr nxt \<Rightarrow>
               if nxt \<noteq> st_rows (stages ! index) then Some (Inl ''resident projection has an uncovered tail'')
               else check_coverage stages residency is))"

definition validate_layout :: "stage list \<Rightarrow> worker_residency list \<Rightarrow> nat \<Rightarrow> (string + unit) option" where
  "validate_layout stages residency max_workers =
     (if stages = [] \<or> length stages > MAX_STAGES \<or> residency = [] \<or> length residency > MAX_WORKERS
         \<or> length residency > max_workers \<or> max_workers > MAX_WORKERS
      then Some (Inl ''resident layout stage/worker bounds'')
      else case and_then (check_stages [] stages) (\<lambda>_. check_owners stages [] [] residency) of
        Inl e \<Rightarrow> Some (Inl e)
      | Inr _ \<Rightarrow> check_coverage stages residency [0..<length stages])"

text \<open>The candidates by worker: each worker and each transport once, and no empty transport.\<close>

fun by_worker :: "(hash256 \<times> candidate) list \<Rightarrow> string list \<Rightarrow> candidate list \<Rightarrow> string + (hash256 \<times> candidate) list" where
  "by_worker m transports [] = Inr m"
| "by_worker m transports (c # cs) =
     (if mhas m (cd_worker c) \<or> cd_transport_id c \<in> set transports \<or> cd_transport_id c = ''''
      then Inl ''resident candidates repeat a worker or transport identity''
      else by_worker (mput (cd_worker c) c m) (cd_transport_id c # transports) cs)"

definition owner_unusable :: "policy \<Rightarrow> candidate \<Rightarrow> bool" where
  "owner_unusable p c \<longleftrightarrow> cd_macs_per_s c = 0
     \<or> lm_bandwidth_bps (cd_link c) = 0
     \<or> cd_max_concurrency c = 0
     \<or> lm_measured_at (cd_link c) > po_now p
     \<or> lm_failure_per_mille (cd_link c) > po_max_failure_per_mille p
     \<or> po_now p - lm_measured_at (cd_link c) > po_max_link_age p
     \<or> (\<not> po_allow_simulated_links p \<and> lm_simulated (cd_link c))
     \<or> cd_resident_layers c \<noteq> []
     \<or> cd_resident_output c"

definition owner_bytes :: "stage list \<Rightarrow> worker_residency \<Rightarrow> u128" where
  "owner_bytes stages ow =
     sum_list (map (\<lambda>r. ucast (rr_row_end r - rr_row_start r) * (ucast (st_cols (stages ! rr_stage r)) + 8)) (wr_ranges ow))"

fun check_available ::
  "stage list \<Rightarrow> policy \<Rightarrow> (hash256 \<times> candidate) list \<Rightarrow> worker_residency list \<Rightarrow> string + unit" where
  "check_available stages p m [] = Inr ()"
| "check_available stages p m (ow # os) =
     and_then (ok_or ''a resident owner is unavailable'' (map_of m (wr_worker ow))) (\<lambda>c.
       if owner_unusable p c then Inl ''resident owner lacks a usable observation or has mixed capabilities''
       else if owner_bytes stages ow > ucast (cd_ram_headroom_bytes c)
       then Inl ''resident owner exceeds its configured memory budget''
       else check_available stages p m os)"

definition owner_slice :: "nat \<Rightarrow> worker_residency \<Rightarrow> slice option" where
  "owner_slice index ow = map_option (\<lambda>r.
     \<lparr>sl_participant = Worker (wr_worker ow), sl_row_start = rr_row_start r, sl_row_end = rr_row_end r\<rparr>)
     (range_of index ow)"

definition resident_plan :: "worker_residency list \<Rightarrow> nat \<Rightarrow> stage_plan option" where
  "resident_plan residency index = map_option (\<lambda>slices.
     \<lparr>sp_stage = index, sp_slices = sort_key sl_row_start slices\<rparr>) (those (map (owner_slice index) residency))"

definition resident_place ::
  "stage list \<Rightarrow> candidate list \<Rightarrow> worker_residency list \<Rightarrow> policy \<Rightarrow> (string + placement) option" where
  "resident_place stages cands residency p =
     (case validate_layout stages residency (po_max_workers p) of
        None \<Rightarrow> None
      | Some (Inl e) \<Rightarrow> Some (Inl e)
      | Some (Inr _) \<Rightarrow>
          if po_include_coordinator p \<or> po_weight_bytes_per_element p \<noteq> 1
          then Some (Inl ''resident placement requires canonical I8 remote-only execution'')
          else case and_then (by_worker [] [] cands) (\<lambda>m.
              if length m \<noteq> length residency
              then Inl ''every resident owner must be measured, connected and reservable''
              else check_available stages p m residency) of
            Inl e \<Rightarrow> Some (Inl e)
          | Inr _ \<Rightarrow>
              map_option (\<lambda>plans. Inr
                \<lparr>pl_workers = sort (map wr_worker residency), pl_stages = plans,
                 pl_predicted_token_us = 0, pl_coordinator_only_token_us = 0\<rparr>)
                (those (map (resident_plan residency) [0..<length stages])))"

definition resident_issue ::
  "assignment_certificate \<Rightarrow> worker_residency list \<Rightarrow> (string + resident_certificate) option" where
  "resident_issue assignment residency =
     (let a = assignment\<lparr>ac_version := 3,
                ac_candidates := sort_key cd_worker (ac_candidates assignment),
                ac_lease_digests := sort (ac_lease_digests assignment)\<rparr>;
          rs = map (\<lambda>ow. ow\<lparr>wr_ranges := sort_key rr_stage (wr_ranges ow)\<rparr>) (sort_key wr_worker residency) in
      if vr_duplicate_per_mille (ac_verification a) > 1000
         \<or> vr_spot_rows_per_stage (ac_verification a) = 0
         \<or> vr_spot_rows_per_stage (ac_verification a) > 64
      then Some (Inl ''resident verification rule is outside bounds'')
      else map_option (\<lambda>r. and_then r (\<lambda>pl.
          Inr \<lparr>rc_assignment = a\<lparr>ac_placement := pl\<rparr>, rc_residency = rs\<rparr>))
        (resident_place (ac_stages a) (ac_candidates a) rs (ac_policy a)))"

definition resident_hash :: "'z crypto_scheme \<Rightarrow> 'w cert_wire_scheme \<Rightarrow> resident_certificate \<Rightarrow> hash256" where
  "resident_hash cr w c = digest cr RESIDENT_CERTIFICATE_DOMAIN (wire_resident_certificate w c)"

definition resident_verify ::
  "'z crypto_scheme \<Rightarrow> 'w cert_wire_scheme \<Rightarrow> resident_certificate \<Rightarrow> hash256 \<Rightarrow> (string + unit) option" where
  "resident_verify cr w c authorized =
     (let a = rc_assignment c in
      if ac_version a \<noteq> 3 \<or> resident_policy_hash cr w (ac_policy a) (ac_verification a) \<noteq> authorized
      then Some (Inl ''resident certificate version or unauthorized policy'')
      else map_option (\<lambda>r. and_then r (\<lambda>rebuilt.
          if rebuilt \<noteq> c then Inl ''resident certificate does not reproduce fixed ownership'' else Inr ()))
        (resident_issue a (rc_residency c)))"

definition resident_verification_plan ::
  "'z crypto_scheme \<Rightarrow> 'w cert_wire_scheme \<Rightarrow> resident_certificate \<Rightarrow> verification_plan" where
  "resident_verification_plan cr w c =
     (let checks = plan cr w (resident_hash cr w c) (ac_placement (rc_assignment c)) (ac_verification (rc_assignment c)) in
      \<lparr>vp_duplicates = map (\<lambda>d. d\<lparr>dc_checker := Coordinator\<rparr>) (vp_duplicates checks),
       vp_spot_rows = vp_spot_rows checks
         @ concat (map (\<lambda>p. map (\<lambda>s. (sp_stage p, sl_row_start s)) (sp_slices p))
             (pl_stages (ac_placement (rc_assignment c))))\<rparr>)"

section \<open>The plan checks what it should\<close>

lemma checker_of_other: "part \<noteq> Coordinator \<Longrightarrow> checker_of slices part \<noteq> part"
  by (auto simp: checker_of_def dest: find_Some_in split: option.splits)

lemma plan_slices_sound:
  assumes "plan_slices cr w seed rule stage slices index ss c = (dups, c')" "d \<in> set dups"
  shows "dc_stage d = stage \<and> index \<le> dc_slice d \<and> dc_slice d < index + length ss \<and>
    sl_participant (ss ! (dc_slice d - index)) \<noteq> Coordinator \<and>
    dc_checker d \<noteq> sl_participant (ss ! (dc_slice d - index))"
  using assms
proof (induction ss arbitrary: index c dups)
  case (Cons s ss)
  have later: "dc_stage d = stage \<and> index \<le> dc_slice d \<and> dc_slice d < index + length (s # ss) \<and>
      sl_participant ((s # ss) ! (dc_slice d - index)) \<noteq> Coordinator \<and>
      dc_checker d \<noteq> sl_participant ((s # ss) ! (dc_slice d - index))"
    if "plan_slices cr w seed rule stage slices (Suc index) ss c1 = (rest, c')" "d \<in> set rest" for c1 rest
  proof -
    note IH = Cons.IH [OF that]
    then have "dc_slice d - index = Suc (dc_slice d - Suc index)" by linarith
    then show ?thesis using IH by simp
  qed
  show ?case
  proof (cases "sl_participant s = Coordinator")
    case True
    then show ?thesis using Cons.prems later by simp
  next
    case False
    then show ?thesis using Cons.prems later checker_of_other [OF False]
      by (auto simp: Let_def split: prod.splits if_splits)
  qed
qed simp

lemma spot_loop_sound:
  assumes "spot_loop cr w seed stage rows n c = (spots, c')" "rows > 0" "x \<in> set spots"
  shows "fst x = stage \<and> snd x < rows"
  using assms
proof (induction n arbitrary: c spots)
  case (Suc n)
  obtain v c1 where v: "stream_next cr w seed c = (v, c1)" by fastforce
  obtain rest where rest: "spot_loop cr w seed stage rows n c1 = (rest, c')" "spots = (stage, v mod rows) # rest"
    using Suc.prems(1) v by (auto simp: Let_def split: prod.splits)
  have "v mod rows < rows" using Suc.prems(2) by (rule word_mod_less_divisor)
  then show ?case using Suc.IH [OF rest(1) Suc.prems(2)] Suc.prems(3) rest(2) by auto
qed simp

text \<open>Every duplicate is computed by somebody other than the worker it checks, and every spot row
  lies inside its stage.\<close>

definition duplicate_ok :: "stage_plan \<Rightarrow> duplicate_check \<Rightarrow> bool" where
  "duplicate_ok p d \<longleftrightarrow> dc_stage d = sp_stage p \<and> dc_slice d < length (sp_slices p)
     \<and> sl_participant (sp_slices p ! dc_slice d) \<noteq> Coordinator
     \<and> dc_checker d \<noteq> sl_participant (sp_slices p ! dc_slice d)"

definition spot_ok :: "stage_plan \<Rightarrow> nat \<times> u64 \<Rightarrow> bool" where
  "spot_ok p x \<longleftrightarrow> fst x = sp_stage p \<and> snd x < stage_rows (sp_slices p)"

lemma plan_stages_sound:
  assumes "plan_stages cr w seed rule ps c = (dups, spots)"
  shows "(\<forall>d \<in> set dups. \<exists>p \<in> set ps. duplicate_ok p d) \<and> (\<forall>x \<in> set spots. \<exists>p \<in> set ps. spot_ok p x)"
  using assms
proof (induction ps arbitrary: c dups spots)
  case (Cons p ps)
  obtain d1 c1 where d1: "plan_slices cr w seed rule (sp_stage p) (sp_slices p) 0 (sp_slices p) c = (d1, c1)" by fastforce
  obtain s2 c2 where s2: "(if stage_rows (sp_slices p) > 0
      then spot_loop cr w seed (sp_stage p) (stage_rows (sp_slices p)) (unat (vr_spot_rows_per_stage rule)) c1
      else ([], c1)) = (s2, c2)" by fastforce
  obtain d3 s3 where r: "plan_stages cr w seed rule ps c2 = (d3, s3)" by fastforce
  have "plan_stages cr w seed rule (p # ps) c = (d1 @ d3, s2 @ s3)"
    by (simp only: plan_stages.simps Let_def d1 s2 r prod.case)
  then have eq: "dups = d1 @ d3" "spots = s2 @ s3" using Cons.prems by simp_all
  have "\<forall>d \<in> set d1. duplicate_ok p d" using plan_slices_sound [OF d1] by (simp add: duplicate_ok_def)
  moreover have "\<forall>x \<in> set s2. spot_ok p x"
  proof (cases "stage_rows (sp_slices p) > 0")
    case True
    then have "spot_loop cr w seed (sp_stage p) (stage_rows (sp_slices p)) (unat (vr_spot_rows_per_stage rule)) c1 = (s2, c2)"
      using s2 by simp
    then show ?thesis using spot_loop_sound True by (simp add: spot_ok_def) blast
  next
    case False
    then show ?thesis using s2 by simp
  qed
  ultimately show ?case using Cons.IH [OF r] by (auto simp: eq)
qed simp

section \<open>Certificates\<close>

lemma policy_hash_v2_ignores_now: "policy_hash_v2 cr w (p\<lparr>po_now := t\<rparr>) rule = policy_hash_v2 cr w p rule"
  by (simp add: policy_hash_v2_def)

lemma cert_verify_Inr:
  "cert_verify cr w c auth = Some (Inr u) \<longleftrightarrow>
    (ac_version c = 1 \<and> policy_hash cr w (ac_policy c) (ac_verification c) = auth
     \<or> ac_version c = 2 \<and> policy_hash_v2 cr w (ac_policy c) (ac_verification c) = auth) \<and>
    place (ac_stages c) (ac_coordinator_macs_per_s c) (ac_candidates c) (ac_policy c) = Some (Inr (ac_placement c))"
  by (auto simp: cert_verify_def split: option.splits sum.splits if_splits)

lemma cert_issue_Inr:
  assumes "cert_issue r a prof ep st rate cs ds p rule = Some (Inr c)"
  shows "ac_version c = 1" "ac_policy c = p" "ac_verification c = rule" "ac_stages c = st"
    "ac_candidates c = sort_key cd_worker cs"
    "place (ac_stages c) (ac_coordinator_macs_per_s c) (ac_candidates c) (ac_policy c) = Some (Inr (ac_placement c))"
  using assms by (auto simp: cert_issue_def Let_def result_simps)

lemma cert_issue_verifies:
  assumes "cert_issue r a prof ep st rate cs ds p rule = Some (Inr c)"
  shows "cert_verify cr w c (policy_hash cr w p rule) = Some (Inr ())"
    "cert_verify cr w (c\<lparr>ac_version := 2\<rparr>) (policy_hash_v2 cr w p rule) = Some (Inr ())"
  using cert_issue_Inr [OF assms] by (simp_all add: cert_verify_Inr)

section \<open>A fixed layout tiles every stage\<close>

lemma those_map_Some: "those (map f xs) = Some ys \<longleftrightarrow> map f xs = map Some ys"
proof (induction xs arbitrary: ys)
  case (Cons x xs)
  then show ?case by (cases ys) (auto split: option.splits)
qed auto

lemma those_None: "those (map f xs) = None \<longleftrightarrow> (\<exists>x \<in> set xs. f x = None)"
  by (induction xs) (auto split: option.splits)

lemma map_insort: "map f (insort_key (\<lambda>x. g (f x)) x xs) = insort_key g (f x) (map f xs)"
  by (induction xs) auto

lemma map_sort_key: "map f (sort_key (\<lambda>x. g (f x)) xs) = sort_key g (map f xs)"
  by (induction xs) (simp_all add: map_insort)

definition range_ok :: "stage list \<Rightarrow> resident_range \<Rightarrow> bool" where
  "range_ok stages r \<longleftrightarrow> rr_stage r < length stages \<and> rr_row_start r < rr_row_end r
     \<and> rr_row_end r \<le> st_rows (stages ! rr_stage r)"

lemma check_ranges_Cons:
  assumes "check_ranges stages seen bytes (r # rs) = Inr b"
  obtains b' where "range_ok stages r" "rr_stage r \<notin> set seen" "check_ranges stages (rr_stage r # seen) b' rs = Inr b"
  using assms by (auto simp: range_ok_def not_le split: if_splits option.splits)

lemma check_ranges_Inr:
  assumes "check_ranges stages seen bytes rs = Inr b"
  shows "list_all (range_ok stages) rs \<and> distinct (map rr_stage rs) \<and> set (map rr_stage rs) \<inter> set seen = {}"
  using assms
proof (induction rs arbitrary: seen bytes)
  case (Cons r rs)
  obtain b' where g: "range_ok stages r" "rr_stage r \<notin> set seen" "check_ranges stages (rr_stage r # seen) b' rs = Inr b"
    by (rule check_ranges_Cons [OF Cons.prems])
  then show ?case using Cons.IH [OF g(3)] by auto
qed simp

text \<open>What the checks of the owners establish: each owns one valid range of every stage.\<close>

definition owner_ok :: "stage list \<Rightarrow> worker_residency \<Rightarrow> bool" where
  "owner_ok stages ow \<longleftrightarrow> list_all (range_ok stages) (wr_ranges ow) \<and> distinct (map rr_stage (wr_ranges ow))
     \<and> length (wr_ranges ow) = length stages"

lemma check_owners_Inr:
  "check_owners stages ws ms os = Inr () \<Longrightarrow> list_all (owner_ok stages) os \<and> distinct (map wr_worker os) \<and>
    set (map wr_worker os) \<inter> set ws = {}"
proof (induction os arbitrary: ws ms)
  case (Cons ow os)
  obtain b where b: "check_ranges stages [] 0 (wr_ranges ow) = Inr b" "length (wr_ranges ow) = length stages"
    "wr_worker ow \<notin> set ws" "check_owners stages (wr_worker ow # ws) (wr_manifest_hash ow # ms) os = Inr ()"
    using Cons.prems by (auto simp: result_simps split: if_splits)
  then show ?case using Cons.IH [OF b(4)] check_ranges_Inr [OF b(1)] by (auto simp: owner_ok_def)
qed simp

lemma owner_range:
  assumes "owner_ok stages ow" "index < length stages"
  obtains r where "range_of index ow = Some r" "rr_stage r = index" "range_ok stages r"
proof -
  have sub: "set (map rr_stage (wr_ranges ow)) \<subseteq> {..<length stages}"
    using assms(1) by (auto simp: owner_ok_def range_ok_def list_all_iff)
  have "card (set (map rr_stage (wr_ranges ow))) = length stages"
    using assms(1) distinct_card [of "map rr_stage (wr_ranges ow)"] by (simp add: owner_ok_def)
  then have "set (map rr_stage (wr_ranges ow)) = {..<length stages}"
    using sub by (intro card_subset_eq) simp_all
  then have "index \<in> rr_stage ` set (wr_ranges ow)" using assms(2) by simp
  then obtain r where r: "range_of index ow = Some r"
    unfolding range_of_def by (cases "List.find (\<lambda>r. rr_stage r = index) (wr_ranges ow)") (auto simp: find_None_notin)
  then have "r \<in> set (wr_ranges ow)" "rr_stage r = index" by (auto simp: range_of_def dest: find_Some_in)
  then show thesis using that r assms(1) by (auto simp: owner_ok_def list_all_iff)
qed

lemma stage_ranges_Some:
  assumes "list_all (owner_ok stages) residency" "index < length stages"
  obtains ranges where "stage_ranges index residency = Some ranges" "list_all (range_ok stages) ranges"
proof (cases "stage_ranges index residency")
  case None
  then obtain ow where "ow \<in> set residency" "range_of index ow = None" by (auto simp: stage_ranges_def those_None)
  then show thesis using owner_range [of stages ow index] assms by (auto simp: list_all_iff)
next
  case (Some ranges)
  then have m: "map (range_of index) residency = map Some ranges" by (simp add: stage_ranges_def those_map_Some)
  have "range_ok stages r" if "r \<in> set ranges" for r
  proof -
    have "Some r \<in> range_of index ` set residency" using that m by (metis list.set_map image_eqI)
    then obtain ow where "ow \<in> set residency" "range_of index ow = Some r" by auto
    then show ?thesis using owner_range [of stages ow index] assms by (force simp: list_all_iff)
  qed
  then show thesis using that Some by (simp add: list_all_iff)
qed

lemma check_coverage_Inr:
  "check_coverage stages residency is = Some (Inr u) \<Longrightarrow> index \<in> set is \<Longrightarrow>
    \<exists>ranges. stage_ranges index residency = Some ranges \<and>
      check_tiles 0 (sort_key rr_row_start ranges) = Inr (st_rows (stages ! index))"
  by (induction stages residency "is" rule: check_coverage.induct) (auto split: option.splits sum.splits if_splits)

lemma check_coverage_total:
  assumes "list_all (owner_ok stages) residency" "\<forall>i \<in> set is. i < length stages"
  shows "check_coverage stages residency is \<noteq> None"
  using assms(2)
proof (induction "is")
  case (Cons i "is")
  then obtain ranges where "stage_ranges i residency = Some ranges"
    using stage_ranges_Some [OF assms(1), of i] by auto
  then show ?case using Cons by (auto split: sum.splits)
qed simp

lemma validate_layout_total: "validate_layout stages residency n \<noteq> None"
proof (cases "and_then (check_stages [] stages) (\<lambda>_. check_owners stages [] [] residency)")
  case (Inr u)
  then have "list_all (owner_ok stages) residency" using check_owners_Inr by (auto simp: result_simps)
  then show ?thesis using check_coverage_total [of stages residency "[0..<length stages]"] Inr by (simp add: validate_layout_def)
qed (simp add: validate_layout_def)

lemma validate_layout_Inr:
  assumes "validate_layout stages residency n = Some (Inr u)"
  shows "list_all (owner_ok stages) residency" "distinct (map wr_worker residency)"
    "index < length stages \<Longrightarrow> \<exists>ranges. stage_ranges index residency = Some ranges \<and>
      check_tiles 0 (sort_key rr_row_start ranges) = Inr (st_rows (stages ! index))"
proof -
  have "check_owners stages [] [] residency = Inr ()" and
    c: "check_coverage stages residency [0..<length stages] = Some (Inr ())"
    using assms by (auto simp: validate_layout_def result_simps split: if_splits sum.splits)
  then show "list_all (owner_ok stages) residency" "distinct (map wr_worker residency)"
    using check_owners_Inr by blast+
  show "index < length stages \<Longrightarrow> \<exists>ranges. stage_ranges index residency = Some ranges \<and>
      check_tiles 0 (sort_key rr_row_start ranges) = Inr (st_rows (stages ! index))"
    using check_coverage_Inr [OF c, of index] by simp
qed

text \<open>The slices of a stage are the owners' ranges, sorted by the same key, so the checked tiling of
  the ranges is a cover by the slices.\<close>

lemma tiles_cover:
  assumes "check_tiles n rs = Inr fin" "list_all (range_ok stages) rs"
    and "map (\<lambda>s. (sl_row_start s, sl_row_end s)) ss = map (\<lambda>r. (rr_row_start r, rr_row_end r)) rs"
  shows "slices_cover n ss = Some fin"
  using assms
proof (induction rs arbitrary: n ss)
  case (Cons r rs)
  then obtain s ss' where ss: "ss = s # ss'" by auto
  then show ?case using Cons.IH [of "rr_row_end r" ss'] Cons.prems
    by (auto simp: range_ok_def not_le split: if_splits)
qed simp

lemma owner_slices:
  assumes "stage_ranges index residency = Some ranges"
  obtains slices where "those (map (owner_slice index) residency) = Some slices"
    "map (\<lambda>s. (sl_row_start s, sl_row_end s)) slices = map (\<lambda>r. (rr_row_start r, rr_row_end r)) ranges"
proof -
  have "\<exists>slices. those (map (owner_slice index) residency) = Some slices \<and>
    map (\<lambda>s. (sl_row_start s, sl_row_end s)) slices = map (\<lambda>r. (rr_row_start r, rr_row_end r)) ranges"
    using assms unfolding stage_ranges_def
  proof (induction residency arbitrary: ranges)
    case (Cons ow os)
    obtain r rs where r: "range_of index ow = Some r" "those (map (range_of index) os) = Some rs" "ranges = r # rs"
      using Cons.prems by (auto split: option.splits)
    then show ?case using Cons.IH [OF r(2)] by (auto simp: owner_slice_def)
  qed simp
  then show thesis using that by blast
qed

lemma resident_plan_covers:
  assumes "list_all (owner_ok stages) residency" "index < length stages"
    and "stage_ranges index residency = Some ranges"
    and "check_tiles 0 (sort_key rr_row_start ranges) = Inr (st_rows (stages ! index))"
  obtains p where "resident_plan residency index = Some p" "sp_stage p = index"
    "slices_cover 0 (sp_slices p) = Some (st_rows (stages ! index))"
proof -
  obtain slices where sl: "those (map (owner_slice index) residency) = Some slices"
    "map (\<lambda>s. (sl_row_start s, sl_row_end s)) slices = map (\<lambda>r. (rr_row_start r, rr_row_end r)) ranges"
    by (rule owner_slices [OF assms(3)])
  have "map (\<lambda>s. (sl_row_start s, sl_row_end s)) (sort_key sl_row_start slices)
      = map (\<lambda>r. (rr_row_start r, rr_row_end r)) (sort_key rr_row_start ranges)"
    using map_sort_key [of "\<lambda>s. (sl_row_start s, sl_row_end s)" fst slices]
      map_sort_key [of "\<lambda>r. (rr_row_start r, rr_row_end r)" fst ranges] sl(2) by simp
  moreover have "list_all (range_ok stages) (sort_key rr_row_start ranges)"
    using stage_ranges_Some [OF assms(1,2)] assms(3) by (metis list_all_iff option.inject set_sort)
  ultimately have "slices_cover 0 (sort_key sl_row_start slices) = Some (st_rows (stages ! index))"
    using tiles_cover assms(4) by blast
  then show thesis using that sl(1) by (simp add: resident_plan_def)
qed

lemma resident_place_Inr:
  assumes "resident_place stages cs residency p = Some (Inr pl)"
  shows "validate_layout stages residency (po_max_workers p) = Some (Inr ())"
    "those (map (resident_plan residency) [0..<length stages]) = Some (pl_stages pl)"
    "pl_workers pl = sort (map wr_worker residency)"
  using assms by (auto simp: resident_place_def split: option.splits sum.splits if_splits)

lemma resident_place_covers:
  assumes "resident_place stages cs residency p = Some (Inr pl)"
  shows "covers_exactly pl stages"
proof -
  note l = validate_layout_Inr [OF resident_place_Inr(1) [OF assms]]
  have m: "map (resident_plan residency) [0..<length stages] = map Some (pl_stages pl)"
    using resident_place_Inr(2) [OF assms] by (simp add: those_map_Some)
  have len: "length (pl_stages pl) = length stages" using arg_cong [OF m, of length] by simp
  have "slices_cover 0 (sp_slices (pl_stages pl ! i)) = Some (st_rows (stages ! i))" if i: "i < length stages" for i
  proof -
    obtain ranges where r: "stage_ranges i residency = Some ranges"
      "check_tiles 0 (sort_key rr_row_start ranges) = Inr (st_rows (stages ! i))" using l(3) [OF i] by blast
    obtain q where q: "resident_plan residency i = Some q" "slices_cover 0 (sp_slices q) = Some (st_rows (stages ! i))"
      by (rule resident_plan_covers [OF l(1) i r])
    have "Some (pl_stages pl ! i) = Some q" using arg_cong [OF m, of "\<lambda>xs. xs ! i"] i len q(1) by simp
    then show ?thesis using q(2) by simp
  qed
  then show ?thesis using len by (simp add: covers_exactly_def list_all_length)
qed

lemma resident_place_total: "resident_place stages cs residency p \<noteq> None"
proof (cases "validate_layout stages residency (po_max_workers p)")
  case None
  then show ?thesis using validate_layout_total by blast
next
  case (Some r)
  show ?thesis
  proof (cases r)
    case (Inr u)
    note l = validate_layout_Inr [OF Some [unfolded Inr]]
    have "resident_plan residency i \<noteq> None" if "i < length stages" for i
      using l(3) [OF that] resident_plan_covers [OF l(1) that] by (metis option.distinct(1))
    then have "those (map (resident_plan residency) [0..<length stages]) \<noteq> None" by (simp add: those_None)
    then show ?thesis using Some Inr by (auto simp: resident_place_def split: sum.splits)
  qed (use Some in \<open>simp add: resident_place_def\<close>)
qed

lemma resident_issue_again:
  assumes "resident_issue a residency = Some (Inr c)"
  shows "resident_issue (rc_assignment c) (rc_residency c) = Some (Inr c)" "ac_version (rc_assignment c) = 3"
    "ac_policy (rc_assignment c) = ac_policy a" "ac_verification (rc_assignment c) = ac_verification a"
    "ac_stages (rc_assignment c) = ac_stages a"
    "resident_place (ac_stages (rc_assignment c)) (ac_candidates (rc_assignment c)) (rc_residency c)
       (ac_policy (rc_assignment c)) = Some (Inr (ac_placement (rc_assignment c)))"
proof -
  define rs where "rs = map (\<lambda>ow. ow\<lparr>wr_ranges := sort_key rr_stage (wr_ranges ow)\<rparr>) (sort_key wr_worker residency)"
  define b where "b = a\<lparr>ac_version := 3, ac_candidates := sort_key cd_worker (ac_candidates a),
    ac_lease_digests := sort (ac_lease_digests a)\<rparr>"
  obtain pl where c: "c = \<lparr>rc_assignment = b\<lparr>ac_placement := pl\<rparr>, rc_residency = rs\<rparr>"
    and rule: "\<not> (vr_duplicate_per_mille (ac_verification b) > 1000 \<or> vr_spot_rows_per_stage (ac_verification b) = 0
      \<or> vr_spot_rows_per_stage (ac_verification b) > 64)"
    and pl: "resident_place (ac_stages b) (ac_candidates b) rs (ac_policy b) = Some (Inr pl)"
    using assms unfolding resident_issue_def Let_def rs_def [symmetric] b_def [symmetric]
    by (auto simp: result_simps split: if_splits)
  have "map wr_worker rs = map wr_worker (sort_key wr_worker residency)" by (simp add: rs_def)
  then have "sort_key wr_worker rs = rs" by (intro sort_key_id_if_sorted) (simp only: sorted_sort_key)
  moreover have "map (\<lambda>ow. ow\<lparr>wr_ranges := sort_key rr_stage (wr_ranges ow)\<rparr>) rs = rs"
    by (simp add: rs_def sort_key_id_if_sorted)
  moreover have "(b\<lparr>ac_placement := pl\<rparr>)\<lparr>ac_version := 3,
      ac_candidates := sort_key cd_worker (ac_candidates (b\<lparr>ac_placement := pl\<rparr>)),
      ac_lease_digests := sort (ac_lease_digests (b\<lparr>ac_placement := pl\<rparr>))\<rparr> = b\<lparr>ac_placement := pl\<rparr>"
    by (simp add: b_def sort_key_id_if_sorted)
  ultimately show "resident_issue (rc_assignment c) (rc_residency c) = Some (Inr c)"
    using rule pl by (simp add: resident_issue_def Let_def c)
  show "ac_version (rc_assignment c) = 3" "ac_policy (rc_assignment c) = ac_policy a"
    "ac_verification (rc_assignment c) = ac_verification a" "ac_stages (rc_assignment c) = ac_stages a"
    by (simp_all add: c b_def)
  show "resident_place (ac_stages (rc_assignment c)) (ac_candidates (rc_assignment c)) (rc_residency c)
       (ac_policy (rc_assignment c)) = Some (Inr (ac_placement (rc_assignment c)))"
    using pl by (simp add: c)
qed

section \<open>Properties\<close>

text \<open>What a job authorises: a version, a policy and a verification rule. The digest is taken over a domain and an
  encoding; the second version leaves the instant of the policy out.\<close>

definition v2_fields :: "policy \<Rightarrow> verification_rule \<Rightarrow> policy_v2" where
  "v2_fields p rule =
     (if po_include_coordinator p then ''private-row-resident-with-local-fallback-v1'' else ''private-row-remote-only-strict-v1'',
      po_max_workers p, po_max_link_age p, po_max_failure_per_mille p, po_allow_simulated_links p,
      po_input_element_bytes p, po_output_element_bytes p, po_weight_bytes_per_element p, po_include_coordinator p, rule)"

definition auth_input :: "'w cert_wire_scheme \<Rightarrow> u32 \<times> policy \<times> verification_rule \<Rightarrow> string \<times> u8 list" where
  "auth_input w = (\<lambda>(v, p, rule).
     if v = 1 then (POLICY_DOMAIN, wire_policy w (1, p, rule)) else (POLICY_DOMAIN_V2, wire_policy_v2 w (2, v2_fields p rule)))"

definition auth_hash :: "'z crypto_scheme \<Rightarrow> 'w cert_wire_scheme \<Rightarrow> u32 \<Rightarrow> policy \<Rightarrow> verification_rule \<Rightarrow> hash256" where
  "auth_hash cr w v p rule = (if v = 1 then policy_hash cr w p rule else policy_hash_v2 cr w p rule)"

lemma auth_hash_digest: "auth_hash cr w v p rule = (\<lambda>(d, bs). digest cr d bs) (auth_input w (v, p, rule))"
  by (simp add: auth_hash_def auth_input_def policy_hash_def policy_hash_v2_def v2_fields_def Let_def)

lemma v2_fields_inject:
  "v2_fields p rule = v2_fields q rule' \<Longrightarrow> rule = rule' \<and> q = p\<lparr>po_now := po_now q\<rparr>"
  by (cases p; cases q) (simp add: v2_fields_def)

lemma auth_inject:
  assumes dig: "inj_on (\<lambda>(d, bs). digest cr d bs) (auth_input w ` U)"
    and enc: "inj_on (wire_policy w) {(1, p, rule) |p rule. (1, p, rule) \<in> U}"
      "inj_on (wire_policy_v2 w) {(2, v2_fields p rule) |p rule. (2, p, rule) \<in> U}"
    and U: "(v, p, rule) \<in> U" "(v', q, rule') \<in> U" and v: "v \<in> {1, 2}" "v' \<in> {1, 2}"
    and eq: "auth_hash cr w v p rule = auth_hash cr w v' q rule'"
  shows "v = v' \<and> rule = rule' \<and> q = (if v = 1 then p else p\<lparr>po_now := po_now q\<rparr>)"
proof -
  have same: "auth_input w (v, p, rule) = auth_input w (v', q, rule')"
    using inj_onD [OF dig eq [unfolded auth_hash_digest]] U by blast
  then have vv: "v = v'" using v by (auto simp: auth_input_def POLICY_DOMAIN_def POLICY_DOMAIN_V2_def split: if_splits)
  show ?thesis
  proof (cases "v = 1")
    case True
    then have "(1 :: u32, p, rule) = (1, q, rule')"
      using same vv U by (intro inj_onD [OF enc(1)]) (auto simp: auth_input_def)
    then show ?thesis using True vv by simp
  next
    case False
    then have "v = 2" using v by simp
    then have "(2 :: u32, v2_fields p rule) = (2, v2_fields q rule')"
      using same vv U by (intro inj_onD [OF enc(2)]) (auto simp: auth_input_def)
    then show ?thesis using False vv v2_fields_inject by auto
  qed
qed

text \<open>C34: a certificate that verifies is safe to execute, whoever made it. The check against the hash a job
  authorised pins its version, its verification rule and its policy (for the second version up to the instant,
  which that hash leaves out); its recorded placement covers every stage exactly once, and every worker it
  names is a bound candidate that passes the authorised policy at the certificate's instant. This rests on the
  hash and the encodings not colliding on the authorisations in use, and on the candidate list being shorter
  than 999999.\<close>

theorem verified_certificate_covers:
  assumes "inj_on (\<lambda>(d, bs). digest cr d bs) (auth_input w ` U)"
    and "inj_on (wire_policy w) {(1, p, rule) |p rule. (1, p, rule) \<in> U}"
    and "inj_on (wire_policy_v2 w) {(2, v2_fields p rule) |p rule. (2, p, rule) \<in> U}"
    and "(v, p, rule) \<in> U" and "v \<in> {1, 2}" and "(ac_version c, ac_policy c, ac_verification c) \<in> U"
    and verified: "cert_verify cr w c (auth_hash cr w v p rule) = Some (Inr ())" and few: "length (ac_candidates c) < 999999"
  shows "ac_version c = v \<and> ac_verification c = rule \<and>
    ac_policy c = (if v = 1 then p else p\<lparr>po_now := po_now (ac_policy c)\<rparr>) \<and>
    covers_exactly (ac_placement c) (ac_stages c) \<and>
    (\<forall>a \<in> set (pl_workers (ac_placement c)). \<exists>d \<in> set (ac_candidates c).
       cd_worker d = a \<and> usable d (p\<lparr>po_now := po_now (ac_policy c)\<rparr>))"
proof -
  have pl: "place (ac_stages c) (ac_coordinator_macs_per_s c) (ac_candidates c) (ac_policy c)
      = Some (Inr (ac_placement c))"
    and eq: "ac_version c \<in> {1, 2}"
      "auth_hash cr w v p rule = auth_hash cr w (ac_version c) (ac_policy c) (ac_verification c)"
    using verified by (auto simp: cert_verify_Inr auth_hash_def)
  have bound: "v = ac_version c \<and> rule = ac_verification c \<and>
      ac_policy c = (if v = 1 then p else p\<lparr>po_now := po_now (ac_policy c)\<rparr>)"
    by (rule auth_inject [OF assms(1-4,6,5) eq])
  then have "p\<lparr>po_now := po_now (ac_policy c)\<rparr> = ac_policy c" by (auto split: if_splits)
  then show ?thesis using bound placed_covers [OF pl few] place_workers [OF pl few] by auto
qed

definition demo_rule :: verification_rule where
  "demo_rule = \<lparr>vr_duplicate_per_mille = 100, vr_spot_rows_per_stage = 2\<rparr>"

definition toy_cert_wire :: cert_wire where
  "toy_cert_wire = \<lparr>wire_lease_body = (\<lambda>_. [1]), wire_lease = (\<lambda>_. [2]), wire_plan = (\<lambda>_. [3]),
     wire_policy = (\<lambda>_. [4]), wire_policy_v2 = (\<lambda>_. [5]), wire_certificate = (\<lambda>_. [6]),
     wire_resident_policy = (\<lambda>_. [7]), wire_resident_certificate = (\<lambda>_. [8])\<rparr>"

lemma demo_cert_issue:
  "\<exists>c. cert_issue 1 2 ''p'' 3 [demo_stage] 0 [demo_worker 1] [9] (demo_policy False) demo_rule = Some (Inr c)"
  using demo_place [of 1] by (auto simp: cert_issue_def)

text \<open>Encodings that tell four authorisations apart: two policies, in either version.\<close>

definition policy_wire :: cert_wire where
  "policy_wire = toy_cert_wire\<lparr>
     wire_policy := (\<lambda>(_, p, _). if po_include_coordinator p then [4, 4] else [4]),
     wire_policy_v2 := (\<lambda>(_, _, _, _, _, _, _, _, _, coord, _). if coord then [5, 5, 5, 5] else [5, 5, 5])\<rparr>"

definition demo_uses :: "(u32 \<times> policy \<times> verification_rule) set" where
  "demo_uses = {(1, demo_policy False, demo_rule), (1, demo_policy True, demo_rule),
     (2, demo_policy False, demo_rule), (2, demo_policy True, demo_rule)}"

lemma demo_uses_distinct:
  "inj_on (\<lambda>(d, bs). digest toy_crypto d bs) (auth_input policy_wire ` demo_uses)"
  "inj_on (wire_policy policy_wire) {(1, p, rule) |p rule. (1, p, rule) \<in> demo_uses}"
  "inj_on (wire_policy_v2 policy_wire) {(2, v2_fields p rule) |p rule. (2, p, rule) \<in> demo_uses}"
  by (auto simp: inj_on_def demo_uses_def auth_input_def policy_wire_def digest_def toy_crypto_def v2_fields_def demo_policy_def)

theorem verified_certificate_covers_witness:
  "\<exists>c. cert_verify toy_crypto policy_wire c (auth_hash toy_crypto policy_wire 1 (demo_policy False) demo_rule)
      = Some (Inr ()) \<and> ac_policy c = demo_policy False \<and> covers_exactly (ac_placement c) [demo_stage]"
proof -
  obtain c where c: "cert_issue 1 2 ''p'' 3 [demo_stage] 0 [demo_worker 1] [9] (demo_policy False) demo_rule = Some (Inr c)"
    using demo_cert_issue by blast
  have v: "cert_verify toy_crypto policy_wire c (auth_hash toy_crypto policy_wire 1 (demo_policy False) demo_rule) = Some (Inr ())"
    using cert_issue_verifies(1) [OF c] by (simp add: auth_hash_def)
  have "ac_policy c = demo_policy False \<and> covers_exactly (ac_placement c) (ac_stages c)"
    using verified_certificate_covers [OF demo_uses_distinct _ _ _ v] cert_issue_Inr(1-3,5) [OF c] by (simp add: demo_uses_def)
  then show ?thesis using v cert_issue_Inr(4) [OF c] by auto
qed

text \<open>C35: a certificate of fixed ownership that is issued verifies again under the policy it was issued
  with, and its placement gives every row of every stage to exactly one owner, in contiguous slices.
  Issuing sorts its inputs, so this also says that the sorted form is stable.\<close>

theorem resident_certificate_roundtrip:
  assumes "resident_issue a residency = Some (Inr c)"
  shows "resident_verify cr w c (resident_policy_hash cr w (ac_policy a) (ac_verification a)) = Some (Inr ()) \<and>
    covers_exactly (ac_placement (rc_assignment c)) (ac_stages a)"
  using resident_issue_again [OF assms] resident_place_covers
  by (auto simp: resident_verify_def Let_def)

definition demo_owner :: worker_residency where
  "demo_owner = \<lparr>wr_worker = 1, wr_manifest_hash = 5, wr_ranges = [\<lparr>rr_stage = 0, rr_row_start = 0, rr_row_end = 10\<rparr>]\<rparr>"

definition demo_assignment :: assignment_certificate where
  "demo_assignment = \<lparr>ac_version = 1, ac_request_id = 1, ac_artifact_id = 2, ac_execution_profile = ''p'', ac_epoch = 3,
     ac_stages = [demo_stage], ac_coordinator_macs_per_s = 0,
     ac_candidates = [(demo_worker 1)\<lparr>cd_ram_headroom_bytes := 120, cd_resident_layers := []\<rparr>],
     ac_lease_digests = [9], ac_policy = demo_policy False, ac_verification = demo_rule,
     ac_placement = \<lparr>pl_workers = [], pl_stages = [], pl_predicted_token_us = 0, pl_coordinator_only_token_us = 0\<rparr>\<rparr>"

lemma demo_layout: "validate_layout [demo_stage] [demo_owner] 4 = Some (Inr ())"
  by (simp add: validate_layout_def MAX_STAGES_def MAX_WORKERS_def demo_stage_def demo_owner_def stage_ranges_def
      range_of_def checked_mul_def checked_add_def MAX_RESIDENT_BYTES_def)

lemma demo_resident: "\<exists>c. resident_issue demo_assignment [demo_owner] = Some (Inr c)"
proof -
  define cand where "cand = (demo_worker 1)\<lparr>cd_ram_headroom_bytes := 120, cd_resident_layers := []\<rparr>"
  have "\<exists>pl. resident_place [demo_stage] [cand] [demo_owner] (demo_policy False) = Some (Inr pl)"
    using demo_layout
    by (simp add: resident_place_def demo_fields mhas_def cand_def owner_unusable_def demo_worker_def demo_link_def
        demo_policy_def owner_bytes_def demo_owner_def demo_stage_def resident_plan_def owner_slice_def range_of_def)
  moreover have "map (\<lambda>ow. ow\<lparr>wr_ranges := sort_key rr_stage (wr_ranges ow)\<rparr>) [demo_owner] = [demo_owner]"
    by (simp add: demo_owner_def)
  ultimately show ?thesis
    by (auto simp: resident_issue_def demo_assignment_def demo_rule_def simp flip: cand_def)
qed

theorem resident_certificate_roundtrip_witness:
  "\<exists>c. resident_issue demo_assignment [demo_owner] = Some (Inr c) \<and>
    resident_verify toy_crypto toy_cert_wire c
      (resident_policy_hash toy_crypto toy_cert_wire (ac_policy demo_assignment) (ac_verification demo_assignment)) = Some (Inr ())"
  using demo_resident resident_certificate_roundtrip [of demo_assignment "[demo_owner]" _ toy_crypto toy_cert_wire] by blast

end
