(* ===== verification/Arc_Channel.thy ===== *)
theory Arc_Channel
  imports Arc_Crypto
begin

text \<open>
  The bilateral payment channel of \<open>crates/arc-channel/src/lib.rs\<close>. Keys are what the code uses of
  them: the signing key is the function from a payload to the 64 bytes of its signature, the other
  party's verifying key the strict check of a signature over a payload (\<open>ed25519_dalek\<close>).

  One machine is the record \<open>channel\<close>; a party's call may return a commitment that travels to the
  other party. \<open>channels_agree\<close> relates the two machines of one channel, and the payment round
  \<open>pay\<close>, \<open>receive_state\<close>, \<open>finalize_state\<close> preserves it. Sums of balances wrap at 64 bits as in the
  code, which the last section shows to matter.
\<close>

section \<open>Model\<close>

datatype channel_error =
    WrongState string string
  | ConservationViolation u64 u64 u64
  | NonceNotIncreasing u64 u64
  | InsufficientBalance u64 u64
  | ChInvalidSignature
  | NotAuthorized string

datatype channel_state = Opening | Open | Closing | Disputed | Closed

fun state_name :: "channel_state \<Rightarrow> string" where
  "state_name Opening = ''Opening''"
| "state_name Open = ''Open''"
| "state_name Closing = ''Closing''"
| "state_name Disputed = ''Disputed''"
| "state_name Closed = ''Closed''"

datatype role = Opener | Counterparty

record state_commitment =
  sc_channel_id :: hash256
  sc_nonce :: u64
  sc_opener_balance :: u64
  sc_counterparty_balance :: u64
  sc_proposer_sig :: "u8 list"
  sc_acceptor_sig :: "u8 list option"

definition string_bytes :: "string \<Rightarrow> u8 list" where
  "string_bytes s = map of_char s"

definition signing_payload :: "'z crypto_scheme \<Rightarrow> state_commitment \<Rightarrow> u8 list" where
  "signing_payload cr c = hash_as_bytes (blake3 cr
     (string_bytes ''arc-channel-state-v1'' @ hash_as_bytes (sc_channel_id c) @ u64_le (sc_nonce c)
      @ u64_le (sc_opener_balance c) @ u64_le (sc_counterparty_balance c)))"

definition is_fully_signed :: "state_commitment \<Rightarrow> bool" where
  "is_fully_signed c \<longleftrightarrow> sc_acceptor_sig c \<noteq> None"

record channel =
  ch_channel_id :: hash256
  ch_role :: role
  ch_state :: channel_state
  ch_total_deposit :: u64
  ch_opener_balance :: u64
  ch_counterparty_balance :: u64
  ch_nonce :: u64
  ch_sign :: "u8 list \<Rightarrow> u8 list"
  ch_check :: "u8 list \<Rightarrow> u8 list \<Rightarrow> bool"
  ch_history :: "state_commitment list"

definition channel_new ::
  "hash256 \<Rightarrow> role \<Rightarrow> u64 \<Rightarrow> (u8 list \<Rightarrow> u8 list) \<Rightarrow> (u8 list \<Rightarrow> u8 list \<Rightarrow> bool) \<Rightarrow> channel" where
  "channel_new channel_id r total_deposit signing_key counterparty_vk =
     (let (opener_balance, counterparty_balance) =
        (case r of Opener \<Rightarrow> (total_deposit, 0) | Counterparty \<Rightarrow> (0, total_deposit)) in
      \<lparr>ch_channel_id = channel_id, ch_role = r, ch_state = Opening, ch_total_deposit = total_deposit,
       ch_opener_balance = opener_balance, ch_counterparty_balance = counterparty_balance, ch_nonce = 0,
       ch_sign = signing_key, ch_check = counterparty_vk, ch_history = []\<rparr>)"

definition require_open :: "channel \<Rightarrow> channel_error + unit" where
  "require_open m = guard (ch_state m = Open) (WrongState ''Open'' (state_name (ch_state m)))"

definition confirm_open :: "channel \<Rightarrow> channel_error + channel" where
  "confirm_open m =
     (if ch_state m \<noteq> Opening then Inl (WrongState ''Opening'' (state_name (ch_state m)))
      else Inr (m\<lparr>ch_state := Open\<rparr>))"

definition propose_state :: "'z crypto_scheme \<Rightarrow> u64 \<Rightarrow> u64 \<Rightarrow> channel \<Rightarrow> channel_error + state_commitment" where
  "propose_state cr opener_balance counterparty_balance m =
     and_then (require_open m) (\<lambda>_.
       if opener_balance + counterparty_balance \<noteq> ch_total_deposit m
       then Inl (ConservationViolation opener_balance counterparty_balance (ch_total_deposit m))
       else let c = \<lparr>sc_channel_id = ch_channel_id m, sc_nonce = ch_nonce m + 1,
                     sc_opener_balance = opener_balance, sc_counterparty_balance = counterparty_balance,
                     sc_proposer_sig = [], sc_acceptor_sig = None\<rparr> in
         Inr (c\<lparr>sc_proposer_sig := ch_sign m (signing_payload cr c)\<rparr>))"

definition pay :: "'z crypto_scheme \<Rightarrow> u64 \<Rightarrow> channel \<Rightarrow> channel_error + state_commitment" where
  "pay cr amount m =
     and_then (require_open m) (\<lambda>_.
       case ch_role m of
         Opener \<Rightarrow>
           if ch_opener_balance m < amount then Inl (InsufficientBalance (ch_opener_balance m) amount)
           else propose_state cr (ch_opener_balance m - amount) (ch_counterparty_balance m + amount) m
       | Counterparty \<Rightarrow>
           if ch_counterparty_balance m < amount then Inl (InsufficientBalance (ch_counterparty_balance m) amount)
           else propose_state cr (ch_opener_balance m + amount) (ch_counterparty_balance m - amount) m)"

definition adopt :: "state_commitment \<Rightarrow> channel \<Rightarrow> channel" where
  "adopt c m = m\<lparr>ch_nonce := sc_nonce c, ch_opener_balance := sc_opener_balance c,
     ch_counterparty_balance := sc_counterparty_balance c, ch_history := ch_history m @ [c]\<rparr>"

definition receive_state ::
  "'z crypto_scheme \<Rightarrow> state_commitment \<Rightarrow> channel \<Rightarrow> channel_error + state_commitment \<times> channel" where
  "receive_state cr c m =
     and_then (require_open m) (\<lambda>_.
       if sc_channel_id c \<noteq> ch_channel_id m then Inl (NotAuthorized ''channel_id mismatch'')
       else if sc_nonce c \<le> ch_nonce m then Inl (NonceNotIncreasing (ch_nonce m) (sc_nonce c))
       else if sc_opener_balance c + sc_counterparty_balance c \<noteq> ch_total_deposit m
       then Inl (ConservationViolation (sc_opener_balance c) (sc_counterparty_balance c) (ch_total_deposit m))
       else if length (sc_proposer_sig c) \<noteq> 64 then Inl ChInvalidSignature
       else if \<not> ch_check m (signing_payload cr c) (sc_proposer_sig c) then Inl ChInvalidSignature
       else let c' = c\<lparr>sc_acceptor_sig := Some (ch_sign m (signing_payload cr c))\<rparr> in
         Inr (c', adopt c' m))"

definition finalize_state :: "'z crypto_scheme \<Rightarrow> state_commitment \<Rightarrow> channel \<Rightarrow> channel_error + channel" where
  "finalize_state cr c m =
     (case sc_acceptor_sig c of
        None \<Rightarrow> Inl ChInvalidSignature
      | Some sg \<Rightarrow>
          if length sg \<noteq> 64 then Inl ChInvalidSignature
          else if \<not> ch_check m (signing_payload cr c) sg then Inl ChInvalidSignature
          else Inr (adopt c m))"

definition close_channel :: "'z crypto_scheme \<Rightarrow> channel \<Rightarrow> channel_error + state_commitment \<times> channel" where
  "close_channel cr m =
     and_then (require_open m) (\<lambda>_.
       let m' = m\<lparr>ch_state := Closing\<rparr>;
           c = \<lparr>sc_channel_id = ch_channel_id m, sc_nonce = ch_nonce m, sc_opener_balance = ch_opener_balance m,
                sc_counterparty_balance = ch_counterparty_balance m, sc_proposer_sig = [], sc_acceptor_sig = None\<rparr> in
       Inr (c\<lparr>sc_proposer_sig := ch_sign m (signing_payload cr c)\<rparr>, m'))"

definition dispute :: "channel \<Rightarrow> channel_error + state_commitment" where
  "dispute m = ok_or (WrongState ''state with both signatures'' ''no fully-signed states'')
     (List.find is_fully_signed (rev (ch_history m)))"

definition confirm_closed :: "channel \<Rightarrow> channel" where
  "confirm_closed m = m\<lparr>ch_state := Closed\<rparr>"

definition my_balance :: "channel \<Rightarrow> u64" where
  "my_balance m = (case ch_role m of Opener \<Rightarrow> ch_opener_balance m | Counterparty \<Rightarrow> ch_counterparty_balance m)"

definition their_balance :: "channel \<Rightarrow> u64" where
  "their_balance m = (case ch_role m of Opener \<Rightarrow> ch_counterparty_balance m | Counterparty \<Rightarrow> ch_opener_balance m)"

section \<open>Two parties\<close>

text \<open>The documented behaviour of the signature scheme: a signature has 64 bytes, and the verifying key
  one party holds accepts what the other party signs.\<close>

definition keys_match :: "channel \<Rightarrow> channel \<Rightarrow> bool" where
  "keys_match a b \<longleftrightarrow> (\<forall>m. length (ch_sign a m) = 64 \<and> ch_check b m (ch_sign a m)
     \<and> length (ch_sign b m) = 64 \<and> ch_check a m (ch_sign b m))"

definition channels_agree :: "channel \<Rightarrow> channel \<Rightarrow> bool" where
  "channels_agree a b \<longleftrightarrow> ch_channel_id a = ch_channel_id b \<and> ch_role a \<noteq> ch_role b
     \<and> ch_state a = Open \<and> ch_state b = Open \<and> ch_total_deposit a = ch_total_deposit b
     \<and> ch_opener_balance a = ch_opener_balance b \<and> ch_counterparty_balance a = ch_counterparty_balance b
     \<and> ch_nonce a = ch_nonce b
     \<and> unat (ch_opener_balance a) + unat (ch_counterparty_balance a) = unat (ch_total_deposit a)"

lemma channels_agree_sym: "channels_agree a b \<Longrightarrow> channels_agree b a"
  by (auto simp: channels_agree_def)

lemma word_less_succ: "x \<noteq> - 1 \<Longrightarrow> x < x + 1" for x :: u64
proof -
  assume "x \<noteq> - 1"
  then have "unat x \<noteq> 2 ^ 64 - 1" by (auto simp: word_unat_eq_iff unsigned_minus_1_eq_mask mask_eq_exp_minus_1)
  then have "unat x + 1 < 2 ^ 64" using unat_less_64 [of x] by linarith
  then show ?thesis by (simp add: word_less_nat_alt unat_add_no_wrap)
qed

lemma keys_match_sym: "keys_match a b \<Longrightarrow> keys_match b a"
  by (auto simp: keys_match_def)

text \<open>A payment within the balance is proposed, and moves exactly the amount.\<close>

lemma pay_commitment:
  assumes "channels_agree a b" "amount \<le> my_balance a"
  obtains c where "pay cr amount a = Inr c" "sc_channel_id c = ch_channel_id a" "sc_nonce c = ch_nonce a + 1"
    "sc_proposer_sig c = ch_sign a (signing_payload cr c)" "sc_acceptor_sig c = None"
    "unat (sc_opener_balance c) + unat (sc_counterparty_balance c) = unat (ch_total_deposit a)"
    "sc_opener_balance c = (if ch_role a = Opener then ch_opener_balance a - amount else ch_opener_balance a + amount)"
    "sc_counterparty_balance c = (if ch_role a = Opener then ch_counterparty_balance a + amount
       else ch_counterparty_balance a - amount)"
proof -
  let ?o = "ch_opener_balance a" and ?c = "ch_counterparty_balance a" and ?t = "ch_total_deposit a"
  define o' where "o' = (if ch_role a = Opener then ?o - amount else ?o + amount)"
  define c' where "c' = (if ch_role a = Opener then ?c + amount else ?c - amount)"
  have sum: "unat ?o + unat ?c = unat ?t" "ch_state a = Open"
    using assms(1) unfolding channels_agree_def by blast+
  have "unat ?t < 2 ^ 64" by (rule unat_less_64)
  then have sum': "unat o' + unat c' = unat ?t"
    using sum assms(2) by (auto simp: o'_def c'_def my_balance_def unat_sub word_le_nat_alt unat_add_no_wrap split: role.splits)
  then have wsum: "o' + c' = ?t" using \<open>unat ?t < 2 ^ 64\<close> by (simp add: word_unat_eq_iff unat_add_no_wrap)
  let ?cm = "\<lparr>sc_channel_id = ch_channel_id a, sc_nonce = ch_nonce a + 1, sc_opener_balance = o',
    sc_counterparty_balance = c', sc_proposer_sig = [], sc_acceptor_sig = None\<rparr>"
  have "propose_state cr o' c' a = Inr (?cm\<lparr>sc_proposer_sig := ch_sign a (signing_payload cr ?cm)\<rparr>)"
    using sum(2) wsum by (simp add: propose_state_def require_open_def)
  then have "pay cr amount a = Inr (?cm\<lparr>sc_proposer_sig := ch_sign a (signing_payload cr ?cm)\<rparr>)"
    using assms(2) sum(2) by (cases "ch_role a") (auto simp: pay_def require_open_def my_balance_def o'_def c'_def)
  then show thesis
    by (rule that) (use sum' in \<open>simp_all add: signing_payload_def o'_def c'_def\<close>)
qed

lemma signing_payload_sig: "signing_payload cr (c\<lparr>sc_acceptor_sig := s\<rparr>) = signing_payload cr c"
  by (simp add: signing_payload_def)

lemma payment_round:
  assumes "channels_agree a b" "keys_match a b" "amount \<le> my_balance a" "ch_nonce a \<noteq> - 1"
  obtains c c' a' b' where "pay cr amount a = Inr c" "receive_state cr c b = Inr (c', b')"
    "finalize_state cr c' a = Inr a'" "channels_agree a' b'"
    "my_balance a' = my_balance a - amount" "their_balance a' = their_balance a + amount"
    "ch_nonce a' = ch_nonce a + 1" "dispute a' = Inr c'" "dispute b' = Inr c'"
proof -
  obtain c where c: "pay cr amount a = Inr c" "sc_channel_id c = ch_channel_id a" "sc_nonce c = ch_nonce a + 1"
    "sc_proposer_sig c = ch_sign a (signing_payload cr c)" "sc_acceptor_sig c = None"
    "unat (sc_opener_balance c) + unat (sc_counterparty_balance c) = unat (ch_total_deposit a)"
    "sc_opener_balance c = (if ch_role a = Opener then ch_opener_balance a - amount else ch_opener_balance a + amount)"
    "sc_counterparty_balance c = (if ch_role a = Opener then ch_counterparty_balance a + amount
       else ch_counterparty_balance a - amount)"
    by (rule pay_commitment [OF assms(1,3)])
  have ag: "ch_channel_id a = ch_channel_id b" "ch_state b = Open" "ch_state a = Open" "ch_nonce a = ch_nonce b"
    "ch_total_deposit a = ch_total_deposit b" "ch_role a \<noteq> ch_role b"
    using assms(1) by (simp_all add: channels_agree_def)
  have k: "length (ch_sign a m) = 64" "ch_check b m (ch_sign a m)" "length (ch_sign b m) = 64" "ch_check a m (ch_sign b m)" for m
    using assms(2) by (simp_all add: keys_match_def)
  have n: "ch_nonce b < ch_nonce b + 1"
    using assms(4) ag(4) word_less_succ by simp
  have s: "sc_opener_balance c + sc_counterparty_balance c = ch_total_deposit b"
    using c(6) ag(5) unat_less_64 [of "ch_total_deposit a"] by (simp add: word_unat_eq_iff unat_add_no_wrap)
  define c' where "c' = c\<lparr>sc_acceptor_sig := Some (ch_sign b (signing_payload cr c))\<rparr>"
  have "receive_state cr c b = Inr (c', adopt c' b)"
    using c(2-4) ag n s k by (simp add: receive_state_def require_open_def c'_def Let_def not_le)
  moreover have "finalize_state cr c' a = Inr (adopt c' a)"
    using k by (simp add: finalize_state_def c'_def signing_payload_sig)
  moreover have "channels_agree (adopt c' a) (adopt c' b)"
    using ag c(6) by (simp add: channels_agree_def adopt_def c'_def)
  ultimately show thesis
    by (rule that [OF c(1)])
      (use c(3,7,8) in \<open>cases "ch_role a"; simp add: adopt_def c'_def my_balance_def their_balance_def dispute_def is_fully_signed_def\<close>)+
qed

section \<open>Sequences of payments\<close>

text \<open>One payment from the first machine to the second: the commitment travels to the payee, and the
  co-signed commitment back. A refused call ends the round.\<close>

definition pay_round :: "'z crypto_scheme \<Rightarrow> u64 \<Rightarrow> channel \<times> channel \<Rightarrow> channel \<times> channel" where
  "pay_round cr amount ab =
     (case pay cr amount (fst ab) of
        Inl _ \<Rightarrow> ab
      | Inr c \<Rightarrow>
          (case receive_state cr c (snd ab) of
             Inl _ \<Rightarrow> ab
           | Inr (c', b') \<Rightarrow>
               (case finalize_state cr c' (fst ab) of Inl _ \<Rightarrow> (fst ab, b') | Inr a' \<Rightarrow> (a', b'))))"

text \<open>A payment list: the flag says whether the first machine pays.\<close>

definition pay_step :: "'z crypto_scheme \<Rightarrow> channel \<times> channel \<Rightarrow> bool \<times> u64 \<Rightarrow> channel \<times> channel" where
  "pay_step cr ab x = (if fst x then pay_round cr (snd x) ab
     else prod.swap (pay_round cr (snd x) (prod.swap ab)))"

lemma pay_refused: "\<not> amount \<le> my_balance a \<Longrightarrow> \<exists>e. pay cr amount a = Inl e"
  by (cases "ch_state a = Open"; cases "ch_role a") (auto simp: pay_def require_open_def my_balance_def not_le)

definition channel_linked :: "u64 \<Rightarrow> hash256 \<Rightarrow> nat \<Rightarrow> channel \<times> channel \<Rightarrow> bool" where
  "channel_linked t cid n ab \<longleftrightarrow> channels_agree (fst ab) (snd ab) \<and> keys_match (fst ab) (snd ab)
     \<and> ch_total_deposit (fst ab) = t \<and> ch_channel_id (fst ab) = cid \<and> unat (ch_nonce (fst ab)) \<le> n"

lemma channel_linked_swap: "channel_linked t cid n ab \<Longrightarrow> channel_linked t cid n (prod.swap ab)"
  by (auto simp: channel_linked_def channels_agree_def keys_match_def)

lemma adopt_fixed: "ch_total_deposit (adopt c m) = ch_total_deposit m" "ch_channel_id (adopt c m) = ch_channel_id m"
  "ch_sign (adopt c m) = ch_sign m" "ch_check (adopt c m) = ch_check m"
  by (simp_all add: adopt_def)

lemma finalize_state_Inr: "finalize_state cr c m = Inr m' \<Longrightarrow> m' = adopt c m"
  by (auto simp: finalize_state_def split: option.splits if_splits)

lemma receive_state_Inr: "receive_state cr c m = Inr (c', m') \<Longrightarrow> m' = adopt c' m"
  by (auto simp: receive_state_def Let_def result_simps split: if_splits)

lemma pay_round_linked:
  assumes "channel_linked t cid n ab" "n < 2 ^ 64 - 1"
  shows "channel_linked t cid (Suc n) (pay_round cr amount ab)"
proof (cases "amount \<le> my_balance (fst ab)")
  case False
  then show ?thesis using pay_refused [OF False, of cr] assms(1) by (auto simp: pay_round_def channel_linked_def)
next
  case True
  obtain a b where ab: "ab = (a, b)" by (cases ab)
  have ag: "channels_agree a b" "keys_match a b" "unat (ch_nonce a) \<le> n" using assms(1) by (simp_all add: channel_linked_def ab)
  have nonce: "ch_nonce a \<noteq> - 1"
    using ag(3) assms(2) by (auto simp: unsigned_minus_1_eq_mask mask_eq_exp_minus_1)
  have "amount \<le> my_balance a" using True ab by simp
  obtain c c' a' b' where r: "pay cr amount a = Inr c" "receive_state cr c b = Inr (c', b')"
    "finalize_state cr c' a = Inr a'" "channels_agree a' b'" "ch_nonce a' = ch_nonce a + 1"
    by (rule payment_round [OF ag(1,2) \<open>amount \<le> my_balance a\<close> nonce])
  have "unat (ch_nonce a + 1) \<le> Suc n" using ag(3) assms(2) by (simp add: unat_add_no_wrap)
  then show ?thesis
    using r assms(1) receive_state_Inr [OF r(2)] finalize_state_Inr [OF r(3)]
    by (simp add: ab pay_round_def channel_linked_def keys_match_def adopt_fixed)
qed

lemma payments_linked:
  "channel_linked t cid n ab \<Longrightarrow> n + length ps < 2 ^ 64 \<Longrightarrow> channel_linked t cid (n + length ps) (foldl (pay_step cr) ab ps)"
proof (induction ps arbitrary: ab n)
  case (Cons x ps)
  have n: "n < 2 ^ 64 - 1" using Cons.prems(2) by simp
  have "channel_linked t cid (Suc n) (pay_step cr ab x)"
    using pay_round_linked [OF Cons.prems(1) n, of cr "snd x"]
      channel_linked_swap [OF pay_round_linked [OF channel_linked_swap [OF Cons.prems(1)] n, of cr "snd x"]]
    by (simp add: pay_step_def)
  then show ?case using Cons.IH [of "Suc n"] Cons.prems(2) by simp
qed simp

section \<open>What the machine does not check\<close>

text \<open>The balances of a commitment are compared with the deposit after a sum that wraps: a commitment
  that gives each side far more than the deposit is accepted when the payer signs it.\<close>

lemma receive_accepts_wrapped_balances:
  assumes "ch_state m = Open" "ch_nonce m = 0" "\<And>p. ch_check m p (sig p)" "\<And>p. length (sig p) = 64"
    and "sc_channel_id c = ch_channel_id m" "sc_nonce c = 1" "sc_opener_balance c = - 1"
    and "sc_counterparty_balance c = ch_total_deposit m + 1" "sc_proposer_sig c = sig (signing_payload cr c)"
  shows "\<exists>c' m'. receive_state cr c m = Inr (c', m') \<and> ch_opener_balance m' = - 1"
  using assms by (simp add: receive_state_def require_open_def Let_def adopt_def)

text \<open>Each constructor gives the whole deposit to its own side, so the two machines of one channel start
  with different balances.\<close>

lemma new_machines_disagree:
  "t \<noteq> 0 \<Longrightarrow> ch_opener_balance (channel_new i Opener t s v) \<noteq> ch_opener_balance (channel_new i Counterparty t s' v')"
  by (simp add: channel_new_def)

text \<open>Finalising checks the other party's signature and nothing else: the channel, the nonce and the
  balances of the commitment are whatever that party signed.\<close>

lemma finalize_checks_only_signature:
  "finalize_state cr c m = Inr m' \<longleftrightarrow>
    (\<exists>sg. sc_acceptor_sig c = Some sg \<and> length sg = 64 \<and> ch_check m (signing_payload cr c) sg) \<and> m' = adopt c m"
  by (auto simp: finalize_state_def split: option.splits)

section \<open>From new machines\<close>

text \<open>Once the machines agree they stay in agreement.\<close>

lemma agreement_kept:
  assumes "channels_agree a b" and "keys_match a b" and "unat (ch_nonce a) + length ps < 2 ^ 64"
  shows "case foldl (pay_step cr) (a, b) ps of (a', b') \<Rightarrow>
    channels_agree a' b' \<and> ch_total_deposit a' = ch_total_deposit a \<and> ch_channel_id a' = ch_channel_id a \<and>
    unat (my_balance a') + unat (my_balance b') = unat (ch_total_deposit a)"
proof -
  obtain a' b' where ab: "foldl (pay_step cr) (a, b) ps = (a', b')" by fastforce
  have "channel_linked (ch_total_deposit a) (ch_channel_id a) (unat (ch_nonce a)) (a, b)" using assms(1,2) by (simp add: channel_linked_def)
  then have l: "channel_linked (ch_total_deposit a) (ch_channel_id a) (unat (ch_nonce a) + length ps) (a', b')"
    using payments_linked [OF _ assms(3)] ab by metis
  then have "unat (my_balance a') + unat (my_balance b') = unat (ch_total_deposit a)"
    by (cases "ch_role a'"; cases "ch_role b'") (auto simp: channel_linked_def channels_agree_def my_balance_def)
  then show ?thesis using l by (simp add: ab channel_linked_def)
qed

text \<open>The first payment does not depend on the balances the receiver starts with: they are neither read
  nor kept.\<close>

lemma receive_ignores_balances:
  "receive_state cr c (m\<lparr>ch_opener_balance := x, ch_counterparty_balance := y\<rparr>) = receive_state cr c m"
  by (simp add: receive_state_def require_open_def adopt_def Let_def)

lemma pay_round_ignores_receiver:
  assumes "pay cr amount a = Inr c" "receive_state cr c b = Inr r"
  shows "pay_round cr amount (a, b\<lparr>ch_opener_balance := x, ch_counterparty_balance := y\<rparr>) = pay_round cr amount (a, b)"
  using assms by (simp add: pay_round_def receive_ignores_balances split: prod.splits sum.splits)

definition opened :: "channel \<Rightarrow> channel" where
  "opened m = (case confirm_open m of Inl _ \<Rightarrow> m | Inr m' \<Rightarrow> m')"

lemma opened_new:
  "opened (channel_new i Opener t sa va) = \<lparr>ch_channel_id = i, ch_role = Opener, ch_state = Open, ch_total_deposit = t,
     ch_opener_balance = t, ch_counterparty_balance = 0, ch_nonce = 0, ch_sign = sa, ch_check = va, ch_history = []\<rparr>"
  "opened (channel_new i Counterparty t sb vb) = \<lparr>ch_channel_id = i, ch_role = Counterparty, ch_state = Open,
     ch_total_deposit = t, ch_opener_balance = 0, ch_counterparty_balance = t, ch_nonce = 0, ch_sign = sb,
     ch_check = vb, ch_history = []\<rparr>"
  by (simp_all add: opened_def confirm_open_def channel_new_def)

lemma first_payment:
  assumes "keys_match (opened (channel_new i Opener t sa va)) (opened (channel_new i Counterparty t sb vb))" "amount \<le> t"
  obtains m where "channels_agree (opened (channel_new i Opener t sa va)) m"
    "keys_match (opened (channel_new i Opener t sa va)) m"
    "pay_step cr (opened (channel_new i Opener t sa va), opened (channel_new i Counterparty t sb vb)) (True, amount) =
     pay_step cr (opened (channel_new i Opener t sa va), m) (True, amount)"
proof -
  let ?a = "opened (channel_new i Opener t sa va)" and ?b = "opened (channel_new i Counterparty t sb vb)"
  define m where "m = ?b\<lparr>ch_opener_balance := t, ch_counterparty_balance := 0\<rparr>"
  have ag: "channels_agree ?a m" "keys_match ?a m"
    using assms(1) by (simp_all add: m_def opened_new channels_agree_def keys_match_def)
  have "amount \<le> my_balance ?a" "ch_nonce ?a \<noteq> - 1" using assms(2) by (simp_all add: opened_new my_balance_def)
  then obtain c c' b' where "pay cr amount ?a = Inr c" "receive_state cr c m = Inr (c', b')"
    using payment_round [OF ag] by metis
  then have "pay_round cr amount (?a, m\<lparr>ch_opener_balance := 0, ch_counterparty_balance := t\<rparr>) = pay_round cr amount (?a, m)"
    by (rule pay_round_ignores_receiver)
  moreover have "m\<lparr>ch_opener_balance := 0, ch_counterparty_balance := t\<rparr> = ?b" by (simp add: m_def opened_new)
  ultimately have "pay_step cr (?a, ?b) (True, amount) = pay_step cr (?a, m) (True, amount)" by (simp add: pay_step_def)
  then show thesis by (rule that [OF ag])
qed

text \<open>When the counterparty pays first it pays out of the deposit its own constructor gave it: the
  opener's machine co-signs, and is left with no more than the amount.\<close>

lemma counterparty_first_takes_deposit:
  assumes "keys_match (opened (channel_new i Opener t sa va)) (opened (channel_new i Counterparty t sb vb))" "amount \<le> t"
  shows "case pay_step cr (opened (channel_new i Opener t sa va), opened (channel_new i Counterparty t sb vb)) (False, amount)
    of (a', b') \<Rightarrow> my_balance a' = amount \<and> my_balance b' = t - amount"
  using assms by (simp add: opened_new keys_match_def pay_step_def pay_round_def pay_def propose_state_def require_open_def
      receive_state_def finalize_state_def adopt_def my_balance_def signing_payload_def Let_def not_less [symmetric])

section \<open>Properties\<close>

text \<open>C36: the two machines of a newly opened channel, once the opener has made a first payment within its
  deposit, stay in agreement over any sequence of payments in either direction, refused ones included.
  Balances, nonce and channel are the same on both sides, and the two parties' balances add up to the
  deposit without wrapping. The hypotheses are that each party's key verifies the other's signatures and
  that the nonce does not run out.\<close>

theorem payments_keep_agreement:
  assumes "keys_match (opened (channel_new i Opener t sa va)) (opened (channel_new i Counterparty t sb vb))"
    and "amount \<le> t" and "Suc (length ps) < 2 ^ 64"
  shows "case foldl (pay_step cr) (opened (channel_new i Opener t sa va), opened (channel_new i Counterparty t sb vb))
      ((True, amount) # ps) of (a', b') \<Rightarrow>
    channels_agree a' b' \<and> ch_total_deposit a' = t \<and> ch_channel_id a' = i \<and>
    unat (my_balance a') + unat (my_balance b') = unat t"
proof -
  let ?a = "opened (channel_new i Opener t sa va)"
  obtain m where m: "channels_agree ?a m" "keys_match ?a m"
    "pay_step cr (?a, opened (channel_new i Counterparty t sb vb)) (True, amount) = pay_step cr (?a, m) (True, amount)"
    by (rule first_payment [OF assms(1,2)])
  have "unat (ch_nonce ?a) + length ((True, amount) # ps) < 2 ^ 64" using assms(3) by (simp add: opened_new)
  note run = agreement_kept [OF m(1,2) this, of cr]
  have "ch_total_deposit ?a = t" "ch_channel_id ?a = i" by (simp_all add: opened_new)
  then show ?thesis using run by (simp add: m(3))
qed

lemma demo_keys:
  "keys_match (opened (channel_new 7 Opener 100 (\<lambda>_. replicate 64 0) (\<lambda>_ s. s = replicate 64 0)))
     (opened (channel_new 7 Counterparty 100 (\<lambda>_. replicate 64 0) (\<lambda>_ s. s = replicate 64 0)))"
  by (simp add: keys_match_def opened_new)

theorem payments_keep_agreement_witness:
  "case foldl (pay_step toy_crypto)
      (opened (channel_new 7 Opener 100 (\<lambda>_. replicate 64 0) (\<lambda>_ s. s = replicate 64 0)),
       opened (channel_new 7 Counterparty 100 (\<lambda>_. replicate 64 0) (\<lambda>_ s. s = replicate 64 0)))
      [(True, 30), (False, 10), (False, 50)]
    of (a', b') \<Rightarrow> channels_agree a' b' \<and> unat (my_balance a') + unat (my_balance b') = 100"
  using payments_keep_agreement [OF demo_keys, of 30 "[(False, 10), (False, 50)]" toy_crypto]
  by (simp add: split_beta del: foldl_Cons)

end
