(* ===== verification/Arc_Multisig.thy ===== *)
theory Arc_Multisig
  imports Arc_Crypto
begin

text \<open>
  The multi-signature wallet of \<open>crates/arc-types/src/multisig.rs\<close>. Sums of weights are \<open>u32\<close> and
  wrap as in the code; labels are strings. \<open>ms_step\<close> makes the wallet a machine whose events say what
  was approved and executed, so that the authorisation of an execution can be traced to earlier calls.
\<close>

section \<open>Model\<close>

datatype multisig_error =
    NotOwner
  | AlreadyApproved
  | ThresholdNotMet
  | TxNotFound
  | TxExpired
  | InvalidThreshold
  | TooFewOwners
  | OwnerAlreadyExists
  | CannotRemoveLastOwner
  | TxAlreadyExecuted

datatype multisig_tx_status = MsPending | MsApproved | MsExecuted | MsRejected | MsExpired | MsCancelled

record execution_result =
  er_success :: bool
  er_return_data :: "u8 list"
  er_gas_used :: u64

record approval =
  ap_signer :: hash256
  ap_weight :: u32
  ap_timestamp :: u64

record owner =
  ow_address :: hash256
  ow_weight :: u32
  ow_added_at :: u64
  ow_label :: string

record pending_tx =
  tx_id :: hash256
  tx_to :: hash256
  tx_value :: u64
  tx_data :: "u8 list"
  tx_proposer :: hash256
  tx_approvals :: "approval list"
  tx_rejections :: "hash256 list"
  tx_created_at :: u64
  tx_expires_at :: u64
  tx_status :: multisig_tx_status
  tx_execution_result :: "execution_result option"

record wallet =
  wa_address :: hash256
  wa_owners :: "owner list"
  wa_threshold :: u32
  wa_nonce :: u64
  wa_pending_txs :: "pending_tx list"

definition owners_weight :: "owner list \<Rightarrow> u32" where
  "owners_weight os = sum_list (map ow_weight os)"

definition total_weight :: "wallet \<Rightarrow> u32" where
  "total_weight w = owners_weight (wa_owners w)"

definition is_owner :: "wallet \<Rightarrow> hash256 \<Rightarrow> bool" where
  "is_owner w a \<longleftrightarrow> list_ex (\<lambda>ow. ow_address ow = a) (wa_owners w)"

definition owner_weight :: "wallet \<Rightarrow> hash256 \<Rightarrow> u32" where
  "owner_weight w a = (case List.find (\<lambda>ow. ow_address ow = a) (wa_owners w) of None \<Rightarrow> 0 | Some ow \<Rightarrow> ow_weight ow)"

definition find_tx :: "wallet \<Rightarrow> hash256 \<Rightarrow> multisig_error + pending_tx" where
  "find_tx w i = ok_or TxNotFound (List.find (\<lambda>tx. tx_id tx = i) (wa_pending_txs w))"

text \<open>A write through \<open>find_tx_mut\<close>.\<close>

definition update_tx :: "hash256 \<Rightarrow> (pending_tx \<Rightarrow> pending_tx) \<Rightarrow> wallet \<Rightarrow> wallet" where
  "update_tx i f w = w\<lparr>wa_pending_txs := update_first (\<lambda>tx. tx_id tx = i) f (wa_pending_txs w)\<rparr>"

definition approval_weight :: "pending_tx \<Rightarrow> u32" where
  "approval_weight tx = sum_list (map ap_weight (tx_approvals tx))"

definition derive_tx_id :: "'z crypto_scheme \<Rightarrow> u64 \<Rightarrow> hash256 \<Rightarrow> u64 \<Rightarrow> hash256" where
  "derive_tx_id cr nonce to v = blake3 cr (u64_le nonce @ hash_as_bytes to @ u64_le v)"

definition derive_address :: "'z crypto_scheme \<Rightarrow> owner list \<Rightarrow> u32 \<Rightarrow> hash256" where
  "derive_address cr owners threshold =
     blake3 cr (map of_char ''multisig-wallet-v1'' @ to_le_bytes 4 threshold @ concat (map (hash_as_bytes \<circ> ow_address) owners))"

definition wallet_new :: "'z crypto_scheme \<Rightarrow> owner list \<Rightarrow> u32 \<Rightarrow> multisig_error + wallet" where
  "wallet_new cr owners threshold =
     (if owners = [] then Inl TooFewOwners
      else if threshold = 0 \<or> threshold > owners_weight owners then Inl InvalidThreshold
      else Inr \<lparr>wa_address = derive_address cr owners threshold, wa_owners = owners, wa_threshold = threshold,
                wa_nonce = 0, wa_pending_txs = []\<rparr>)"

definition propose_tx ::
  "'z crypto_scheme \<Rightarrow> hash256 \<Rightarrow> hash256 \<Rightarrow> u64 \<Rightarrow> u8 list \<Rightarrow> u64 \<Rightarrow> wallet \<Rightarrow> multisig_error + hash256 \<times> wallet" where
  "propose_tx cr proposer to v data expires_at w =
     (if \<not> is_owner w proposer then Inl NotOwner
      else let i = derive_tx_id cr (wa_nonce w) to v in
        Inr (i, w\<lparr>wa_nonce := wa_nonce w + 1,
                  wa_pending_txs := wa_pending_txs w @ [\<lparr>tx_id = i, tx_to = to, tx_value = v, tx_data = data,
                    tx_proposer = proposer, tx_approvals = [], tx_rejections = [], tx_created_at = 0,
                    tx_expires_at = expires_at, tx_status = MsPending, tx_execution_result = None\<rparr>]\<rparr>))"

fun open_for_votes :: "multisig_tx_status \<Rightarrow> multisig_error + unit" where
  "open_for_votes MsExecuted = Inl TxAlreadyExecuted"
| "open_for_votes MsExpired = Inl TxExpired"
| "open_for_votes MsCancelled = Inl TxExpired"
| "open_for_votes _ = Inr ()"

definition add_approval :: "hash256 \<Rightarrow> u32 \<Rightarrow> u32 \<Rightarrow> pending_tx \<Rightarrow> pending_tx" where
  "add_approval signer weight threshold tx =
     (let tx' = tx\<lparr>tx_approvals := tx_approvals tx @ [\<lparr>ap_signer = signer, ap_weight = weight, ap_timestamp = 0\<rparr>]\<rparr> in
      if approval_weight tx' \<ge> threshold then tx'\<lparr>tx_status := MsApproved\<rparr> else tx')"

definition approve :: "hash256 \<Rightarrow> hash256 \<Rightarrow> wallet \<Rightarrow> multisig_error + bool \<times> wallet" where
  "approve i signer w =
     (if \<not> is_owner w signer then Inl NotOwner
      else let weight = owner_weight w signer; threshold = wa_threshold w in
        and_then (find_tx w i) (\<lambda>tx.
        and_then (open_for_votes (tx_status tx)) (\<lambda>_.
          if list_ex (\<lambda>a. ap_signer a = signer) (tx_approvals tx) then Inl AlreadyApproved
          else Inr (approval_weight (add_approval signer weight threshold tx) \<ge> threshold,
                    update_tx i (add_approval signer weight threshold) w))))"

definition add_rejection :: "(hash256 \<Rightarrow> u32) \<Rightarrow> u32 \<Rightarrow> u32 \<Rightarrow> hash256 \<Rightarrow> pending_tx \<Rightarrow> pending_tx" where
  "add_rejection weight_of total_w threshold signer tx =
     (let tx' = tx\<lparr>tx_rejections := (if signer \<in> set (tx_rejections tx) then tx_rejections tx
                                    else tx_rejections tx @ [signer])\<rparr>;
          rejected = sum_list (map weight_of (tx_rejections tx')) in
      if total_w - rejected < threshold then tx'\<lparr>tx_status := MsRejected\<rparr> else tx')"

definition reject :: "hash256 \<Rightarrow> hash256 \<Rightarrow> wallet \<Rightarrow> multisig_error + wallet" where
  "reject i signer w =
     (if \<not> is_owner w signer then Inl NotOwner
      else and_then (find_tx w i) (\<lambda>tx.
        and_then (open_for_votes (tx_status tx)) (\<lambda>_.
          Inr (update_tx i (add_rejection (owner_weight w) (total_weight w) (wa_threshold w) signer) w))))"

definition is_approved :: "wallet \<Rightarrow> hash256 \<Rightarrow> bool" where
  "is_approved w i = (case find_tx w i of Inl _ \<Rightarrow> False | Inr tx \<Rightarrow> approval_weight tx \<ge> wa_threshold w)"

definition execution_ok :: execution_result where
  "execution_ok = \<lparr>er_success = True, er_return_data = [], er_gas_used = 21000\<rparr>"

definition mark_executed :: "pending_tx \<Rightarrow> pending_tx" where
  "mark_executed tx = tx\<lparr>tx_status := MsExecuted, tx_execution_result := Some execution_ok\<rparr>"

definition ms_execute :: "hash256 \<Rightarrow> wallet \<Rightarrow> multisig_error + execution_result \<times> wallet" where
  "ms_execute i w =
     and_then (find_tx w i) (\<lambda>tx.
       if tx_status tx = MsExecuted then Inl TxAlreadyExecuted
       else if approval_weight tx < wa_threshold w then Inl ThresholdNotMet
       else Inr (execution_ok, update_tx i mark_executed w))"

definition add_owner :: "owner \<Rightarrow> wallet \<Rightarrow> multisig_error + wallet" where
  "add_owner ow w =
     (if is_owner w (ow_address ow) then Inl OwnerAlreadyExists else Inr (w\<lparr>wa_owners := wa_owners w @ [ow]\<rparr>))"

fun position :: "('a \<Rightarrow> bool) \<Rightarrow> 'a list \<Rightarrow> nat option" where
  "position p [] = None"
| "position p (x # xs) = (if p x then Some 0 else map_option Suc (position p xs))"

definition remove_nth :: "nat \<Rightarrow> 'a list \<Rightarrow> 'a list" where
  "remove_nth n xs = take n xs @ drop (Suc n) xs"

definition remove_owner :: "hash256 \<Rightarrow> wallet \<Rightarrow> multisig_error + wallet" where
  "remove_owner a w =
     (if length (wa_owners w) \<le> 1 then Inl CannotRemoveLastOwner
      else and_then (ok_or NotOwner (position (\<lambda>ow. ow_address ow = a) (wa_owners w))) (\<lambda>idx.
        if owners_weight (remove_nth idx (wa_owners w)) < wa_threshold w then Inl InvalidThreshold
        else Inr (w\<lparr>wa_owners := remove_nth idx (wa_owners w)\<rparr>)))"

definition change_threshold :: "u32 \<Rightarrow> wallet \<Rightarrow> multisig_error + wallet" where
  "change_threshold t w =
     (if t = 0 \<or> t > total_weight w then Inl InvalidThreshold else Inr (w\<lparr>wa_threshold := t\<rparr>))"

definition expires_now :: "u64 \<Rightarrow> pending_tx \<Rightarrow> bool" where
  "expires_now now tx \<longleftrightarrow> tx_expires_at tx \<le> now \<and> tx_status tx \<noteq> MsExecuted \<and> tx_status tx \<noteq> MsExpired
     \<and> tx_status tx \<noteq> MsCancelled"

definition cancel_expired :: "u64 \<Rightarrow> wallet \<Rightarrow> nat \<times> wallet" where
  "cancel_expired now w =
     (length (filter (expires_now now) (wa_pending_txs w)),
      w\<lparr>wa_pending_txs := map (\<lambda>tx. if expires_now now tx then tx\<lparr>tx_status := MsExpired\<rparr> else tx) (wa_pending_txs w)\<rparr>)"

section \<open>The wallet as a machine\<close>

datatype ms_op =
    MPropose hash256 hash256 u64 "u8 list" u64
  | MApprove hash256 hash256
  | MReject hash256 hash256
  | MExecute hash256
  | MAddOwner owner
  | MRemoveOwner hash256
  | MThreshold u32
  | MExpire u64

datatype ms_event = EvNone | EvApproved hash256 hash256 u32 | EvExecuted hash256

fun ms_step :: "'z crypto_scheme \<Rightarrow> wallet \<Rightarrow> ms_op \<Rightarrow> ms_event \<times> wallet" where
  "ms_step cr w (MPropose p to v d e) =
     (EvNone, case propose_tx cr p to v d e w of Inl _ \<Rightarrow> w | Inr (_, w') \<Rightarrow> w')"
| "ms_step cr w (MApprove i s) =
     (case approve i s w of Inl _ \<Rightarrow> (EvNone, w) | Inr (_, w') \<Rightarrow> (EvApproved i s (owner_weight w s), w'))"
| "ms_step cr w (MReject i s) = (EvNone, case reject i s w of Inl _ \<Rightarrow> w | Inr w' \<Rightarrow> w')"
| "ms_step cr w (MExecute i) = (case ms_execute i w of Inl _ \<Rightarrow> (EvNone, w) | Inr (_, w') \<Rightarrow> (EvExecuted i, w'))"
| "ms_step cr w (MAddOwner ow) = (EvNone, case add_owner ow w of Inl _ \<Rightarrow> w | Inr w' \<Rightarrow> w')"
| "ms_step cr w (MRemoveOwner a) = (EvNone, case remove_owner a w of Inl _ \<Rightarrow> w | Inr w' \<Rightarrow> w')"
| "ms_step cr w (MThreshold t) = (EvNone, case change_threshold t w of Inl _ \<Rightarrow> w | Inr w' \<Rightarrow> w')"
| "ms_step cr w (MExpire now) = (EvNone, snd (cancel_expired now w))"

text \<open>A run keeps the events so far, newest last.\<close>

definition ms_log :: "'z crypto_scheme \<Rightarrow> ms_event list \<times> wallet \<Rightarrow> ms_op \<Rightarrow> ms_event list \<times> wallet" where
  "ms_log cr s op = (case ms_step cr (snd s) op of (ev, w') \<Rightarrow> (fst s @ [ev], w'))"

section \<open>Lemmas\<close>

definition lookup_tx :: "wallet \<Rightarrow> hash256 \<Rightarrow> pending_tx option" where
  "lookup_tx w i = List.find (\<lambda>tx. tx_id tx = i) (wa_pending_txs w)"

lemma find_tx_Inr [simp]: "find_tx w i = Inr tx \<longleftrightarrow> lookup_tx w i = Some tx"
  by (simp add: find_tx_def lookup_tx_def ok_or_def split: option.splits)

lemma lookup_update_tx:
  assumes "\<And>tx. tx_id (f tx) = tx_id tx"
  shows "lookup_tx (update_tx i f w) j = (if i = j then map_option f (lookup_tx w j) else lookup_tx w j)"
proof (cases "i = j")
  case True
  then show ?thesis
    using assms by (simp add: lookup_tx_def update_tx_def find_update_first)
next
  case False
  then show ?thesis
    using assms by (simp add: lookup_tx_def update_tx_def find_update_first_other)
qed

lemma set_update_tx:
  "tx \<in> set (wa_pending_txs (update_tx i f w)) \<Longrightarrow>
    tx \<in> set (wa_pending_txs w) \<or> (\<exists>tx'. lookup_tx w i = Some tx' \<and> tx = f tx')"
  unfolding update_tx_def lookup_tx_def by (auto dest: set_update_first)

lemma lookup_tx_in: "lookup_tx w i = Some tx \<Longrightarrow> tx \<in> set (wa_pending_txs w) \<and> tx_id tx = i"
  unfolding lookup_tx_def by (rule find_Some_in)

lemma add_approval_fields [simp]:
  "tx_id (add_approval s x t tx) = tx_id tx"
  "tx_approvals (add_approval s x t tx) = tx_approvals tx @ [\<lparr>ap_signer = s, ap_weight = x, ap_timestamp = 0\<rparr>]"
  by (simp_all add: add_approval_def Let_def)

lemma add_rejection_fields [simp]:
  "tx_id (add_rejection f x t s tx) = tx_id tx"
  "tx_approvals (add_rejection f x t s tx) = tx_approvals tx"
  by (simp_all add: add_rejection_def Let_def)

lemma mark_executed_fields [simp]:
  "tx_id (mark_executed tx) = tx_id tx" "tx_approvals (mark_executed tx) = tx_approvals tx"
  "tx_status (mark_executed tx) = MsExecuted"
  by (simp_all add: mark_executed_def)

lemma open_for_votes_Inr: "open_for_votes s = Inr u \<Longrightarrow> s \<noteq> MsExecuted"
  by (cases s) simp_all

lemma approve_Inr:
  assumes "approve i s w = Inr (b, w')"
  obtains tx where "is_owner w s" "lookup_tx w i = Some tx" "tx_status tx \<noteq> MsExecuted"
    "s \<notin> ap_signer ` set (tx_approvals tx)"
    "w' = update_tx i (add_approval s (owner_weight w s) (wa_threshold w)) w"
  using assms open_for_votes_Inr
  by (fastforce simp: approve_def and_then_def Let_def list_ex_iff split: if_splits sum.splits)

lemma reject_Inr:
  assumes "reject i s w = Inr w'"
  obtains tx where "lookup_tx w i = Some tx" "tx_status tx \<noteq> MsExecuted"
    "w' = update_tx i (add_rejection (owner_weight w) (total_weight w) (wa_threshold w) s) w"
  using assms open_for_votes_Inr
  by (fastforce simp: reject_def and_then_def split: if_splits sum.splits)

lemma ms_execute_Inr:
  assumes "ms_execute i w = Inr (r, w')"
  obtains tx where "lookup_tx w i = Some tx" "tx_status tx \<noteq> MsExecuted" "wa_threshold w \<le> approval_weight tx"
    "w' = update_tx i mark_executed w"
  using assms by (fastforce simp: ms_execute_def and_then_def split: if_splits sum.splits)

text \<open>What every operation but \<open>approve\<close> and \<open>execute\<close> does to the queue: approvals are never
  changed, and an executed transaction stays executed.\<close>

definition ms_keeps :: "wallet \<Rightarrow> wallet \<Rightarrow> bool" where
  "ms_keeps w w' \<longleftrightarrow>
     (\<forall>tx' \<in> set (wa_pending_txs w'). tx_approvals tx' = [] \<or>
        (\<exists>tx \<in> set (wa_pending_txs w). tx_id tx = tx_id tx' \<and> tx_approvals tx = tx_approvals tx')) \<and>
     (\<forall>i tx. lookup_tx w i = Some tx \<and> tx_status tx = MsExecuted \<longrightarrow>
        (\<exists>tx'. lookup_tx w' i = Some tx' \<and> tx_status tx' = MsExecuted))"

lemma keeps_same: "wa_pending_txs w' = wa_pending_txs w \<Longrightarrow> ms_keeps w w'"
  unfolding ms_keeps_def lookup_tx_def by auto

lemma find_appended:
  "List.find p (xs @ ys) = (case List.find p xs of None \<Rightarrow> List.find p ys | Some x \<Rightarrow> Some x)"
  by (induction xs) auto

lemma keeps_propose: "propose_tx cr p to v d e w = Inr (i, w') \<Longrightarrow> ms_keeps w w'"
  by (auto simp: propose_tx_def Let_def ms_keeps_def lookup_tx_def find_appended split: if_splits)

lemma keeps_update:
  assumes "\<And>tx. tx_id (f tx) = tx_id tx" "\<And>tx. tx_approvals (f tx) = tx_approvals tx"
    and "\<And>tx. lookup_tx w i = Some tx \<Longrightarrow> tx_status tx = MsExecuted \<Longrightarrow> tx_status (f tx) = MsExecuted"
  shows "ms_keeps w (update_tx i f w)"
  unfolding ms_keeps_def
proof (intro conjI ballI)
  fix tx assume "tx \<in> set (wa_pending_txs (update_tx i f w))"
  then consider "tx \<in> set (wa_pending_txs w)" | tx' where "lookup_tx w i = Some tx'" "tx = f tx'"
    using set_update_tx by blast
  then show "tx_approvals tx = [] \<or>
      (\<exists>ty \<in> set (wa_pending_txs w). tx_id ty = tx_id tx \<and> tx_approvals ty = tx_approvals tx)"
    by cases (use assms(1,2) lookup_tx_in in \<open>fastforce+\<close>)
qed (use assms in \<open>auto simp: lookup_update_tx\<close>)

lemma find_map_keep: "(\<And>x. p (f x) = p x) \<Longrightarrow> List.find p (map f xs) = map_option f (List.find p xs)"
  by (induction xs) auto

lemma keeps_expire: "ms_keeps w (snd (cancel_expired now w))"
proof -
  let ?f = "\<lambda>tx. if expires_now now tx then tx\<lparr>tx_status := MsExpired\<rparr> else tx"
  have pend: "wa_pending_txs (snd (cancel_expired now w)) = map ?f (wa_pending_txs w)"
    by (simp add: cancel_expired_def)
  have look: "lookup_tx (snd (cancel_expired now w)) i = map_option ?f (lookup_tx w i)" for i
    unfolding lookup_tx_def pend by (rule find_map_keep) simp
  show ?thesis unfolding ms_keeps_def look pend by (auto simp: expires_now_def)
qed

definition tx_backed :: "ms_event list \<Rightarrow> pending_tx \<Rightarrow> bool" where
  "tx_backed evs tx \<longleftrightarrow> distinct (map ap_signer (tx_approvals tx)) \<and>
     (\<forall>a \<in> set (tx_approvals tx). EvApproved (tx_id tx) (ap_signer a) (ap_weight a) \<in> set evs)"

lemma tx_backed_mono: "tx_backed evs tx \<Longrightarrow> tx_backed (evs @ evs') tx"
  by (auto simp: tx_backed_def)

lemma tx_backed_cong:
  "tx_id tx = tx_id ty \<Longrightarrow> tx_approvals tx = tx_approvals ty \<Longrightarrow> tx_backed evs tx = tx_backed evs ty"
  by (simp add: tx_backed_def)

definition executed_in :: "wallet \<Rightarrow> hash256 \<Rightarrow> bool" where
  "executed_in w i \<longleftrightarrow> (\<exists>tx. lookup_tx w i = Some tx \<and> tx_status tx = MsExecuted)"

definition ms_inv :: "ms_event list \<times> wallet \<Rightarrow> bool" where
  "ms_inv s \<longleftrightarrow> (\<forall>tx \<in> set (wa_pending_txs (snd s)). tx_backed (fst s) tx) \<and>
     (\<forall>i. EvExecuted i \<in> set (fst s) \<longrightarrow> executed_in (snd s) i)"

lemma inv_keeps:
  assumes inv: "ms_inv (evs, w)" and k: "ms_keeps w w'"
  shows "ms_inv (evs @ [EvNone], w')"
  unfolding ms_inv_def fst_conv snd_conv
proof (intro conjI ballI allI impI)
  fix tx assume "tx \<in> set (wa_pending_txs w')"
  then consider "tx_approvals tx = []" | ty where "ty \<in> set (wa_pending_txs w)" "tx_id ty = tx_id tx"
      "tx_approvals ty = tx_approvals tx"
    using k unfolding ms_keeps_def by blast
  then show "tx_backed (evs @ [EvNone]) tx"
  proof cases
    case 1
    then show ?thesis by (simp add: tx_backed_def)
  next
    case 2
    then have "tx_backed evs tx" using inv tx_backed_cong [of ty tx evs] by (simp add: ms_inv_def)
    then show ?thesis by (rule tx_backed_mono)
  qed
next
  fix i assume "EvExecuted i \<in> set (evs @ [EvNone])"
  then have "executed_in w i" using inv by (simp add: ms_inv_def)
  then show "executed_in w' i" using k unfolding ms_keeps_def executed_in_def by blast
qed

lemma keeps_other_step:
  assumes "\<And>i s. op \<noteq> MApprove i s" "\<And>i. op \<noteq> MExecute i"
  shows "fst (ms_step cr w op) = EvNone \<and> ms_keeps w (snd (ms_step cr w op))"
proof (cases op)
  case (MReject i s)
  have "ms_keeps w w'" if "reject i s w = Inr w'" for w'
    using that by (rule reject_Inr) (auto intro: keeps_update)
  then show ?thesis using MReject by (auto intro: keeps_same split: sum.splits)
qed (use assms in \<open>auto intro: keeps_same keeps_propose keeps_expire
      simp: add_owner_def remove_owner_def change_threshold_def and_then_def
      split: sum.splits if_splits\<close>)

lemma inv_approve:
  assumes inv: "ms_inv (evs, w)" and "approve i s w = Inr (b, w')"
  shows "ms_inv (evs @ [EvApproved i s (owner_weight w s)], w')"
proof -
  let ?f = "add_approval s (owner_weight w s) (wa_threshold w)"
  obtain tx where tx: "lookup_tx w i = Some tx" "tx_status tx \<noteq> MsExecuted"
      "s \<notin> ap_signer ` set (tx_approvals tx)" and w': "w' = update_tx i ?f w"
    using assms(2) by (rule approve_Inr)
  have old: "tx \<in> set (wa_pending_txs w)" "tx_id tx = i" using lookup_tx_in [OF tx(1)] by simp_all
  have "tx_backed evs tx" using inv old(1) by (simp add: ms_inv_def)
  then have new: "tx_backed (evs @ [EvApproved i s (owner_weight w s)]) (?f tx)"
    using tx(3) old(2) by (auto simp: tx_backed_def)
  show ?thesis unfolding ms_inv_def fst_conv snd_conv
  proof (intro conjI ballI allI impI)
    fix ty assume "ty \<in> set (wa_pending_txs w')"
    then have "ty \<in> set (wa_pending_txs w) \<or> ty = ?f tx"
      using set_update_tx [of ty i ?f w] tx(1) w' by auto
    then show "tx_backed (evs @ [EvApproved i s (owner_weight w s)]) ty"
      using new inv tx_backed_mono by (auto simp: ms_inv_def)
  next
    fix j assume "EvExecuted j \<in> set (evs @ [EvApproved i s (owner_weight w s)])"
    then have "executed_in w j" using inv by (simp add: ms_inv_def)
    moreover from this have "i \<noteq> j" using tx by (auto simp: executed_in_def)
    ultimately show "executed_in w' j" using w' by (simp add: executed_in_def lookup_update_tx)
  qed
qed

lemma inv_execute:
  assumes inv: "ms_inv (evs, w)" and "ms_execute i w = Inr (r, w')"
  shows "ms_inv (evs @ [EvExecuted i], w')"
proof -
  obtain tx where tx: "lookup_tx w i = Some tx" and w': "w' = update_tx i mark_executed w"
    using assms(2) by (rule ms_execute_Inr)
  have "ms_keeps w w'" unfolding w' by (rule keeps_update) simp_all
  then have "ms_inv (evs @ [EvNone], w')" using inv by (rule inv_keeps [rotated])
  moreover have "executed_in w' i" using tx w' by (simp add: executed_in_def lookup_update_tx)
  ultimately show ?thesis by (auto simp: ms_inv_def tx_backed_def)
qed

lemma ms_log_inv: "ms_inv s \<Longrightarrow> ms_inv (ms_log cr s op)"
proof (cases "(\<exists>i s. op = MApprove i s) \<or> (\<exists>i. op = MExecute i)")
  case True
  assume "ms_inv s"
  moreover have "ms_inv (fst s @ [EvNone], snd s)"
    using \<open>ms_inv s\<close> inv_keeps [of "fst s" "snd s" "snd s"] keeps_same by simp
  ultimately show ?thesis
    using True inv_approve [of "fst s" "snd s"] inv_execute [of "fst s" "snd s"]
    by (auto simp: ms_log_def split: sum.splits)
next
  case False
  assume "ms_inv s"
  then show ?thesis
    using False keeps_other_step [of op cr "snd s"] inv_keeps [of "fst s" "snd s"]
    by (simp add: ms_log_def split_beta)
qed

interpretation ms: machine "ms_log cr" ms_inv for cr
  by unfold_locales (rule ms_log_inv)

lemma ms_log_snoc:
  "fst (foldl (ms_log cr) ([], w) (ops @ [op])) =
     fst (foldl (ms_log cr) ([], w) ops) @ [fst (ms_step cr (snd (foldl (ms_log cr) ([], w) ops)) op)]"
  by (simp add: ms_log_def split_beta)

text \<open>The event at a position is the one the wallet of that moment produced.\<close>

lemma ms_events:
  "length (fst (foldl (ms_log cr) ([], w) ops)) = length ops \<and>
   (\<forall>k < length ops. fst (foldl (ms_log cr) ([], w) ops) ! k =
      fst (ms_step cr (snd (foldl (ms_log cr) ([], w) (take k ops))) (ops ! k)))"
  by (induction ops rule: rev_induct) (simp_all del: foldl_append add: ms_log_snoc nth_append less_Suc_eq)

lemma ms_step_approved:
  assumes "fst (ms_step cr w op) = EvApproved i s x"
  shows "op = MApprove i s \<and> is_owner w s \<and> x = owner_weight w s"
  using assms by (cases op) (auto simp: approve_def split: sum.splits prod.splits if_splits)

text \<open>The wallet after the first \<open>k\<close> operations.\<close>

definition wallet_at :: "'z crypto_scheme \<Rightarrow> wallet \<Rightarrow> ms_op list \<Rightarrow> nat \<Rightarrow> wallet" where
  "wallet_at cr w ops k = snd (foldl (ms_log cr) ([], w) (take k ops))"

lemma approved_event_origin:
  assumes "EvApproved i s x \<in> set (fst (foldl (ms_log cr) ([], w) ops))"
  shows "\<exists>k < length ops. ops ! k = MApprove i s \<and> is_owner (wallet_at cr w ops k) s
    \<and> x = owner_weight (wallet_at cr w ops k) s"
proof -
  obtain k where k: "k < length ops" "fst (foldl (ms_log cr) ([], w) ops) ! k = EvApproved i s x"
    using assms ms_events [of cr w ops] by (auto simp: in_set_conv_nth)
  then have "fst (ms_step cr (wallet_at cr w ops k) (ops ! k)) = EvApproved i s x"
    using ms_events [of cr w ops] by (simp add: wallet_at_def)
  then show ?thesis using ms_step_approved k(1) by blast
qed

section \<open>Executions are authorised\<close>

text \<open>C37: Whatever calls a new wallet has received, a successful \<open>execute\<close> finds a transaction that was
  not executed before, whose recorded approvals come from distinct signers and weigh at least the
  threshold, each of them recorded by an earlier \<open>approve\<close> call for this transaction whose signer was an
  owner at that moment and had that weight; it marks this transaction executed and changes no other.\<close>

theorem multisig_execution_authorised:
  assumes "wallet_new cr owners t = Inr w0"
    and "foldl (ms_log cr) ([], w0) ops = (evs, w)"
    and "ms_execute i w = Inr (r, w')"
  shows "\<exists>tx. find_tx w i = Inr tx \<and> wa_threshold w \<le> approval_weight tx
    \<and> distinct (map ap_signer (tx_approvals tx))
    \<and> list_all (\<lambda>a. \<exists>k < length ops. ops ! k = MApprove i (ap_signer a)
         \<and> is_owner (wallet_at cr w0 ops k) (ap_signer a)
         \<and> ap_weight a = owner_weight (wallet_at cr w0 ops k) (ap_signer a)) (tx_approvals tx)
    \<and> EvExecuted i \<notin> set evs
    \<and> find_tx w' i = Inr (mark_executed tx) \<and> (\<forall>j. j \<noteq> i \<longrightarrow> find_tx w' j = find_tx w j)"
proof -
  have "ms_inv ([], w0)"
    using assms(1) by (auto simp: wallet_new_def ms_inv_def split: if_splits)
  then have inv: "ms_inv (evs, w)" using ms.run_inv [of "([], w0)" cr ops] assms(2) by simp
  obtain tx where tx: "lookup_tx w i = Some tx" "tx_status tx \<noteq> MsExecuted" "wa_threshold w \<le> approval_weight tx"
    and w': "w' = update_tx i mark_executed w"
    using assms(3) by (rule ms_execute_Inr)
  have "tx_backed evs tx" "tx_id tx = i"
    using inv lookup_tx_in [OF tx(1)] by (simp_all add: ms_inv_def)
  then have "distinct (map ap_signer (tx_approvals tx))"
    and "\<forall>a \<in> set (tx_approvals tx). EvApproved i (ap_signer a) (ap_weight a) \<in> set evs"
    by (simp_all add: tx_backed_def)
  moreover have "EvExecuted i \<notin> set evs" using inv tx by (auto simp: ms_inv_def executed_in_def)
  moreover have "find_tx w' j = find_tx w j" if "j \<noteq> i" for j
    using that lookup_update_tx [of mark_executed i w j] w'
    by (simp add: find_tx_def lookup_tx_def)
  ultimately show ?thesis
    using tx w' approved_event_origin [of i _ _ cr w0 ops] assms(2)
    by (intro exI [of _ tx]) (auto simp: list_all_iff lookup_update_tx)
qed

definition demo_owners :: "owner list" where
  "demo_owners = map (\<lambda>a. \<lparr>ow_address = a, ow_weight = 1, ow_added_at = 0, ow_label = ''owner''\<rparr>) [1, 2, 3]"

definition demo_wallet :: wallet where
  "demo_wallet = \<lparr>wa_address = 118, wa_owners = demo_owners, wa_threshold = 2, wa_nonce = 0, wa_pending_txs = []\<rparr>"

definition demo_ops :: "ms_op list" where
  "demo_ops = [MPropose 1 9 5 [] 100, MApprove 48 1, MApprove 48 1, MApprove 48 2]"

lemmas demo_simps = demo_owners_def demo_wallet_def demo_ops_def wallet_new_def owners_weight_def derive_address_def
  toy_crypto_def ms_log_def propose_tx_def approve_def is_owner_def owner_weight_def total_weight_def find_tx_def
  ok_or_def and_then_def Let_def derive_tx_id_def update_tx_def add_approval_def approval_weight_def
  ms_execute_def mark_executed_def remove_owner_def remove_nth_def cancel_expired_def expires_now_def

lemma demo_new: "wallet_new toy_crypto demo_owners 2 = Inr demo_wallet"
  by (simp add: demo_simps)

lemma demo_run:
  "\<exists>evs w r w'. foldl (ms_log toy_crypto) ([], demo_wallet) demo_ops = (evs, w) \<and> ms_execute 48 w = Inr (r, w')"
  by (simp add: demo_simps)

theorem multisig_execution_authorised_witness:
  "\<exists>evs w r w' tx. foldl (ms_log toy_crypto) ([], demo_wallet) demo_ops = (evs, w) \<and> ms_execute 48 w = Inr (r, w')
    \<and> find_tx w 48 = Inr tx \<and> wa_threshold w \<le> approval_weight tx \<and> distinct (map ap_signer (tx_approvals tx))"
  using demo_run multisig_execution_authorised [OF demo_new, of demo_ops _ _ 48] by blast

section \<open>What an execution does not check\<close>

text \<open>An approved transaction that \<open>cancel_expired\<close> has expired still executes.\<close>

lemma expired_transaction_executes:
  "case foldl (ms_log toy_crypto) ([], demo_wallet) (demo_ops @ [MExpire 100]) of (evs, w) \<Rightarrow>
     map tx_status (wa_pending_txs w) = [MsExpired] \<and> (\<exists>w'. ms_execute 48 w = Inr (execution_ok, w'))"
  by (simp add: demo_simps)

text \<open>The approval of an owner who has since been removed keeps counting.\<close>

lemma removed_owner_still_counts:
  "case foldl (ms_log toy_crypto) ([], demo_wallet) (demo_ops @ [MRemoveOwner 2]) of (evs, w) \<Rightarrow>
     \<not> is_owner w 2 \<and> (\<exists>w'. ms_execute 48 w = Inr (execution_ok, w'))"
  by (simp add: demo_simps)

end
