(* ===== verification/Arc_Governance.thy ===== *)
theory Arc_Governance
  imports Arc_Prelude
begin

text \<open>
  On-chain governance, \<open>crates/arc-types/src/governance.rs\<close>: proposals, stake-weighted votes,
  finalisation against quorum and approval threshold, the execution time lock and cancellation. Heights
  are \<open>u64\<close> and tallies \<open>u128\<close>, both wrapping as in the code; basis points are \<open>u16\<close>. \<open>gov_step\<close> makes
  the state a machine over the calls it can receive.
\<close>

section \<open>Model\<close>

datatype governance_error =
    ProposalNotFound
  | VotingNotActive
  | AlreadyVoted
  | InsufficientStake
  | NotProposer
  | ProposalNotPassed
  | ExecutionWindowExpired
  | TooManyActiveProposals
  | CooldownNotExpired
  | VotingEnded

datatype vote_choice = VFor | VAgainst | VAbstain

record gov_vote =
  vo_voter :: hash256
  vo_stake_weight :: u128
  vo_choice :: vote_choice
  vo_cast_at :: u64
  vo_reason :: "string option"

datatype proposal_type =
    ProtocolUpgrade string "string list"
  | ParameterChange string string string
  | TreasurySpend hash256 u64 string
  | EmergencyAction string
  | AddValidator hash256 u64
  | RemoveValidator hash256 string
  | FeatureFlagToggle string bool
  | CustomProposal "u8 list"

datatype proposal_status = PDraft | PActive | PPassed | PFailed | PExecuted | PCancelled | PExpired | PVetoed

record proposal =
  pr_id :: u64
  pr_proposer :: hash256
  pr_title :: string
  pr_description :: string
  pr_type :: proposal_type
  pr_created_at :: u64
  pr_voting_starts :: u64
  pr_voting_ends :: u64
  pr_execution_delay :: u64
  pr_status :: proposal_status
  pr_votes_for :: u128
  pr_votes_against :: u128
  pr_votes_abstain :: u128
  pr_quorum_required :: u128
  pr_approval_threshold_bps :: "16 word"
  pr_voters :: "gov_vote list"

record governance_config =
  gc_min_proposal_stake :: u64
  gc_voting_period_blocks :: u64
  gc_execution_delay_blocks :: u64
  gc_quorum_percentage_bps :: "16 word"
  gc_approval_threshold_bps :: "16 word"
  gc_emergency_threshold_bps :: "16 word"
  gc_max_active_proposals :: u32
  gc_proposal_cooldown_blocks :: u64

definition default_config :: governance_config where
  "default_config = \<lparr>gc_min_proposal_stake = 50000000000000000, gc_voting_period_blocks = 1512000,
     gc_execution_delay_blocks = 432000, gc_quorum_percentage_bps = 4000, gc_approval_threshold_bps = 6000,
     gc_emergency_threshold_bps = 7500, gc_max_active_proposals = 10, gc_proposal_cooldown_blocks = 216000\<rparr>"

definition quorum_amount :: "governance_config \<Rightarrow> u128 \<Rightarrow> u128" where
  "quorum_amount cfg staked = (staked * ucast (gc_quorum_percentage_bps cfg)) div 10000"

record governance_state =
  gs_proposals :: "proposal list"
  gs_next_proposal_id :: u64
  gs_total_staked_supply :: u128
  gs_active_proposal_count :: u32
  gs_total_proposals_created :: u64
  gs_total_proposals_passed :: u64
  gs_total_proposals_failed :: u64

definition EXECUTION_WINDOW_BLOCKS :: u64 where "EXECUTION_WINDOW_BLOCKS = 648000"

definition governance_new :: governance_state where
  "governance_new = \<lparr>gs_proposals = [], gs_next_proposal_id = 0, gs_total_staked_supply = 0,
     gs_active_proposal_count = 0, gs_total_proposals_created = 0, gs_total_proposals_passed = 0,
     gs_total_proposals_failed = 0\<rparr>"

definition last_proposal_height :: "governance_state \<Rightarrow> hash256 \<Rightarrow> u64 option" where
  "last_proposal_height g a = map_option pr_created_at (List.find (\<lambda>p. pr_proposer p = a) (rev (gs_proposals g)))"

fun proposal_threshold :: "governance_config \<Rightarrow> proposal_type \<Rightarrow> 16 word" where
  "proposal_threshold cfg (EmergencyAction _) = gc_emergency_threshold_bps cfg"
| "proposal_threshold cfg _ = gc_approval_threshold_bps cfg"

definition create_proposal ::
  "hash256 \<Rightarrow> string \<Rightarrow> string \<Rightarrow> proposal_type \<Rightarrow> u64 \<Rightarrow> governance_config \<Rightarrow> governance_state
    \<Rightarrow> governance_error + u64 \<times> governance_state" where
  "create_proposal proposer title description ptype height cfg g =
     (if gs_active_proposal_count g \<ge> gc_max_active_proposals cfg then Inl TooManyActiveProposals
      else if (case last_proposal_height g proposer of None \<Rightarrow> False
               | Some last_height \<Rightarrow> height < last_height + gc_proposal_cooldown_blocks cfg)
      then Inl CooldownNotExpired
      else let i = gs_next_proposal_id g;
               p = \<lparr>pr_id = i, pr_proposer = proposer, pr_title = title, pr_description = description,
                    pr_type = ptype, pr_created_at = height, pr_voting_starts = height,
                    pr_voting_ends = height + gc_voting_period_blocks cfg,
                    pr_execution_delay = gc_execution_delay_blocks cfg, pr_status = PActive,
                    pr_votes_for = 0, pr_votes_against = 0, pr_votes_abstain = 0,
                    pr_quorum_required = quorum_amount cfg (gs_total_staked_supply g),
                    pr_approval_threshold_bps = proposal_threshold cfg ptype, pr_voters = []\<rparr>
           in Inr (i, g\<lparr>gs_proposals := gs_proposals g @ [p], gs_next_proposal_id := i + 1,
                       gs_active_proposal_count := gs_active_proposal_count g + 1,
                       gs_total_proposals_created := gs_total_proposals_created g + 1\<rparr>))"

definition get_proposal :: "governance_state \<Rightarrow> u64 \<Rightarrow> proposal option" where
  "get_proposal g i = List.find (\<lambda>p. pr_id p = i) (gs_proposals g)"

text \<open>A write to the first proposal with the given id.\<close>

definition update_proposal :: "u64 \<Rightarrow> (proposal \<Rightarrow> proposal) \<Rightarrow> governance_state \<Rightarrow> governance_state" where
  "update_proposal i f g = g\<lparr>gs_proposals := update_first (\<lambda>p. pr_id p = i) f (gs_proposals g)\<rparr>"

definition add_vote :: "gov_vote \<Rightarrow> proposal \<Rightarrow> proposal" where
  "add_vote v p =
     (let p' = (case vo_choice v of
                  VFor \<Rightarrow> p\<lparr>pr_votes_for := pr_votes_for p + vo_stake_weight v\<rparr>
                | VAgainst \<Rightarrow> p\<lparr>pr_votes_against := pr_votes_against p + vo_stake_weight v\<rparr>
                | VAbstain \<Rightarrow> p\<lparr>pr_votes_abstain := pr_votes_abstain p + vo_stake_weight v\<rparr>)
      in p'\<lparr>pr_voters := pr_voters p @ [v]\<rparr>)"

definition cast_vote :: "u64 \<Rightarrow> gov_vote \<Rightarrow> u64 \<Rightarrow> governance_state \<Rightarrow> governance_error + governance_state" where
  "cast_vote i v height g =
     and_then (ok_or ProposalNotFound (get_proposal g i)) (\<lambda>p.
       if pr_status p \<noteq> PActive then Inl VotingNotActive
       else if height > pr_voting_ends p then Inl VotingEnded
       else if height < pr_voting_starts p then Inl VotingNotActive
       else if list_ex (\<lambda>u. vo_voter u = vo_voter v) (pr_voters p) then Inl AlreadyVoted
       else Inr (update_proposal i (add_vote v) g))"

definition quorum_met :: "governance_config \<Rightarrow> u128 \<Rightarrow> proposal \<Rightarrow> bool" where
  "quorum_met cfg staked p \<longleftrightarrow> \<not> pr_votes_for p + pr_votes_against p + pr_votes_abstain p < quorum_amount cfg staked"

definition proposal_passes :: "proposal \<Rightarrow> bool" where
  "proposal_passes p = (let decisive = pr_votes_for p + pr_votes_against p in
     if decisive = 0 then False
     else pr_votes_for p * 10000 \<ge> ucast (pr_approval_threshold_bps p) * decisive)"

text \<open>The updates shared by the three outcomes of \<open>finalize_proposal\<close>.\<close>

definition settle :: "u64 \<Rightarrow> proposal_status \<Rightarrow> governance_state \<Rightarrow> governance_state" where
  "settle i st g = (update_proposal i (\<lambda>p. p\<lparr>pr_status := st\<rparr>) g)
     \<lparr>gs_active_proposal_count := saturating_sub (gs_active_proposal_count g) 1\<rparr>"

definition finalize_proposal ::
  "u64 \<Rightarrow> u64 \<Rightarrow> u128 \<Rightarrow> governance_config \<Rightarrow> governance_state
    \<Rightarrow> governance_error + proposal_status \<times> governance_state" where
  "finalize_proposal i height staked cfg g =
     and_then (ok_or ProposalNotFound (get_proposal g i)) (\<lambda>p.
       if pr_status p \<noteq> PActive then Inl VotingNotActive
       else if height < pr_voting_ends p then Inl VotingNotActive
       else if \<not> quorum_met cfg staked p then
         Inr (PFailed, (settle i PFailed g)\<lparr>gs_total_proposals_failed := gs_total_proposals_failed g + 1\<rparr>)
       else if proposal_passes p then
         Inr (PPassed, (settle i PPassed g)\<lparr>gs_total_proposals_passed := gs_total_proposals_passed g + 1\<rparr>)
       else
         Inr (PFailed, (settle i PFailed g)\<lparr>gs_total_proposals_failed := gs_total_proposals_failed g + 1\<rparr>))"

definition active_proposals :: "governance_state \<Rightarrow> proposal list" where
  "active_proposals g = filter (\<lambda>p. pr_status p = PActive) (gs_proposals g)"

definition can_execute :: "u64 \<Rightarrow> u64 \<Rightarrow> governance_state \<Rightarrow> bool" where
  "can_execute i height g = (case get_proposal g i of None \<Rightarrow> False
     | Some p \<Rightarrow> if pr_status p \<noteq> PPassed then False
         else let earliest = pr_voting_ends p + pr_execution_delay p;
                  latest = earliest + EXECUTION_WINDOW_BLOCKS
              in height \<ge> earliest \<and> height \<le> latest)"

text \<open>\<open>execute_proposal\<close>; the outer option is the \<open>expect\<close> on the final lookup.\<close>

definition execute_proposal ::
  "u64 \<Rightarrow> u64 \<Rightarrow> governance_state \<Rightarrow> (governance_error + proposal \<times> governance_state) option" where
  "execute_proposal i height g = (case get_proposal g i of None \<Rightarrow> Some (Inl ProposalNotFound)
     | Some p \<Rightarrow>
         if pr_status p \<noteq> PPassed then Some (Inl ProposalNotPassed)
         else let earliest = pr_voting_ends p + pr_execution_delay p;
                  latest = earliest + EXECUTION_WINDOW_BLOCKS
              in if height < earliest then Some (Inl ProposalNotPassed)
                 else if height > latest then Some (Inl ExecutionWindowExpired)
                 else let g' = update_proposal i (\<lambda>p. p\<lparr>pr_status := PExecuted\<rparr>) g
                      in map_option (\<lambda>p'. Inr (p', g')) (get_proposal g' i))"

definition cancel_proposal :: "u64 \<Rightarrow> hash256 \<Rightarrow> governance_state \<Rightarrow> governance_error + governance_state" where
  "cancel_proposal i caller g =
     and_then (ok_or ProposalNotFound (get_proposal g i)) (\<lambda>p.
       if pr_proposer p \<noteq> caller then Inl NotProposer
       else if pr_status p = PActive \<or> pr_status p = PDraft then
         Inr (update_proposal i (\<lambda>p. p\<lparr>pr_status := PCancelled\<rparr>)
           (if pr_status p = PActive
            then g\<lparr>gs_active_proposal_count := saturating_sub (gs_active_proposal_count g) 1\<rparr> else g))
       else Inl VotingNotActive)"

definition has_voted :: "governance_state \<Rightarrow> u64 \<Rightarrow> hash256 \<Rightarrow> bool" where
  "has_voted g i a = (case get_proposal g i of None \<Rightarrow> False
     | Some p \<Rightarrow> list_ex (\<lambda>v. vo_voter v = a) (pr_voters p))"

section \<open>The state as a machine\<close>

datatype gov_op =
    GCreate hash256 string string proposal_type u64 governance_config
  | GVote u64 gov_vote u64
  | GFinalize u64 u64 u128 governance_config
  | GExecute u64 u64
  | GCancel u64 hash256
  | GStaked u128

text \<open>\<open>GStaked\<close> is the caller's write to the public field \<open>total_staked_supply\<close>.\<close>

fun gov_step :: "governance_state \<Rightarrow> gov_op \<Rightarrow> governance_state" where
  "gov_step g (GCreate a t d ty h cfg) = (case create_proposal a t d ty h cfg g of Inl _ \<Rightarrow> g | Inr (_, g') \<Rightarrow> g')"
| "gov_step g (GVote i v h) = (case cast_vote i v h g of Inl _ \<Rightarrow> g | Inr g' \<Rightarrow> g')"
| "gov_step g (GFinalize i h s cfg) = (case finalize_proposal i h s cfg g of Inl _ \<Rightarrow> g | Inr (_, g') \<Rightarrow> g')"
| "gov_step g (GExecute i h) = (case execute_proposal i h g of Some (Inr (_, g')) \<Rightarrow> g' | _ \<Rightarrow> g)"
| "gov_step g (GCancel i a) = (case cancel_proposal i a g of Inl _ \<Rightarrow> g | Inr g' \<Rightarrow> g')"
| "gov_step g (GStaked s) = g\<lparr>gs_total_staked_supply := s\<rparr>"

definition gov_log :: "gov_op list \<times> governance_state \<Rightarrow> gov_op \<Rightarrow> gov_op list \<times> governance_state" where
  "gov_log s op = (fst s @ [op], gov_step (snd s) op)"

section \<open>Lemmas\<close>

lemma gov_log_run: "foldl gov_log (ops, g) ops' = (ops @ ops', foldl gov_step g ops')"
  by (induction ops' arbitrary: ops g) (simp_all add: gov_log_def)

lemma length_filter_update_first:
  assumes "List.find p xs = Some x"
  shows "length (filter q (update_first p f xs)) + of_bool (q x) = length (filter q xs) + of_bool (q (f x))"
  using assms by (induction xs) (auto split: if_splits)

lemma get_proposal_in: "get_proposal g i = Some p \<Longrightarrow> p \<in> set (gs_proposals g) \<and> pr_id p = i"
  unfolding get_proposal_def by (rule find_Some_in)

lemma get_update_proposal:
  "(\<And>p. pr_id (f p) = pr_id p) \<Longrightarrow> get_proposal (update_proposal i f g) i = map_option f (get_proposal g i)"
  by (simp add: get_proposal_def update_proposal_def find_update_first)

lemma set_update_proposal:
  "p \<in> set (gs_proposals (update_proposal i f g)) \<Longrightarrow>
    p \<in> set (gs_proposals g) \<or> (\<exists>q. get_proposal g i = Some q \<and> p = f q)"
  unfolding update_proposal_def get_proposal_def by (auto dest: set_update_first)

definition vote_sum :: "vote_choice \<Rightarrow> gov_vote list \<Rightarrow> u128" where
  "vote_sum c vs = sum_list (map vo_stake_weight (filter (\<lambda>v. vo_choice v = c) vs))"

lemma vote_sum_snoc [simp]:
  "vote_sum c (vs @ [v]) = vote_sum c vs + (if vo_choice v = c then vo_stake_weight v else 0)"
  by (simp add: vote_sum_def)

text \<open>What the calls so far must contain for a proposal to be in its present condition.\<close>

definition vote_cast :: "gov_op list \<Rightarrow> proposal \<Rightarrow> gov_vote \<Rightarrow> bool" where
  "vote_cast ops p v \<longleftrightarrow> (\<exists>h. GVote (pr_id p) v h \<in> set ops \<and> pr_voting_starts p \<le> h \<and> h \<le> pr_voting_ends p)"

definition tallied :: "gov_op list \<Rightarrow> proposal \<Rightarrow> bool" where
  "tallied ops p \<longleftrightarrow> distinct (map vo_voter (pr_voters p)) \<and> list_all (vote_cast ops p) (pr_voters p)
     \<and> pr_votes_for p = vote_sum VFor (pr_voters p) \<and> pr_votes_against p = vote_sum VAgainst (pr_voters p)
     \<and> pr_votes_abstain p = vote_sum VAbstain (pr_voters p)"

definition passed_in :: "gov_op list \<Rightarrow> proposal \<Rightarrow> bool" where
  "passed_in ops p \<longleftrightarrow> (\<exists>h s cfg. GFinalize (pr_id p) h s cfg \<in> set ops \<and> pr_voting_ends p \<le> h
     \<and> quorum_met cfg s p \<and> proposal_passes p)"

definition proposal_ok :: "gov_op list \<Rightarrow> proposal \<Rightarrow> bool" where
  "proposal_ok ops p \<longleftrightarrow> tallied ops p \<and> (pr_status p = PPassed \<or> pr_status p = PExecuted \<longrightarrow> passed_in ops p)"

definition gov_inv :: "gov_op list \<times> governance_state \<Rightarrow> bool" where
  "gov_inv s \<longleftrightarrow> (\<forall>p \<in> set (gs_proposals (snd s)). proposal_ok (fst s) p)
     \<and> unat (gs_active_proposal_count (snd s)) = length (active_proposals (snd s))"

lemma proposal_ok_mono: "proposal_ok ops p \<Longrightarrow> proposal_ok (ops @ ops') p"
  by (fastforce simp: proposal_ok_def tallied_def passed_in_def vote_cast_def list_all_iff)

lemma outcome_status [simp]:
  "quorum_met cfg s (p\<lparr>pr_status := st\<rparr>) = quorum_met cfg s p"
  "proposal_passes (p\<lparr>pr_status := st\<rparr>) = proposal_passes p"
  by (simp_all add: quorum_met_def proposal_passes_def)

lemma tallied_status [simp]: "tallied ops (p\<lparr>pr_status := st\<rparr>) = tallied ops p"
  by (simp add: tallied_def vote_cast_def list_all_iff)

lemma passed_status [simp]: "passed_in ops (p\<lparr>pr_status := st\<rparr>) = passed_in ops p"
  by (simp add: passed_in_def)

lemma add_vote_fields [simp]:
  "pr_id (add_vote v p) = pr_id p" "pr_status (add_vote v p) = pr_status p"
  "pr_voting_starts (add_vote v p) = pr_voting_starts p" "pr_voting_ends (add_vote v p) = pr_voting_ends p"
  "pr_voters (add_vote v p) = pr_voters p @ [v]"
  by (simp_all add: add_vote_def Let_def split: vote_choice.splits)

lemma add_vote_tallied:
  assumes "tallied ops p" "vo_voter v \<notin> vo_voter ` set (pr_voters p)"
    and "pr_voting_starts p \<le> h" "h \<le> pr_voting_ends p"
  shows "tallied (ops @ [GVote (pr_id p) v h]) (add_vote v p)"
proof -
  have "pr_votes_for (add_vote v p) = pr_votes_for p + (if vo_choice v = VFor then vo_stake_weight v else 0)"
    "pr_votes_against (add_vote v p) = pr_votes_against p + (if vo_choice v = VAgainst then vo_stake_weight v else 0)"
    "pr_votes_abstain (add_vote v p) = pr_votes_abstain p + (if vo_choice v = VAbstain then vo_stake_weight v else 0)"
    by (simp_all add: add_vote_def Let_def split: vote_choice.splits)
  then show ?thesis using assms by (auto simp: tallied_def vote_cast_def list_all_iff)
qed

text \<open>One lemma carries every operation that writes to one proposal: the new value must be in order,
  and the counter must follow the change of its status.\<close>

lemma inv_update:
  assumes inv: "gov_inv (ops, g)" and p: "get_proposal g i = Some p" and ok: "proposal_ok (ops @ [op]) (f p)"
    and g': "gs_proposals g' = gs_proposals (update_proposal i f g)"
    and n: "unat (gs_active_proposal_count g') + of_bool (pr_status p = PActive) =
      unat (gs_active_proposal_count g) + of_bool (pr_status (f p) = PActive)"
  shows "gov_inv (ops @ [op], g')"
proof -
  have "proposal_ok (ops @ [op]) q" if "q \<in> set (gs_proposals g')" for q
    using set_update_proposal [of q i f g] that p ok inv g' proposal_ok_mono by (auto simp: gov_inv_def)
  moreover have "length (active_proposals g') + of_bool (pr_status p = PActive) =
      length (active_proposals g) + of_bool (pr_status (f p) = PActive)"
    using length_filter_update_first [OF p [unfolded get_proposal_def], of "\<lambda>p. pr_status p = PActive" f]
    unfolding active_proposals_def g' update_proposal_def by simp
  ultimately show ?thesis using n inv by (simp add: gov_inv_def)
qed

lemma inv_same: "gov_inv (ops, g) \<Longrightarrow> gov_inv (ops @ [op], g)"
  by (auto simp: gov_inv_def intro: proposal_ok_mono)

lemma active_pos: "gov_inv (ops, g) \<Longrightarrow> get_proposal g i = Some p \<Longrightarrow> pr_status p = PActive
    \<Longrightarrow> 0 < unat (gs_active_proposal_count g)"
  using get_proposal_in [of g i p] by (auto simp: gov_inv_def active_proposals_def filter_empty_conv)

lemma unat_add_one_below:
  fixes a b :: "'a::len word"
  assumes "a < b"
  shows "unat (a + 1) = Suc (unat a)"
proof -
  have "Suc (unat a) < 2 ^ LENGTH('a)"
    using assms unsigned_less [of b, where ?'a = nat] unfolding word_less_nat_alt by linarith
  then show ?thesis by (simp add: unat_word_ariths)
qed

lemma inv_create:
  assumes inv: "gov_inv (ops, g)" and "create_proposal a t d ty h cfg g = Inr (i, g')"
  shows "gov_inv (ops @ [op], g')"
proof -
  obtain p where p: "gs_proposals g' = gs_proposals g @ [p]" "pr_status p = PActive" "proposal_ok ops p"
    and n: "gs_active_proposal_count g' = gs_active_proposal_count g + 1"
      "gs_active_proposal_count g < gc_max_active_proposals cfg"
    using assms(2)
    by (auto simp: create_proposal_def Let_def not_le proposal_ok_def tallied_def vote_sum_def split: if_splits)
  have "unat (gs_active_proposal_count g + 1) = Suc (unat (gs_active_proposal_count g))"
    using n(2) by (rule unat_add_one_below)
  then show ?thesis
    using inv p n(1) by (auto simp: gov_inv_def active_proposals_def intro: proposal_ok_mono)
qed

lemma inv_vote:
  assumes inv: "gov_inv (ops, g)" and "cast_vote i v h g = Inr g'"
  shows "gov_inv (ops @ [GVote i v h], g')"
proof -
  obtain p where p: "get_proposal g i = Some p" "pr_status p = PActive" "pr_voting_starts p \<le> h"
      "h \<le> pr_voting_ends p" "vo_voter v \<notin> vo_voter ` set (pr_voters p)"
    and g': "g' = update_proposal i (add_vote v) g"
    using assms(2) by (fastforce simp: cast_vote_def and_then_def ok_or_def list_ex_iff not_less
        split: option.splits if_splits)
  have "tallied ops p" "pr_id p = i"
    using inv get_proposal_in [OF p(1)] by (simp_all add: gov_inv_def proposal_ok_def)
  then have "proposal_ok (ops @ [GVote i v h]) (add_vote v p)"
    using add_vote_tallied [of ops p v h] p by (simp add: proposal_ok_def)
  then show ?thesis
    using inv_update [OF inv p(1), of "GVote i v h" "add_vote v" g'] g' p(2) by (simp add: update_proposal_def)
qed

lemma inv_finalize:
  assumes inv: "gov_inv (ops, g)" and "finalize_proposal i h s cfg g = Inr (st, g')"
  shows "gov_inv (ops @ [GFinalize i h s cfg], g')"
proof -
  let ?f = "\<lambda>p. p\<lparr>pr_status := st\<rparr>"
  obtain p where p: "get_proposal g i = Some p" "pr_status p = PActive" "pr_voting_ends p \<le> h"
    and st: "st = PFailed \<or> st = PPassed \<and> quorum_met cfg s p \<and> proposal_passes p"
    and g': "gs_proposals g' = gs_proposals (update_proposal i ?f g)"
      "gs_active_proposal_count g' = saturating_sub (gs_active_proposal_count g) 1"
    using assms(2) by (auto simp: finalize_proposal_def and_then_def ok_or_def not_less settle_def update_proposal_def
        split: option.splits if_splits)
  have "proposal_ok ops p" "pr_id p = i"
    using inv get_proposal_in [OF p(1)] by (simp_all add: gov_inv_def)
  then have "tallied (ops @ [GFinalize i h s cfg]) p"
    using proposal_ok_mono by (auto simp: proposal_ok_def)
  then have "proposal_ok (ops @ [GFinalize i h s cfg]) (?f p)"
    using st p(3) \<open>pr_id p = i\<close> by (auto simp: proposal_ok_def passed_in_def)
  then show ?thesis
    using inv_update [OF inv p(1), of "GFinalize i h s cfg" ?f g'] g' st p(2) active_pos [OF inv p(1,2)]
    by (auto simp: unat_saturating_sub)
qed

text \<open>The \<open>expect\<close> of \<open>execute_proposal\<close> never fires.\<close>

lemma execute_never_panics: "execute_proposal i h g \<noteq> None"
  by (simp add: execute_proposal_def Let_def get_update_proposal split: option.splits)

lemma execute_proposal_Inr:
  assumes "execute_proposal i h g = Some (Inr (p, g'))"
  obtains q where "get_proposal g i = Some q" "pr_status q = PPassed" "p = q\<lparr>pr_status := PExecuted\<rparr>"
    "pr_voting_ends q + pr_execution_delay q \<le> h"
    "h \<le> pr_voting_ends q + pr_execution_delay q + EXECUTION_WINDOW_BLOCKS"
    "g' = update_proposal i (\<lambda>p. p\<lparr>pr_status := PExecuted\<rparr>) g"
  using assms by (auto simp: execute_proposal_def Let_def get_update_proposal not_less split: option.splits if_splits)

lemma inv_execute_proposal:
  assumes inv: "gov_inv (ops, g)" and "execute_proposal i h g = Some (Inr (p, g'))"
  shows "gov_inv (ops @ [op], g')"
proof -
  let ?f = "\<lambda>p. p\<lparr>pr_status := PExecuted\<rparr>"
  obtain q where q: "get_proposal g i = Some q" "pr_status q = PPassed" and g': "g' = update_proposal i ?f g"
    using assms(2) by (rule execute_proposal_Inr)
  have "proposal_ok (ops @ [op]) q"
    using inv get_proposal_in [OF q(1)] proposal_ok_mono by (auto simp: gov_inv_def)
  then have "proposal_ok (ops @ [op]) (?f q)" using q(2) by (simp add: proposal_ok_def)
  then show ?thesis
    using inv_update [OF inv q(1), of op ?f g'] g' q(2) by (simp add: update_proposal_def)
qed

lemma inv_cancel:
  assumes inv: "gov_inv (ops, g)" and "cancel_proposal i a g = Inr g'"
  shows "gov_inv (ops @ [op], g')"
proof -
  let ?f = "\<lambda>p. p\<lparr>pr_status := PCancelled\<rparr>"
  obtain p where p: "get_proposal g i = Some p"
    and g': "gs_proposals g' = gs_proposals (update_proposal i ?f g)"
      "gs_active_proposal_count g' = (if pr_status p = PActive then saturating_sub (gs_active_proposal_count g) 1
         else gs_active_proposal_count g)"
    using assms(2) by (auto simp: cancel_proposal_def and_then_def ok_or_def update_proposal_def
        split: option.splits if_splits)
  have "proposal_ok (ops @ [op]) p"
    using inv get_proposal_in [OF p] proposal_ok_mono by (auto simp: gov_inv_def)
  then have "proposal_ok (ops @ [op]) (?f p)" by (simp add: proposal_ok_def)
  then show ?thesis
    using inv_update [OF inv p, of op ?f g'] g' active_pos [OF inv p] by (auto simp: unat_saturating_sub)
qed

lemma inv_staked: "gov_inv (ops, g) \<Longrightarrow> gov_inv (ops @ [op], g\<lparr>gs_total_staked_supply := s\<rparr>)"
  by (auto simp: gov_inv_def active_proposals_def intro: proposal_ok_mono)

lemma gov_log_inv: "gov_inv s \<Longrightarrow> gov_inv (gov_log s op)"
  by (cases s; cases op)
    (auto simp: gov_log_def split: sum.splits option.splits
      intro: inv_same inv_create inv_vote inv_finalize inv_execute_proposal inv_cancel inv_staked)

interpretation gov: machine gov_log gov_inv
  by unfold_locales (rule gov_log_inv)

lemma gov_run_inv: "gov_inv (ops, foldl gov_step governance_new ops)"
  using gov.run_inv [of "([], governance_new)" ops]
  by (simp add: gov_log_run gov_inv_def governance_new_def active_proposals_def)

section \<open>Properties\<close>

text \<open>C38: Whatever calls the governance state has received, \<open>execute_proposal\<close> succeeds only on a
  proposal that some earlier \<open>finalize_proposal\<close> call found to have met quorum and approval threshold once
  voting was over, with exactly the tallies it has now; those tallies are the stake-weighted sums of votes
  by distinct voters, each cast inside the voting window; and the height lies in the window between the
  time lock and its expiry. The call changes the status to executed and nothing else of the proposal.\<close>

theorem governance_execution_authorised:
  assumes "execute_proposal i height (foldl gov_step governance_new ops) = Some (Inr (p, g'))"
  shows "\<exists>q h s cfg. get_proposal (foldl gov_step governance_new ops) i = Some q \<and> p = q\<lparr>pr_status := PExecuted\<rparr>
    \<and> GFinalize i h s cfg \<in> set ops \<and> pr_voting_ends q \<le> h \<and> quorum_met cfg s q \<and> proposal_passes q
    \<and> distinct (map vo_voter (pr_voters q)) \<and> list_all (vote_cast ops q) (pr_voters q)
    \<and> pr_votes_for q = vote_sum VFor (pr_voters q) \<and> pr_votes_against q = vote_sum VAgainst (pr_voters q)
    \<and> pr_votes_abstain q = vote_sum VAbstain (pr_voters q)
    \<and> pr_voting_ends q + pr_execution_delay q \<le> height
    \<and> height \<le> pr_voting_ends q + pr_execution_delay q + EXECUTION_WINDOW_BLOCKS"
proof -
  obtain q where q: "get_proposal (foldl gov_step governance_new ops) i = Some q" "pr_status q = PPassed"
    and rest: "p = q\<lparr>pr_status := PExecuted\<rparr>" "pr_voting_ends q + pr_execution_delay q \<le> height"
      "height \<le> pr_voting_ends q + pr_execution_delay q + EXECUTION_WINDOW_BLOCKS"
    using assms by (rule execute_proposal_Inr)
  have "proposal_ok ops q" "pr_id q = i"
    using gov_run_inv [of ops] get_proposal_in [OF q(1)] by (simp_all add: gov_inv_def)
  then have "tallied ops q" "passed_in ops q" using q(2) by (simp_all add: proposal_ok_def)
  then show ?thesis
    using q(1) rest \<open>pr_id q = i\<close> unfolding tallied_def passed_in_def by blast
qed

definition demo_votes :: "gov_vote list" where
  "demo_votes = [\<lparr>vo_voter = 1, vo_stake_weight = 50, vo_choice = VFor, vo_cast_at = 10, vo_reason = None\<rparr>,
     \<lparr>vo_voter = 2, vo_stake_weight = 10, vo_choice = VAgainst, vo_cast_at = 20, vo_reason = None\<rparr>]"

definition demo_calls :: "gov_op list" where
  "demo_calls = [GStaked 100, GCreate 1 ''t'' ''d'' (CustomProposal []) 0 default_config,
     GVote 0 (demo_votes ! 0) 10, GVote 0 (demo_votes ! 1) 20, GFinalize 0 1512000 100 default_config]"

lemmas gov_defs = demo_votes_def demo_calls_def governance_new_def default_config_def create_proposal_def
  last_proposal_height_def quorum_amount_def cast_vote_def get_proposal_def update_proposal_def add_vote_def
  finalize_proposal_def quorum_met_def proposal_passes_def settle_def execute_proposal_def
  EXECUTION_WINDOW_BLOCKS_def and_then_def ok_or_def Let_def

lemma demo_executes:
  "\<exists>p g'. execute_proposal 0 1944000 (foldl gov_step governance_new demo_calls) = Some (Inr (p, g'))"
  by (simp add: gov_defs)

theorem governance_execution_authorised_witness:
  "\<exists>q h s cfg. get_proposal (foldl gov_step governance_new demo_calls) 0 = Some q
    \<and> GFinalize 0 h s cfg \<in> set demo_calls \<and> quorum_met cfg s q \<and> proposal_passes q
    \<and> distinct (map vo_voter (pr_voters q)) \<and> pr_votes_for q = vote_sum VFor (pr_voters q)"
  using demo_executes governance_execution_authorised [of 0 1944000 demo_calls] by blast

text \<open>C39: The state stays well formed: after any sequence of calls the \<open>active_proposal_count\<close> that limits
  new proposals is exactly the number of proposals whose status is active, so it neither drifts nor wraps,
  and no call can make \<open>execute_proposal\<close> panic.\<close>

theorem governance_state_well_formed:
  "unat (gs_active_proposal_count (foldl gov_step governance_new ops)) =
     length (active_proposals (foldl gov_step governance_new ops))
   \<and> execute_proposal i h (foldl gov_step governance_new ops) \<noteq> None"
  using gov_run_inv [of ops] execute_never_panics by (simp add: gov_inv_def)

section \<open>What the documentation says and the code does not\<close>

text \<open>The minimum proposal stake of the configuration plays no part in creating a proposal.\<close>

lemma create_ignores_min_stake:
  "create_proposal a t d ty h (cfg\<lparr>gc_min_proposal_stake := x\<rparr>) g = create_proposal a t d ty h cfg g"
  by (cases ty) (simp_all add: create_proposal_def quorum_amount_def Let_def cong: option.case_cong if_cong)

text \<open>A proposal can be finalised in the last block of its voting period, after which the votes that
  block would still have admitted are refused.\<close>

lemma finalised_before_last_vote:
  "let g = foldl gov_step governance_new demo_calls in
     cast_vote 0 ((demo_votes ! 1)\<lparr>vo_voter := 3\<rparr>) 1512000 g = Inl VotingNotActive
     \<and> (\<exists>g'. cast_vote 0 ((demo_votes ! 1)\<lparr>vo_voter := 3\<rparr>) 1512000 (foldl gov_step governance_new (butlast demo_calls)) = Inr g')"
  by (simp add: gov_defs)

end
