(* ===== verification/Arc_Pending.thy ===== *)
theory Arc_Pending
  imports Arc_Dag
begin

text \<open>
  The bounded holding area for early blocks (\<open>crates/arc-consensus/src/pending.rs\<close>), with
  \<open>absent_parents\<close> of the engine. An \<open>Instant\<close> is a number of nanoseconds, and the type of transactions is
  a parameter. Hash maps and hash sets are iterated in key order here; the code iterates them in an
  unspecified order, which shows only in the order of released blocks of one round. The eviction loop
  of \<open>hold\<close> is a \<open>partial_function\<close> and \<open>None\<close> is divergence: a stale entry in the arrival order would
  make it run forever. The invariant \<open>pending_ok\<close> excludes this.
\<close>

section \<open>Model\<close>

definition MAX_PENDING_BLOCKS :: nat where "MAX_PENDING_BLOCKS = 2048"
definition MAX_PENDING_PER_AUTHOR :: nat where "MAX_PENDING_PER_AUTHOR = 256"
definition MAX_PENDING_AGE :: nat where "MAX_PENDING_AGE = 30 * 1000000000"

record 't held_block =
  hb_block :: dag_block
  hb_transactions :: "'t list"
  hb_missing :: "hash256 list"
  hb_since :: nat

datatype 't block_offer =
    OfferAccepted dag_block "'t list"
  | OfferHeld
  | OfferNotHeld consensus_error
  | OfferRejected consensus_error

record 't pending_blocks =
  pn_held :: "(hash256, 't held_block) store"
  pn_waiting_on :: "(hash256, hash256 list) store"
  pn_order :: "(nat \<times> hash256, unit) store"
  pn_per_author :: "(address, nat) store"
  pn_evicted_full :: u64
  pn_evicted_expired :: u64
  pn_refused_per_author :: u64

definition pending_new :: "'t pending_blocks" where
  "pending_new = \<lparr>pn_held = [], pn_waiting_on = [], pn_order = [], pn_per_author = [], pn_evicted_full = 0,
     pn_evicted_expired = 0, pn_refused_per_author = 0\<rparr>"

definition pending_len :: "'t pending_blocks \<Rightarrow> nat" where
  "pending_len p = length (pn_held p)"

definition pending_is_empty :: "'t pending_blocks \<Rightarrow> bool" where
  "pending_is_empty p \<longleftrightarrow> pn_held p = []"

definition pending_contains :: "'t pending_blocks \<Rightarrow> hash256 \<Rightarrow> bool" where
  "pending_contains p h = mhas (pn_held p) h"

definition author_minus_one :: "address \<Rightarrow> (address, nat) store \<Rightarrow> (address, nat) store" where
  "author_minus_one a m = (case map_of m a of
     None \<Rightarrow> m
   | Some n \<Rightarrow> if n - 1 = 0 then mdel a m else mput a (n - 1) m)"

definition stop_waiting :: "hash256 \<Rightarrow> (hash256, hash256 list) store \<Rightarrow> hash256 \<Rightarrow> (hash256, hash256 list) store" where
  "stop_waiting h m parent = (case map_of m parent of
     None \<Rightarrow> m
   | Some hs \<Rightarrow> let hs' = removeAll h hs in if hs' = [] then mdel parent m else mput parent hs' m)"

definition pending_remove :: "hash256 \<Rightarrow> 't pending_blocks \<Rightarrow> 't held_block option \<times> 't pending_blocks" where
  "pending_remove h p = (case map_of (pn_held p) h of
     None \<Rightarrow> (None, p)
   | Some d \<Rightarrow> (Some d, p\<lparr>pn_held := mdel h (pn_held p),
       pn_order := mdel (hb_since d, h) (pn_order p),
       pn_per_author := author_minus_one (b_author (hb_block d)) (pn_per_author p),
       pn_waiting_on := foldl (stop_waiting h) (pn_waiting_on p) (hb_missing d)\<rparr>))"

partial_function (option) evict_full :: "'t pending_blocks \<Rightarrow> 't pending_blocks option" where
  "evict_full p =
     (if length (pn_held p) < MAX_PENDING_BLOCKS then Some p
      else case pn_order p of
        [] \<Rightarrow> Some p
      | (k, _) # _ \<Rightarrow>
          evict_full ((snd (pending_remove (snd k) p))\<lparr>pn_evicted_full := pn_evicted_full p + 1\<rparr>))"

definition insert_held :: "dag_block \<Rightarrow> 't list \<Rightarrow> hash256 list \<Rightarrow> nat \<Rightarrow> 't pending_blocks \<Rightarrow> 't pending_blocks" where
  "insert_held b txs missing now p =
     (let ms = remdups missing in
      p\<lparr>pn_waiting_on := foldl (\<lambda>m parent. mentry parent [] (List.insert (b_hash b)) m) (pn_waiting_on p) ms,
        pn_per_author := mentry (b_author b) 0 Suc (pn_per_author p),
        pn_order := mput (now, b_hash b) () (pn_order p),
        pn_held := mput (b_hash b) \<lparr>hb_block = b, hb_transactions = txs, hb_missing = ms, hb_since = now\<rparr> (pn_held p)\<rparr>)"

definition hold :: "dag_block \<Rightarrow> 't list \<Rightarrow> hash256 list \<Rightarrow> nat \<Rightarrow> 't pending_blocks \<Rightarrow> (bool \<times> 't pending_blocks) option" where
  "hold b txs missing now p =
     (if mhas (pn_held p) (b_hash b) then Some (False, p)
      else if (case map_of (pn_per_author p) (b_author b) of None \<Rightarrow> 0 | Some n \<Rightarrow> n) \<ge> MAX_PENDING_PER_AUTHOR
      then Some (False, p\<lparr>pn_refused_per_author := pn_refused_per_author p + 1\<rparr>)
      else map_option (\<lambda>p'. (True, insert_held b txs missing now p')) (evict_full p))"

text \<open>Removing a list of hashes and keeping what was held, as \<open>filter_map(|h| self.remove(&h))\<close>.\<close>

fun remove_each :: "hash256 list \<Rightarrow> 't pending_blocks \<Rightarrow> (dag_block \<times> 't list) list \<times> 't pending_blocks" where
  "remove_each [] p = ([], p)"
| "remove_each (h # hs) p =
     (case pending_remove h p of (r, p') \<Rightarrow>
        (case remove_each hs p' of (out, p'') \<Rightarrow>
           ((case r of None \<Rightarrow> out | Some d \<Rightarrow> (hb_block d, hb_transactions d) # out), p'')))"

fun release_children :: "hash256 \<Rightarrow> hash256 list \<Rightarrow> 't pending_blocks \<Rightarrow> (dag_block \<times> 't list) list \<times> 't pending_blocks" where
  "release_children parent [] p = ([], p)"
| "release_children parent (c # cs) p =
     (case map_of (pn_held p) c of
        None \<Rightarrow> release_children parent cs p
      | Some d \<Rightarrow>
          let d' = d\<lparr>hb_missing := removeAll parent (hb_missing d)\<rparr>;
              p1 = p\<lparr>pn_held := mput c d' (pn_held p)\<rparr> in
          if hb_missing d' = [] then
            (case pending_remove c p1 of (r, p2) \<Rightarrow>
               (case release_children parent cs p2 of (out, p3) \<Rightarrow>
                  ((case r of None \<Rightarrow> out | Some e \<Rightarrow> (hb_block e, hb_transactions e) # out), p3)))
          else release_children parent cs p1)"

definition release_on :: "hash256 \<Rightarrow> 't pending_blocks \<Rightarrow> (dag_block \<times> 't list) list \<times> 't pending_blocks" where
  "release_on parent p = (case map_of (pn_waiting_on p) parent of
     None \<Rightarrow> ([], p)
   | Some children \<Rightarrow>
       (case release_children parent children (p\<lparr>pn_waiting_on := mdel parent (pn_waiting_on p)\<rparr>) of
          (ready, p') \<Rightarrow> (sort_key (b_round \<circ> fst) ready, p')))"

definition release_up_to_round :: "u64 \<Rightarrow> 't pending_blocks \<Rightarrow> (dag_block \<times> 't list) list \<times> 't pending_blocks" where
  "release_up_to_round current_round p =
     (let reachable = map fst (filter (\<lambda>(_, d). hb_missing d = []
             \<and> b_round (hb_block d) \<le> saturating_add current_round 1) (pn_held p)) in
      case remove_each reachable p of (out, p') \<Rightarrow> (sort_key (b_round \<circ> fst) out, p'))"

definition drain_all :: "'t pending_blocks \<Rightarrow> (dag_block \<times> 't list) list \<times> 't pending_blocks" where
  "drain_all p = (case remove_each (map fst (pn_held p)) p of (out, p') \<Rightarrow> (sort_key (b_round \<circ> fst) out, p'))"

definition pending_expire :: "nat \<Rightarrow> 't pending_blocks \<Rightarrow> nat \<times> 't pending_blocks" where
  "pending_expire now p =
     (let stale = map snd (takeWhile (\<lambda>(since, _). now - since > MAX_PENDING_AGE) (map fst (pn_order p)));
          p' = snd (remove_each stale p) in
      (length stale, p'\<lparr>pn_evicted_expired := pn_evicted_expired p' + word_of_nat (length stale)\<rparr>))"

definition fetch_targets :: "'t pending_blocks \<Rightarrow> (address, u64) store" where
  "fetch_targets p = foldl (\<lambda>m (_, d).
     let from_round = saturating_sub (b_round (hb_block d)) 1 in
     mput (b_author (hb_block d)) (case map_of m (b_author (hb_block d)) of
       None \<Rightarrow> from_round | Some r \<Rightarrow> min r from_round) m) [] (pn_held p)"

fun absent_loop :: "engine \<Rightarrow> u64 \<Rightarrow> hash256 list \<Rightarrow> hash256 list option" where
  "absent_loop e expected [] = Some []"
| "absent_loop e expected (q # qs) =
     (case get_block e q of
        Some b \<Rightarrow> if b_round b \<noteq> expected then None else absent_loop e expected qs
      | None \<Rightarrow> map_option (Cons q) (absent_loop e expected qs))"

definition absent_parents :: "engine \<Rightarrow> dag_block \<Rightarrow> hash256 list option" where
  "absent_parents e b = (if b_round b = 0 then None else absent_loop e (b_round b - 1) (b_parents b))"

text \<open>The outer option is divergence of \<open>hold\<close>, or a panic of \<open>receive_block\<close>.\<close>

fun is_early :: "consensus_error \<Rightarrow> bool" where
  "is_early (MissingParents _ _) = True"
| "is_early (RoundTooFarAhead _ _) = True"
| "is_early _ = False"

definition hold_if_early ::
  "engine \<Rightarrow> dag_block \<Rightarrow> 't list \<Rightarrow> consensus_error \<Rightarrow> nat \<Rightarrow> 't pending_blocks
    \<Rightarrow> ('t block_offer \<times> 't pending_blocks) option" where
  "hold_if_early e b txs err now p =
     (if is_early err then
        (case absent_parents e b of
           None \<Rightarrow> Some (OfferRejected err, p)
         | Some missing \<Rightarrow>
             map_option (\<lambda>(ok, p'). (if ok then OfferHeld else OfferNotHeld err, p')) (hold b txs missing now p))
      else Some (OfferRejected err, p))"

definition receive_or_hold ::
  "'z crypto_scheme \<Rightarrow> dag_block \<Rightarrow> 't list \<Rightarrow> nat \<Rightarrow> engine \<Rightarrow> 't pending_blocks
    \<Rightarrow> ('t block_offer \<times> engine \<times> 't pending_blocks) option" where
  "receive_or_hold cr b txs now e p =
     (case receive_block cr b e of
        None \<Rightarrow> None
      | Some (Inr e') \<Rightarrow> Some (OfferAccepted b txs, e', p)
      | Some (Inl err) \<Rightarrow> map_option (\<lambda>(r, p'). (r, e, p')) (hold_if_early e b txs err now p))"

section \<open>The invariant\<close>

definition held_by :: "'t pending_blocks \<Rightarrow> address \<Rightarrow> hash256 set" where
  "held_by p a = {h. \<exists>d. map_of (pn_held p) h = Some d \<and> b_author (hb_block d) = a}"

definition author_entry :: "'t pending_blocks \<Rightarrow> address \<Rightarrow> nat" where
  "author_entry p a = (case map_of (pn_per_author p) a of None \<Rightarrow> 0 | Some n \<Rightarrow> n)"

definition waiting_set :: "(hash256, hash256 list) store \<Rightarrow> hash256 \<Rightarrow> hash256 set" where
  "waiting_set m q = (case map_of m q of None \<Rightarrow> {} | Some hs \<Rightarrow> set hs)"

definition waiters :: "'t pending_blocks \<Rightarrow> hash256 \<Rightarrow> hash256 set" where
  "waiters p q = waiting_set (pn_waiting_on p) q"

definition needs :: "'t pending_blocks \<Rightarrow> hash256 \<Rightarrow> hash256 set" where
  "needs p q = {h. \<exists>d. map_of (pn_held p) h = Some d \<and> q \<in> set (hb_missing d)}"

text \<open>The three indexes agree with the held blocks, and the bounds hold.\<close>

definition index_ok :: "'t pending_blocks \<Rightarrow> bool" where
  "index_ok p \<longleftrightarrow> mwf (pn_held p)
     \<and> (\<forall>k. mhas (pn_order p) k \<longleftrightarrow> (\<exists>d. map_of (pn_held p) (snd k) = Some d \<and> hb_since d = fst k))
     \<and> (\<forall>a. author_entry p a = card (held_by p a))"

definition bounds_ok :: "'t pending_blocks \<Rightarrow> bool" where
  "bounds_ok p \<longleftrightarrow> pending_len p \<le> MAX_PENDING_BLOCKS \<and> (\<forall>a. card (held_by p a) \<le> MAX_PENDING_PER_AUTHOR)"

definition pending_ok :: "'t pending_blocks \<Rightarrow> bool" where
  "pending_ok p \<longleftrightarrow> index_ok p \<and> bounds_ok p \<and> (\<forall>q. waiters p q = needs p q)"

lemma index_order:
  "index_ok p \<Longrightarrow> mhas (pn_order p) k \<longleftrightarrow> (\<exists>d. map_of (pn_held p) (snd k) = Some d \<and> hb_since d = fst k)"
  unfolding index_ok_def by blast

lemma finite_held_by [simp]: "finite (held_by p a)"
  by (rule finite_subset [of _ "dom (map_of (pn_held p))"]) (auto simp: held_by_def finite_dom_map_of)

lemma length_mdel_le: "length (mdel k m) \<le> length m"
  by (simp add: mdel_def)

lemma length_mdel_less: "mhas m k \<Longrightarrow> length (mdel k m) < length m"
  unfolding mdel_def mhas_def by (auto dest!: map_of_SomeD intro: length_filter_less)

section \<open>Removing a block\<close>

lemma pending_remove_None: "map_of (pn_held p) h = None \<Longrightarrow> pending_remove h p = (None, p)"
  by (simp add: pending_remove_def)

lemma held_remove: "map_of (pn_held (snd (pending_remove h p))) = (map_of (pn_held p))(h := None)"
  by (auto simp: pending_remove_def map_of_mdel split: option.splits)

lemma held_by_remove: "held_by (snd (pending_remove h p)) a = held_by p a - {h}"
  by (auto simp: held_by_def held_remove)

lemma author_entry_minus:
  "(case map_of (author_minus_one a m) x of None \<Rightarrow> 0 | Some n \<Rightarrow> n) =
    (case map_of m x of None \<Rightarrow> 0 | Some n \<Rightarrow> n) - (if x = a then 1 else (0 :: nat))"
  by (auto simp: author_minus_one_def store_simps split: option.splits)

lemma index_remove:
  assumes "index_ok p"
  shows "index_ok (snd (pending_remove h p))"
proof (cases "map_of (pn_held p) h")
  case None
  then show ?thesis using assms by (simp add: pending_remove_None)
next
  case (Some d)
  let ?p = "snd (pending_remove h p)"
  have "mwf (pn_held ?p)" using assms Some by (auto simp: index_ok_def pending_remove_def)
  moreover have "mhas (pn_order ?p) k \<longleftrightarrow> (\<exists>d. map_of (pn_held ?p) (snd k) = Some d \<and> hb_since d = fst k)" for k
  proof -
    have "mhas (pn_order ?p) k \<longleftrightarrow> k \<noteq> (hb_since d, h) \<and> mhas (pn_order p) k"
      using Some by (simp add: pending_remove_def mhas_mdel)
    then show ?thesis using assms Some unfolding held_remove index_ok_def by (cases k) auto
  qed
  moreover have "author_entry ?p a = card (held_by ?p a)" for a
  proof -
    have e: "author_entry ?p a = author_entry p a - (if a = b_author (hb_block d) then 1 else 0)"
      using Some by (simp add: author_entry_def pending_remove_def author_entry_minus)
    have "h \<in> held_by p a \<longleftrightarrow> a = b_author (hb_block d)" using Some by (auto simp: held_by_def)
    then show ?thesis using e assms by (simp add: held_by_remove index_ok_def card_Diff_singleton_if)
  qed
  ultimately show ?thesis by (simp add: index_ok_def)
qed

lemma bounds_remove: "bounds_ok p \<Longrightarrow> bounds_ok (snd (pending_remove h p))"
proof -
  assume b: "bounds_ok p"
  have "card (held_by p a - {h}) \<le> card (held_by p a)" for a by (rule card_mono) auto
  moreover have "length (pn_held (snd (pending_remove h p))) \<le> length (pn_held p)"
    by (auto simp: pending_remove_def length_mdel_le split: option.splits)
  ultimately show ?thesis
    using b unfolding bounds_ok_def pending_len_def held_by_remove by (meson order_trans)
qed

lemma removeAll_Nil_set: "removeAll x xs = [] \<longleftrightarrow> set xs \<subseteq> {x}"
  by (induction xs) auto

lemma waiting_stop: "waiting_set (stop_waiting h m q') q = waiting_set m q - (if q = q' then {h} else {})"
  by (auto simp: waiting_set_def stop_waiting_def Let_def store_simps removeAll_Nil_set split: option.splits)

lemma waiting_stop_all:
  "waiting_set (foldl (stop_waiting h) m qs) q = waiting_set m q - (if q \<in> set qs then {h} else {})"
  by (induction qs arbitrary: m) (auto simp: waiting_stop)

lemma waiters_remove:
  "waiters (snd (pending_remove h p)) q = waiters p q - (if h \<in> needs p q then {h} else {})"
  by (cases "map_of (pn_held p) h") (simp_all add: waiters_def pending_remove_def needs_def waiting_stop_all)

lemma needs_remove: "needs (snd (pending_remove h p)) q = needs p q - {h}"
  by (auto simp: needs_def held_remove)

lemma wait_remove:
  "waiters p q = needs p q \<Longrightarrow> waiters (snd (pending_remove h p)) q = needs (snd (pending_remove h p)) q"
  by (auto simp: waiters_remove needs_remove)

lemma ok_remove: "pending_ok p \<Longrightarrow> pending_ok (snd (pending_remove h p))"
  unfolding pending_ok_def using index_remove bounds_remove wait_remove by blast

lemma ok_remove_each: "pending_ok p \<Longrightarrow> pending_ok (snd (remove_each hs p))"
proof (induction hs arbitrary: p)
  case (Cons h hs)
  then show ?case using ok_remove [OF Cons.prems, of h] by (simp add: split_beta)
qed simp

lemma ok_counters:
  "pending_ok (p\<lparr>pn_evicted_full := x\<rparr>) = pending_ok p"
  "pending_ok (p\<lparr>pn_evicted_expired := x\<rparr>) = pending_ok p"
  "pending_ok (p\<lparr>pn_refused_per_author := x\<rparr>) = pending_ok p"
  by (simp_all add: pending_ok_def index_ok_def bounds_ok_def pending_len_def waiters_def needs_def held_by_def author_entry_def)

section \<open>Holding a block\<close>

text \<open>With the arrival order in agreement every round of the eviction loop removes a block, so it ends.\<close>

lemma evict_returns:
  "pending_ok p \<Longrightarrow> \<exists>p'. evict_full p = Some p' \<and> pending_ok p' \<and> pending_len p' < MAX_PENDING_BLOCKS
    \<and> (\<forall>h. map_of (pn_held p) h = None \<longrightarrow> map_of (pn_held p') h = None) \<and> (\<forall>a. held_by p' a \<subseteq> held_by p a)"
proof (induction "length (pn_held p)" arbitrary: p rule: less_induct)
  case less
  show ?case
  proof (cases "length (pn_held p) < MAX_PENDING_BLOCKS")
    case True
    then show ?thesis using less.prems by (simp add: evict_full.simps [of p] pending_len_def)
  next
    case False
    then obtain h d hs where held: "pn_held p = (h, d) # hs" by (cases "pn_held p") (auto simp: MAX_PENDING_BLOCKS_def)
    have ord: "mhas (pn_order p) k \<longleftrightarrow> (\<exists>d. map_of (pn_held p) (snd k) = Some d \<and> hb_since d = fst k)" for k
      using less.prems unfolding pending_ok_def by (intro index_order) blast
    have "mhas (pn_order p) (hb_since d, h)" using ord held by simp
    then obtain k u ks where order: "pn_order p = (k, u) # ks" by (cases "pn_order p") (auto simp: mhas_def)
    then have "mhas (pn_order p) k" by (cases k) (simp add: mhas_def)
    then have k: "mhas (pn_held p) (snd k)" using ord by (auto simp: mhas_def)
    let ?p = "(snd (pending_remove (snd k) p))\<lparr>pn_evicted_full := pn_evicted_full p + 1\<rparr>"
    have "length (pn_held ?p) < length (pn_held p)"
      using k length_mdel_less [of "pn_held p" "snd k"] by (auto simp: pending_remove_def mhas_def)
    moreover have "pending_ok ?p" using ok_remove [OF less.prems] by (simp add: ok_counters)
    ultimately obtain p' where p': "evict_full ?p = Some p'" "pending_ok p'" "pending_len p' < MAX_PENDING_BLOCKS"
      "\<forall>h. map_of (pn_held ?p) h = None \<longrightarrow> map_of (pn_held p') h = None" "\<forall>a. held_by p' a \<subseteq> held_by ?p a"
      using less.hyps by blast
    have "held_by ?p a \<subseteq> held_by p a" for a using held_by_remove [of "snd k" p a] by (auto simp: held_by_def)
    moreover have "evict_full p = evict_full ?p"
      using False order by (subst evict_full.simps) simp
    ultimately show ?thesis using p' held_remove [of "snd k" p] by (auto simp: subset_eq)
  qed
qed

lemma waiting_start: "waiting_set (mentry q' [] (List.insert h) m) q = waiting_set m q \<union> (if q = q' then {h} else {})"
  by (auto simp: waiting_set_def store_simps split: option.splits)

lemma waiting_start_all:
  "waiting_set (foldl (\<lambda>m parent. mentry parent [] (List.insert h) m) m qs) q = waiting_set m q \<union> (if q \<in> set qs then {h} else {})"
  by (induction qs arbitrary: m) (auto simp: waiting_start)

lemma ok_insert:
  assumes ok: "pending_ok p" and fresh: "map_of (pn_held p) (b_hash b) = None"
    and room: "pending_len p < MAX_PENDING_BLOCKS" "card (held_by p (b_author b)) < MAX_PENDING_PER_AUTHOR"
  shows "pending_ok (insert_held b txs missing now p)"
proof -
  let ?p = "insert_held b txs missing now p"
    and ?d = "\<lparr>hb_block = b, hb_transactions = txs, hb_missing = remdups missing, hb_since = now\<rparr>"
  have held: "map_of (pn_held ?p) = (map_of (pn_held p))(b_hash b \<mapsto> ?d)"
    by (simp add: insert_held_def map_of_mput Let_def)
  have author: "held_by ?p a = (if a = b_author b then insert (b_hash b) (held_by p a) else held_by p a)" for a
    using fresh by (auto simp: held_by_def held)
  have out: "b_hash b \<notin> held_by p a" for a using fresh by (simp add: held_by_def)
  have "author_entry ?p a = author_entry p a + (if a = b_author b then 1 else 0)" for a
    by (simp add: author_entry_def insert_held_def Let_def map_of_mentry split: option.splits)
  then have "\<forall>a. author_entry ?p a = card (held_by ?p a)"
    using ok out by (simp add: pending_ok_def index_ok_def author)
  moreover have "mhas (pn_order ?p) k \<longleftrightarrow> (\<exists>d. map_of (pn_held ?p) (snd k) = Some d \<and> hb_since d = fst k)" for k
  proof -
    have "mhas (pn_order ?p) k \<longleftrightarrow> k = (now, b_hash b) \<or> mhas (pn_order p) k"
      by (simp add: insert_held_def Let_def mhas_mput)
    then show ?thesis using ok fresh unfolding held pending_ok_def index_ok_def by (cases k) auto
  qed
  moreover have "mwf (pn_held ?p)" using ok by (auto simp: insert_held_def Let_def pending_ok_def index_ok_def)
  moreover have "length (pn_held ?p) \<le> Suc (length (pn_held p))" by (simp add: insert_held_def Let_def mput_length_le)
  moreover have "waiters ?p q = needs ?p q" for q
  proof -
    have "waiters ?p q = waiters p q \<union> (if q \<in> set missing then {b_hash b} else {})"
      by (simp add: waiters_def insert_held_def Let_def waiting_start_all)
    moreover have "needs ?p q = needs p q \<union> (if q \<in> set missing then {b_hash b} else {})"
      using fresh by (auto simp: needs_def held)
    ultimately show ?thesis using ok by (simp add: pending_ok_def)
  qed
  ultimately show ?thesis
    using ok room out by (auto simp: pending_ok_def index_ok_def bounds_ok_def pending_len_def author)
qed

lemma hold_returns:
  assumes "pending_ok p"
  obtains r p' where "hold b txs missing now p = Some (r, p')" "pending_ok p'" "r \<longrightarrow> pending_contains p' (b_hash b)"
    "r \<longleftrightarrow> \<not> pending_contains p (b_hash b) \<and> card (held_by p (b_author b)) < MAX_PENDING_PER_AUTHOR"
proof -
  have entry: "(case map_of (pn_per_author p) (b_author b) of None \<Rightarrow> 0 | Some n \<Rightarrow> n) = card (held_by p (b_author b))"
    using assms by (simp add: pending_ok_def index_ok_def author_entry_def)
  obtain p' where p': "evict_full p = Some p'" "pending_ok p'" "pending_len p' < MAX_PENDING_BLOCKS"
    "\<forall>h. map_of (pn_held p) h = None \<longrightarrow> map_of (pn_held p') h = None" "\<forall>a. held_by p' a \<subseteq> held_by p a"
    using evict_returns [OF assms] by blast
  have le: "card (held_by p' (b_author b)) \<le> card (held_by p (b_author b))"
    using p'(5) by (simp add: card_mono)
  show thesis
  proof (cases "mhas (pn_held p) (b_hash b) \<or> MAX_PENDING_PER_AUTHOR \<le> card (held_by p (b_author b))")
    case True
    then have "\<exists>p1. hold b txs missing now p = Some (False, p1) \<and> pending_ok p1"
      using assms by (cases "mhas (pn_held p) (b_hash b)") (simp_all add: hold_def entry ok_counters)
    then show ?thesis using that [of False] True by (auto simp: pending_contains_def)
  next
    case False
    then have "pending_ok (insert_held b txs missing now p')"
      using ok_insert [OF p'(2)] p'(3,4) le by (simp add: mhas_def)
    then show ?thesis
      using that [of True "insert_held b txs missing now p'"] False p'(1)
      by (simp add: hold_def entry pending_contains_def insert_held_def Let_def mhas_mput)
  qed
qed

section \<open>Releasing blocks\<close>

lemma ok_refine_missing:
  assumes "index_ok p" "bounds_ok p" "map_of (pn_held p) c = Some d"
  shows "index_ok (p\<lparr>pn_held := mput c (d\<lparr>hb_missing := ms\<rparr>) (pn_held p)\<rparr>)"
    and "bounds_ok (p\<lparr>pn_held := mput c (d\<lparr>hb_missing := ms\<rparr>) (pn_held p)\<rparr>)"
proof -
  let ?p = "p\<lparr>pn_held := mput c (d\<lparr>hb_missing := ms\<rparr>) (pn_held p)\<rparr>"
  have by_same: "held_by ?p a = held_by p a" for a
    using assms(3) unfolding held_by_def by (intro Collect_cong) (simp add: map_of_mput)
  have "mhas (pn_order ?p) k \<longleftrightarrow> (\<exists>d. map_of (pn_held ?p) (snd k) = Some d \<and> hb_since d = fst k)" for k
  proof -
    have "mhas (pn_order ?p) k \<longleftrightarrow> (\<exists>d. map_of (pn_held p) (snd k) = Some d \<and> hb_since d = fst k)"
      using index_order [OF assms(1)] by simp
    then show ?thesis using assms(3) by (cases "snd k = c") (simp_all add: map_of_mput)
  qed
  moreover have "mwf (pn_held ?p)" using assms(1) by (auto simp: index_ok_def)
  moreover have "author_entry ?p a = author_entry p a" for a by (simp add: author_entry_def)
  ultimately show "index_ok ?p" using assms(1) by (simp add: index_ok_def by_same)
  have "length (pn_held ?p) = length (pn_held p)"
    using mput_present_length [of "pn_held p" c "d\<lparr>hb_missing := ms\<rparr>"] assms(1,3) unfolding index_ok_def mhas_def by simp
  then show "bounds_ok ?p" using assms(2) by (simp add: bounds_ok_def pending_len_def by_same)
qed

text \<open>The release loop keeps the indexes of every parent but the released one, whose waiters are already
  gone, and leaves no processed child in need of it.\<close>

definition releasing :: "hash256 \<Rightarrow> 't pending_blocks \<Rightarrow> bool" where
  "releasing parent p \<longleftrightarrow> index_ok p \<and> bounds_ok p \<and> waiters p parent = {}
     \<and> (\<forall>q. q \<noteq> parent \<longrightarrow> waiters p q = needs p q)"

lemma releasing_refine:
  assumes "releasing parent p" "map_of (pn_held p) c = Some d"
  shows "releasing parent (p\<lparr>pn_held := mput c (d\<lparr>hb_missing := removeAll parent (hb_missing d)\<rparr>) (pn_held p)\<rparr>)"
proof -
  let ?p = "p\<lparr>pn_held := mput c (d\<lparr>hb_missing := removeAll parent (hb_missing d)\<rparr>) (pn_held p)\<rparr>"
  have "needs ?p q = needs p q" if "q \<noteq> parent" for q using assms(2) that by (auto simp: needs_def map_of_mput)
  moreover have "waiters ?p q = waiters p q" for q by (simp add: waiters_def)
  ultimately show ?thesis using assms ok_refine_missing [of p c d] by (simp add: releasing_def)
qed

lemma releasing_remove: "releasing parent p \<Longrightarrow> releasing parent (snd (pending_remove c p))"
  unfolding releasing_def by (simp add: index_remove bounds_remove wait_remove waiters_remove needs_remove)

text \<open>What a parent's arrival does to one held block.\<close>

definition after_parent :: "hash256 \<Rightarrow> 't held_block option \<Rightarrow> 't held_block option" where
  "after_parent parent x = (case x of None \<Rightarrow> None
     | Some d \<Rightarrow> if set (hb_missing d) \<subseteq> {parent} then None else Some (d\<lparr>hb_missing := removeAll parent (hb_missing d)\<rparr>))"

definition released_by :: "hash256 \<Rightarrow> hash256 set \<Rightarrow> 't pending_blocks \<Rightarrow> (dag_block \<times> 't list) set" where
  "released_by parent hs p = {(hb_block d, hb_transactions d) | h d.
     h \<in> hs \<and> map_of (pn_held p) h = Some d \<and> set (hb_missing d) \<subseteq> {parent}}"

lemma after_parent_idem: "after_parent parent (after_parent parent x) = after_parent parent x"
  by (auto simp: after_parent_def split: option.splits)

lemma released_by_split: "released_by parent (insert c S) p = released_by parent {c} p \<union> released_by parent (S - {c}) p"
  unfolding released_by_def by blast

lemma released_by_after:
  assumes "map_of (pn_held p1) = (map_of (pn_held p))(c := after_parent parent (map_of (pn_held p) c))"
  shows "released_by parent S p1 = released_by parent (S - {c}) p"
proof -
  have "h \<noteq> c \<and> map_of (pn_held p) h = Some d" if "map_of (pn_held p1) h = Some d" "set (hb_missing d) \<subseteq> {parent}" for h d
  proof (cases "h = c")
    case True
    then have "after_parent parent (map_of (pn_held p) c) = Some d" using that(1) unfolding assms by simp
    then have False using that(2)
      by (cases "map_of (pn_held p) c") (auto simp: after_parent_def split: if_splits)
    then show ?thesis ..
  next
    case False
    then show ?thesis using that(1) unfolding assms by simp
  qed
  then have "released_by parent S p1 \<subseteq> released_by parent (S - {c}) p" unfolding released_by_def by fastforce
  moreover have "map_of (pn_held p1) h = Some d" if "map_of (pn_held p) h = Some d" "h \<noteq> c" for h d
    using that unfolding assms by simp
  then have "released_by parent (S - {c}) p \<subseteq> released_by parent S p1" unfolding released_by_def by fastforce
  ultimately show ?thesis by blast
qed

lemma release_step:
  assumes "releasing parent p"
  obtains out p1 where "release_children parent (c # cs) p = (out @ fst (release_children parent cs p1), snd (release_children parent cs p1))"
    "releasing parent p1" "map_of (pn_held p1) = (map_of (pn_held p))(c := after_parent parent (map_of (pn_held p) c))"
    "set out = released_by parent {c} p"
proof (cases "map_of (pn_held p) c")
  case None
  then show ?thesis using assms by (intro that [of "[]" p]) (auto simp: after_parent_def released_by_def)
next
  case (Some d)
  let ?d = "d\<lparr>hb_missing := removeAll parent (hb_missing d)\<rparr>"
  let ?p = "p\<lparr>pn_held := mput c ?d (pn_held p)\<rparr>"
  have r: "releasing parent ?p" by (rule releasing_refine [OF assms Some])
  have c: "map_of (pn_held ?p) c = Some ?d" by (simp add: map_of_mput)
  show ?thesis
  proof (cases "set (hb_missing d) \<subseteq> {parent}")
    case True
    then have e: "removeAll parent (hb_missing d) = []" by (simp add: removeAll_Nil_set)
    have "fst (pending_remove c ?p) = Some ?d" using c by (simp add: pending_remove_def)
    then have "release_children parent (c # cs) p = ([(hb_block d, hb_transactions d)]
        @ fst (release_children parent cs (snd (pending_remove c ?p))), snd (release_children parent cs (snd (pending_remove c ?p))))"
      using Some e by (simp add: Let_def split_beta)
    then show ?thesis
      by (rule that) (use r True Some in \<open>simp_all add: releasing_remove held_remove map_of_mput after_parent_def released_by_def fun_upd_def fun_eq_iff\<close>)
  next
    case False
    then have "removeAll parent (hb_missing d) \<noteq> []" by (simp add: removeAll_Nil_set)
    then show ?thesis
      by (intro that [of "[]" ?p]) (use r False Some in \<open>auto simp: Let_def map_of_mput after_parent_def released_by_def\<close>)
  qed
qed

lemma release_children_spec:
  "releasing parent p \<Longrightarrow> releasing parent (snd (release_children parent cs p))
    \<and> (\<forall>h. map_of (pn_held (snd (release_children parent cs p))) h =
        (if h \<in> set cs then after_parent parent (map_of (pn_held p) h) else map_of (pn_held p) h))
    \<and> set (fst (release_children parent cs p)) = released_by parent (set cs) p"
proof (induction cs arbitrary: p)
  case Nil
  then show ?case by (simp add: released_by_def)
next
  case (Cons c cs)
  obtain out p1 where step: "release_children parent (c # cs) p =
      (out @ fst (release_children parent cs p1), snd (release_children parent cs p1))"
    and p1: "releasing parent p1" "map_of (pn_held p1) = (map_of (pn_held p))(c := after_parent parent (map_of (pn_held p) c))"
      "set out = released_by parent {c} p"
    by (rule release_step [OF Cons.prems])
  note ih = Cons.IH [OF p1(1)]
  have "released_by parent (set (c # cs)) p = released_by parent {c} p \<union> released_by parent (set cs) p1"
    using released_by_split [of parent c "set cs" p] released_by_after [OF p1(2), of "set cs"] by simp
  then show ?case using ih p1 unfolding step by (auto simp: after_parent_idem)
qed

lemma release_on_spec:
  assumes ok: "pending_ok p"
  shows "pending_ok (snd (release_on parent p)) \<and>
    set (fst (release_on parent p)) = {(hb_block d, hb_transactions d) | h d.
      map_of (pn_held p) h = Some d \<and> set (hb_missing d) = {parent}}"
proof (cases "map_of (pn_waiting_on p) parent")
  case None
  have "waiters p parent = needs p parent" using ok by (simp add: pending_ok_def)
  then have "needs p parent = {}" using None by (simp add: waiters_def waiting_set_def)
  then have "{(hb_block d, hb_transactions d) | h d. map_of (pn_held p) h = Some d \<and> set (hb_missing d) = {parent}} = {}"
    by (auto simp: needs_def)
  then show ?thesis using None ok by (simp add: release_on_def)
next
  case (Some children)
  let ?p = "p\<lparr>pn_waiting_on := mdel parent (pn_waiting_on p)\<rparr>" and ?r = "\<lambda>p. release_children parent children p"
  have "waiters p parent = needs p parent" using ok by (simp add: pending_ok_def)
  then have needs: "set children = needs p parent" using Some by (simp add: waiters_def waiting_set_def)
  have "releasing parent ?p"
    using ok by (simp add: releasing_def pending_ok_def index_ok_def bounds_ok_def pending_len_def held_by_def
        author_entry_def waiters_def needs_def waiting_set_def map_of_mdel)
  note spec = release_children_spec [OF this, of children]
  have "h \<notin> needs (snd (?r ?p)) parent" for h
  proof (cases "h \<in> set children")
    case True
    then have "map_of (pn_held (snd (?r ?p))) h = after_parent parent (map_of (pn_held p) h)" using spec by simp
    then show ?thesis by (auto simp: needs_def after_parent_def split: option.splits if_splits)
  next
    case False
    then have "map_of (pn_held (snd (?r ?p))) h = map_of (pn_held p) h" using spec by simp
    then show ?thesis using False by (simp add: needs needs_def)
  qed
  then have "waiters (snd (?r ?p)) q = needs (snd (?r ?p)) q" for q
    using spec unfolding releasing_def by (cases "q = parent") auto
  then have "pending_ok (snd (?r ?p))" using spec by (simp add: pending_ok_def releasing_def)
  moreover have "released_by parent (needs p parent) p = {(hb_block d, hb_transactions d) | h d.
      map_of (pn_held p) h = Some d \<and> set (hb_missing d) = {parent}}"
    unfolding released_by_def needs_def by fastforce
  moreover have "released_by parent (set children) ?p = released_by parent (needs p parent) p"
    by (simp add: released_by_def needs)
  ultimately show ?thesis using spec Some by (simp add: release_on_def split_beta)
qed

section \<open>Runs\<close>

datatype 't pending_op =
    PHold dag_block "'t list" "hash256 list" nat
  | PReleaseOn hash256
  | PReleaseRound u64
  | PDrain
  | PExpire nat

fun pending_step :: "'t pending_op \<Rightarrow> 't pending_blocks \<Rightarrow> 't pending_blocks option" where
  "pending_step (PHold b txs missing now) p = map_option snd (hold b txs missing now p)"
| "pending_step (PReleaseOn h) p = Some (snd (release_on h p))"
| "pending_step (PReleaseRound r) p = Some (snd (release_up_to_round r p))"
| "pending_step PDrain p = Some (snd (drain_all p))"
| "pending_step (PExpire now) p = Some (snd (pending_expire now p))"

fun pending_run :: "'t pending_op list \<Rightarrow> 't pending_blocks \<Rightarrow> 't pending_blocks option" where
  "pending_run [] p = Some p"
| "pending_run (op # ops) p = Option.bind (pending_step op p) (pending_run ops)"

lemma ok_new: "pending_ok pending_new"
  by (simp add: pending_new_def pending_ok_def index_ok_def bounds_ok_def pending_len_def waiters_def waiting_set_def
      needs_def held_by_def author_entry_def mhas_def)

lemma ok_step:
  assumes "pending_ok p"
  shows "\<exists>p'. pending_step op p = Some p' \<and> pending_ok p'"
proof (cases op)
  case (PHold b txs missing now)
  obtain r p' where "hold b txs missing now p = Some (r, p')" "pending_ok p'"
    by (rule hold_returns [OF assms])
  then show ?thesis using PHold by simp
qed (use assms in \<open>simp_all add: release_on_spec release_up_to_round_def drain_all_def pending_expire_def Let_def
      split_beta ok_remove_each ok_counters\<close>)

lemma ok_run: "pending_ok p \<Longrightarrow> \<exists>p'. pending_run ops p = Some p' \<and> pending_ok p'"
proof (induction ops arbitrary: p)
  case (Cons op ops)
  obtain p1 where "pending_step op p = Some p1" "pending_ok p1" using ok_step [OF Cons.prems] by blast
  then show ?case using Cons.IH by simp
qed simp

text \<open>C40: The holding area always returns and stays bounded. Over any sequence of calls no call diverges
  (the eviction loop of \<open>hold\<close> included), at most 2048 blocks are held, at most 256 of any author, and the
  per-author counter is exact. The arrival of a parent then releases exactly the held blocks that were
  waiting for it and for nothing else, so no early block is left behind by its last missing parent.\<close>

theorem pending_area_bounded:
  "\<exists>p. pending_run ops pending_new = Some p \<and> pending_len p \<le> 2048
    \<and> (\<forall>a. card (held_by p a) \<le> 256 \<and> author_entry p a = card (held_by p a))
    \<and> (\<forall>parent. set (fst (release_on parent p)) = {(hb_block d, hb_transactions d) | h d.
         map_of (pn_held p) h = Some d \<and> set (hb_missing d) = {parent}})"
proof -
  obtain p where p: "pending_run ops pending_new = Some p" "pending_ok p" using ok_run [OF ok_new] by blast
  then have "pending_len p \<le> 2048" "\<forall>a. card (held_by p a) \<le> 256 \<and> author_entry p a = card (held_by p a)"
    unfolding pending_ok_def index_ok_def bounds_ok_def MAX_PENDING_BLOCKS_def MAX_PENDING_PER_AUTHOR_def by simp_all
  then show ?thesis using p release_on_spec [OF p(2)] by blast
qed

text \<open>A block that is only early is never rejected: it is held, unless it is held already or its author
  has no room left.\<close>

lemma early_block_held:
  assumes "pending_ok p" "is_early err" "absent_parents e b \<noteq> None"
    "\<not> pending_contains p (b_hash b)" "card (held_by p (b_author b)) < MAX_PENDING_PER_AUTHOR"
  shows "\<exists>p'. hold_if_early e b txs err now p = Some (OfferHeld, p') \<and> pending_contains p' (b_hash b)"
proof -
  obtain missing where m: "absent_parents e b = Some missing" using assms(3) by blast
  obtain r p' where "hold b txs missing now p = Some (r, p')" "pending_ok p'" "r \<longrightarrow> pending_contains p' (b_hash b)"
    "r \<longleftrightarrow> \<not> pending_contains p (b_hash b) \<and> card (held_by p (b_author b)) < MAX_PENDING_PER_AUTHOR"
    by (rule hold_returns [OF assms(1)])
  then show ?thesis using assms(2,4,5) m by (simp add: hold_if_early_def)
qed

end
