(* ===== verification/Spec2Isabelle.thy ===== *)
theory Spec2Isabelle
  imports Arc_Validators Arc_Security Arc_Merkle Arc_Availability Arc_Certificates Arc_Dag Arc_Cross_Shard
    Arc_Commit Arc_Safety Arc_Agreement Arc_Fork Arc_Node Arc_Runs Arc_Queue Arc_Book Arc_Assignment
    Arc_Channel Arc_Multisig Arc_Governance Arc_Pending
begin

text \<open>
  A verification of the consensus core, the cryptographic data structures, the work assignment, the
  payment channels, and the wallet and governance state of ARC chain (a Rust workspace under
  \<open>src/crates\<close>).

  \<^bold>\<open>The program.\<close> Validators build a DAG of blocks (\<open>arc-consensus\<close>): each round a validator proposes one
  block over a quorum of blocks of the round before, and every node decides from its own DAG which leader
  blocks are committed and in which order. Around the engine are the validator set with its stakes and
  slashing, certificates that excuse absent validators or finalise blocks, detectors of misbehaviour,
  erasure-coded availability and cross-shard locks. \<open>arc-crypto\<close> has the hashes, signatures and Merkle
  trees these use. \<open>arc-assign\<close> distributes the rows of a model over workers: leases and measured links
  give candidates, a placement divides the rows, a ledger reserves call slots, a certificate fixes the
  outcome, and a queue serves the calls. \<open>arc-channel\<close> is a two-party payment channel; \<open>arc-types\<close> has the
  multi-signature wallet and on-chain governance.

  \<^bold>\<open>Conventions.\<close> Integers are words of their Rust width, and unchecked arithmetic wraps, as in a release
  build; \<open>usize\<close> is \<open>nat\<close>. A 32-byte hash or address is a 256-bit word whose order is the byte order.
  \<open>Result\<close> is a sum with the error on the left and \<open>and_then\<close> its \<open>?\<close> operator. A panic, a failed \<open>expect\<close>
  or a loop that does not return is \<open>None\<close> in an outer option. Maps are association lists sorted by key,
  with the laws of the locale \<open>keyed_store\<close>. Methods that change \<open>self\<close> return the new record. Hash and
  signature primitives are fields of a record argument, and so is the binary encoding; what a theorem
  needs of them is a hypothesis, and its witness instantiates them. A signing key is the function that
  signs.

  \<^bold>\<open>Theories.\<close>
  \<^item> \<open>Arc_Prelude\<close>: integers, results, stores, vectors searched by first match, and the locale \<open>machine\<close>,
    by which an invariant of one step is an invariant of every run.
  \<^item> \<open>Arc_Crypto\<close> (\<open>hash.rs\<close>, \<open>signature.rs\<close>) and \<open>Arc_Merkle\<close> (\<open>merkle.rs\<close>): encodings and signature
    checks; trees with inclusion proofs and the incremental tree. Proofs verify and are sound when the pair
    hash is injective; recomputing dirty paths equals a rebuild; the incremental tree refines a plain store.
  \<^item> \<open>Arc_Validators\<close> (\<open>lib.rs\<close>): stakes, quorums, membership and slashing. Two quorums share a member
    outside every tolerated faulty set; the quorum test is exact; every membership call keeps sets valid.
  \<^item> \<open>Arc_Security\<close> (\<open>security.rs\<close>), \<open>Arc_Availability\<close> (\<open>data_availability.rs\<close>) and \<open>Arc_Certificates\<close>
    (\<open>view_change.rs\<close>): detectors and checkpoints, the erasure code with what it can and cannot recover,
    and skip and finality certificates with their collectors and signing record.
  \<^item> \<open>Arc_Dag\<close>, \<open>Arc_Cross_Shard\<close> and \<open>Arc_Commit\<close> (\<open>lib.rs\<close>): the engine's record, its block handlers,
    repositioning to a checkpoint or to the cursors of the log, the reset of the DAG, the locks and their
    atomic batches, and the commit rule with its scan.
  \<^item> \<open>Arc_Pending\<close> (\<open>pending.rs\<close>): the area that holds early blocks. Its calls return and keep its bounds,
    and a parent's arrival releases exactly the blocks that waited for it alone.
  \<^item> \<open>Arc_Safety\<close>, \<open>Arc_Agreement\<close> and \<open>Arc_Fork\<close>: what the commit rule guarantees. While the faulty stake is
    within tolerance, and in a domain or under a correct leader, a certified round is never skipped; in a
    recovery domain two views decide a round alike when its leader and one correct member above it are not
    excused; outside a domain the rule can fork, shown on five concrete validators.
  \<^item> \<open>Arc_Node\<close> and \<open>Arc_Runs\<close>: the invariants of a node and the runs of its handlers. Two domain-bound nodes
    whose views agree commit alike on the grounds just named, after any runs that do not take the commit
    cursor back. Every node signs one block a round, unless its DAG is reset. Stale locks expire as rounds
    pass, and the withholding detector never reports anyone.
  \<^item> \<open>Arc_Lease\<close> (\<open>link.rs\<close>, \<open>lease.rs\<close>, \<open>reservation.rs\<close>), \<open>Arc_Placement\<close> (\<open>placement.rs\<close>), \<open>Arc_Book\<close>
    (\<open>book.rs\<close>), \<open>Arc_Queue\<close> (\<open>queue.rs\<close>) and \<open>Arc_Assignment\<close> (\<open>verify.rs\<close>, \<open>certificate.rs\<close>,
    \<open>resident.rs\<close>): placements cover every row once, use only workers that hold it, and can be reserved;
    reservations are bounded; the queue is fair and loses no call; a certificate that verifies against an
    authorisation carries its policy and a placement that covers every row.
  \<^item> \<open>Arc_Channel\<close> (\<open>arc-channel/src/lib.rs\<close>): from newly opened machines and a first payment by the opener,
    the two parties agree over every sequence of payments. Separate lemmas show the constructor's unequal
    start, the wrapping conservation check and the checks that finalising omits.
  \<^item> \<open>Arc_Multisig\<close> (\<open>multisig.rs\<close>) and \<open>Arc_Governance\<close> (\<open>governance.rs\<close>): every execution traces back to
    the approvals, or to the votes and the finalisation, that authorise it; lemmas at the end of each show
    where the code does less than its comments say.

  \<^bold>\<open>Bounds.\<close> Loops are total functions, with a measure where the recursion is not structural (the Merkle
  levels, erasure recovery, the search of a causal history), and no fuel is used. The exceptions are
  partial functions. The eviction loop of the holding area returns in every reachable state, where its
  indexes agree. Row splitting in a placement may not return in general; the placement theorems show that it returns when there are fewer than 999999 candidates, below
  which rounding cannot hide an empty share. Payment sequences are shorter than the nonce's \<open>2^64\<close>.

  \<^bold>\<open>Not modelled.\<close> Of the engine: the round timer and logging; the setters that open or close the restart base
  round and the bootstrapping of the DAG; the recovery path (its installation, its bounded replay, restored
  recovery commits); history import; fraud proofs and finality proofs. \<open>reset_dag\<close> is modelled, but is a step of
  the runs of only those properties that hold in spite of it: agreement and the withholding detector. Of \<open>view_change.rs\<close> the byte format of the signing
  record, of \<open>data_availability.rs\<close> the random sampler, of \<open>signature.rs\<close> key generation, signing and batches;
  in \<open>arc-assign\<close> the signing of leases. The beacon and subnets of \<open>arc-consensus\<close>, the
  transaction pool, and the remaining types of \<open>arc-types\<close> (transactions, accounts, economics, session keys,
  social recovery) could be modelled in the same style and are not yet. The node, network, state database,
  virtual machines, GPU kernels, inference engines, desktop and command-line programs are input and output,
  concurrency, or third-party and numeric code, for which this style has no faithful small model.
\<close>

end
